(* ===== verification/Zent_Prelude.thy ===== *)
theory Zent_Prelude
  imports Main "HOL-Library.Word"
begin

unbundle bit_operations_syntax

text \<open>
  The prelude of the development: the names of the machine types of the Go source, little
  endian byte strings and their conversion to words, and the
  generic lemmas on lists and words that the component theories share.
  \<^item> \<open>zent_bits\<close> collects the facts that turn word equations into bit equations;
  \<^item> \<open>zent_io\<close> collects the reading and writing primitives of the wire format.
\<close>

named_theorems zent_bits
named_theorems zent_io

type_synonym byte = "8 word"
type_synonym bytes = "8 word list"
type_synonym u8 = "8 word"
type_synonym u16 = "16 word"
type_synonym u32 = "32 word"
type_synonym u64 = "64 word"

text \<open>A \<open>chainhash.Hash\<close> is a byte array of 32 entries; it is the byte list of that length.\<close>

type_synonym hash = "8 word list"

abbreviation zero_hash :: hash where
  "zero_hash \<equiv> replicate 32 0"

subsection \<open>Little endian byte strings\<close>

text \<open>
  \<open>binary.LittleEndian.PutUint16/32/64\<close> write the bytes of a word, least significant first;
  \<open>binary.LittleEndian.Uint16/32/64\<close> read them back. The number of bytes is the first argument.
\<close>

definition le_bytes :: "nat \<Rightarrow> 'a::len word \<Rightarrow> bytes" where
  "le_bytes n w = map (\<lambda>i. ucast (drop_bit (8 * i) w)) [0..<n]"

primrec le_word :: "bytes \<Rightarrow> 'a::len word" where
  "le_word [] = 0"
| "le_word (b # bs) = ucast b OR push_bit 8 (le_word bs)"

lemma length_le_bytes [simp]: "length (le_bytes n w) = n"
  by (simp add: le_bytes_def)

lemma bit_le_word [zent_bits]:
  "bit (le_word bs :: 'a::len word) k \<longleftrightarrow>
     k < LENGTH('a) \<and> k div 8 < length bs \<and> bit (bs ! (k div 8)) (k mod 8)"
proof (induction bs arbitrary: k)
  case Nil
  then show ?case by simp
next
  case (Cons b bs)
  show ?case
  proof (cases "k < 8")
    case True
    then show ?thesis
      by (auto simp: bit_or_iff bit_push_bit_iff bit_ucast_iff not_le)
  next
    case False
    then have k: "k div 8 = Suc ((k - 8) div 8)" "k mod 8 = (k - 8) mod 8"
      by (simp_all add: le_div_geq le_mod_geq)
    have "\<not> bit b k" using False by (auto dest: bit_imp_le_length)
    with False k Cons.IH [of "k - 8"] show ?thesis
      by (auto simp: bit_or_iff bit_push_bit_iff bit_ucast_iff)
  qed
qed

lemma bit_le_bytes [zent_bits]:
  "i < n \<Longrightarrow> bit (le_bytes n w ! i) j \<longleftrightarrow> j < 8 \<and> bit w (8 * i + j)"
  by (auto simp: le_bytes_def bit_ucast_iff bit_drop_bit_eq)

lemma le_word_le_bytes [simp]:
  fixes w :: "'a::len word"
  assumes "LENGTH('a) \<le> 8 * n"
  shows "le_word (le_bytes n w) = w"
proof (rule bit_word_eqI)
  fix k assume k: "k < LENGTH('a)"
  with assms have "k div 8 < n" by auto
  then show "bit (le_word (le_bytes n w) :: 'a word) k \<longleftrightarrow> bit w k"
    using k by (simp add: bit_le_word bit_le_bytes)
qed

lemma le_bytes_le_word [simp]:
  assumes "8 * length bs \<le> LENGTH('a::len)" "n = length bs"
  shows "le_bytes n (le_word bs :: 'a word) = bs"
proof (rule nth_equalityI)
  show "length (le_bytes n (le_word bs :: 'a word)) = length bs" using assms by simp
  fix i assume i: "i < length (le_bytes n (le_word bs :: 'a word))"
  show "le_bytes n (le_word bs :: 'a word) ! i = bs ! i"
  proof (rule bit_word_eqI)
    fix j assume "j < LENGTH(8)"
    then show "bit (le_bytes n (le_word bs :: 'a word) ! i) j \<longleftrightarrow> bit (bs ! i) j"
      using i assms by (auto simp: bit_le_bytes bit_le_word)
  qed
qed

lemma le_word_less:
  assumes "n = length bs" "8 * n \<le> m"
  shows "uint (le_word bs :: 'a::len word) < 2 ^ m"
proof (cases "m < LENGTH('a)")
  case True
  have "take_bit m (le_word bs :: 'a word) = le_word bs"
    by (rule bit_word_eqI) (use assms in \<open>auto simp: bit_take_bit_iff bit_le_word\<close>)
  then have "uint (le_word bs :: 'a word) = take_bit m (uint (le_word bs :: 'a word))"
    by (metis unsigned_take_bit_eq)
  then show ?thesis by (metis take_bit_int_less_exp)
next
  case False
  have "uint (le_word bs :: 'a word) < 2 ^ LENGTH('a)" by (rule uint_lt2p)
  also have "\<dots> \<le> 2 ^ m" using False by (simp add: power_increasing)
  finally show ?thesis .
qed

subsection \<open>Words\<close>

lemma word_eq_of_nat: "unat x = k \<Longrightarrow> x = of_nat k"
  by auto

lemma unat_of_nat_small:
  "n < 2 ^ LENGTH('a::len) \<Longrightarrow> unat (of_nat n :: 'a word) = n"
  by (simp add: unat_of_nat)

lemma unat_u64_of_nat: "x = of_nat n \<Longrightarrow> n < 2 ^ 64 \<Longrightarrow> unat (x :: u64) = n"
  by (simp add: unat_of_nat_small)

lemma unat_u32_of_nat: "x = of_nat n \<Longrightarrow> n < 2 ^ 32 \<Longrightarrow> unat (x :: u32) = n"
  by (simp add: unat_of_nat_small)

lemma unat_drop_bit: "unat (drop_bit e (n :: 'a::len word)) = unat n div 2 ^ e"
  using unsigned_less [of n, where ?'a = nat]
  by (simp add: unsigned_drop_bit_eq take_bit_nat_eq_self drop_bit_eq_div [of e "unat n"])

lemma ucast_ucast_up:
  fixes w :: "'a::len word"
  assumes "LENGTH('a) \<le> LENGTH('b::len)"
  shows "ucast (ucast w :: 'b word) = w"
  using assms by (simp add: ucast_up_ucast_id is_up.rep_eq)

lemma uint_ucast_up:
  fixes w :: "'a::len word"
  assumes "LENGTH('a) \<le> LENGTH('b::len)"
  shows "uint (ucast w :: 'b word) = uint w"
  using assms by (simp add: uint_up_ucast is_up.rep_eq)

lemma unat_ucast_up:
  fixes w :: "'a::len word"
  assumes "LENGTH('a) \<le> LENGTH('b::len)"
  shows "unat (ucast w :: 'b word) = unat w"
  using uint_ucast_up [OF assms, of w] by (simp only: unat_eq_nat_uint)

lemma bit_7f [zent_bits]: "bit (0x7f :: int) k \<longleftrightarrow> k < 7"
proof -
  have "(0x7f :: int) = mask 7" by (simp add: mask_eq_exp_minus_1)
  then show ?thesis by (metis bit_mask_iff possible_bit_int)
qed

lemma bit_80 [zent_bits]: "bit (0x80 :: int) k \<longleftrightarrow> k = 7"
proof -
  have "(0x80 :: int) = 2 ^ 7" by simp
  then show ?thesis by (metis bit_exp_iff possible_bit_int)
qed

subsection \<open>Lists\<close>

lemma take_append_eq [simp]: "length xs = n \<Longrightarrow> take n (xs @ ys) = xs"
  by simp

lemma drop_append_eq [simp]: "length xs = n \<Longrightarrow> drop n (xs @ ys) = ys"
  by simp

subsection \<open>The middle element of a sorted list\<close>

lemma filter_less_nth_sorted:
  fixes xs :: "int list"
  assumes "sorted xs" "k < length xs"
  shows "length (filter (\<lambda>t. t < xs ! k) xs) \<le> k"
    and "length (filter (\<lambda>t. xs ! k < t) xs) \<le> length xs - 1 - k"
proof -
  have split: "xs = take k xs @ xs ! k # drop (Suc k) xs" using assms(2) by (simp add: id_take_nth_drop)
  have hi: "x \<in> set (drop (Suc k) xs) \<Longrightarrow> xs ! k \<le> x" for x
    using assms by (auto simp: in_set_conv_nth sorted_iff_nth_mono)
  have lo: "x \<in> set (take k xs) \<Longrightarrow> x \<le> xs ! k" for x
    using assms by (auto simp: in_set_conv_nth sorted_iff_nth_mono)
  have "filter (\<lambda>t. t < xs ! k) xs = filter (\<lambda>t. t < xs ! k) (take k xs)"
    by (subst (2) split) (use hi in \<open>force simp: filter_empty_conv\<close>)
  then show "length (filter (\<lambda>t. t < xs ! k) xs) \<le> k"
    using length_filter_le [of "\<lambda>t. t < xs ! k" "take k xs"] assms(2) by simp
  have "filter (\<lambda>t. xs ! k < t) xs = filter (\<lambda>t. xs ! k < t) (drop (Suc k) xs)"
    by (subst (2) split) (use lo in \<open>force simp: filter_empty_conv\<close>)
  then show "length (filter (\<lambda>t. xs ! k < t) xs) \<le> length xs - 1 - k"
    using length_filter_le [of "\<lambda>t. xs ! k < t" "drop (Suc k) xs"] by simp
qed

lemma median_of_sort:
  fixes ts :: "int list"
  assumes "ts \<noteq> []"
  shows "sort ts ! (length ts div 2) \<in> set ts
    \<and> 2 * length (filter (\<lambda>t. t < sort ts ! (length ts div 2)) ts) \<le> length ts
    \<and> 2 * length (filter (\<lambda>t. sort ts ! (length ts div 2) < t) ts) < length ts"
proof -
  let ?k = "length ts div 2"
  have k: "?k < length (sort ts)" using assms by simp
  have len: "length (filter P (sort ts)) = length (filter P ts)" for P
    by (metis filter_sort length_sort)
  have "sort ts ! ?k \<in> set ts" using nth_mem [OF k] by simp
  moreover have "0 < length ts" using assms by simp
  moreover have "length (filter (\<lambda>t. t < sort ts ! ?k) ts) \<le> ?k"
    "length (filter (\<lambda>t. sort ts ! ?k < t) ts) \<le> length ts - 1 - ?k"
    using filter_less_nth_sorted [OF sorted_sort k] unfolding len length_sort .
  ultimately show ?thesis by linarith
qed

end
