(* ===== verification/Wire_Common.thy ===== *)
theory Wire_Common
  imports Zent_Prelude
begin

text \<open>
  The primitives of the wire format, \<^verbatim>\<open>btcd/wire/common/common.go\<close>: fixed-width integers,
  typed elements, variable length integers, strings and byte arrays.

  A reader is a state transformer on the unread bytes of the stream. It returns the value or the
  error of the Go function together with what is left of the stream, also after an error, because
  some callers ignore the error and read on. A writer returns the bytes it appends. The stream
  is the in-memory one (\<^verbatim>\<open>bytes.Reader\<close> and \<^verbatim>\<open>bytes.Buffer\<close>), on which writing never fails.
  The free list of scratch buffers behind \<open>BinarySerializer\<close> has no effect on the bytes and is
  not part of the model. The argument \<open>pver\<close> is unused in the source and is left out. The errors
  are the values the functions return (\<open>ErrMessage\<close> with the name of the function that reports a
  \<open>MessageError\<close>, without the formatted description), and \<open>GoPanic\<close>, which is not a value but a
  run-time panic: nothing in the sources recovers from it.
\<close>

datatype wire_error =
    ErrEOF
  | ErrUnexpectedEOF
  | ErrNonCanonicalVarInt u64 u8 u64
  | ErrTooLong string u64 nat
  | ErrInvalidType
  | ErrUnrecognizedDefinition u8
  | ErrMessage string
  | GoPanic

type_synonym 'a reader = "bytes \<Rightarrow> (wire_error + 'a) \<times> bytes"

subsection \<open>Reading from the stream\<close>

text \<open>
  \<open>io.ReadFull\<close> fills the whole buffer or reports \<open>io.EOF\<close> (nothing was read) or
  \<open>io.ErrUnexpectedEOF\<close> (some bytes were). \<open>read_fill\<close> is the same call by a caller that drops
  the error and keeps the zero-initialised buffer with whatever was read.
\<close>

definition read_full :: "nat \<Rightarrow> bytes reader" where
  "read_full n bs =
     (if n \<le> length bs then (Inr (take n bs), drop n bs)
      else if bs = [] then (Inl ErrEOF, [])
      else (Inl ErrUnexpectedEOF, []))"

definition read_fill :: "nat \<Rightarrow> bytes \<Rightarrow> bytes \<times> bytes" where
  "read_fill n bs = (take n bs @ replicate (n - length bs) 0, drop n bs)"

definition rbind :: "'a reader \<Rightarrow> ('a \<Rightarrow> 'b reader) \<Rightarrow> 'b reader" where
  "rbind m f bs = (case m bs of (Inl e, r) \<Rightarrow> (Inl e, r) | (Inr a, r) \<Rightarrow> f a r)"

definition rreturn :: "'a \<Rightarrow> 'a reader" where
  "rreturn a bs = (Inr a, bs)"

definition rfail :: "wire_error \<Rightarrow> 'a reader" where
  "rfail e bs = (Inl e, bs)"

subsection \<open>Fixed-width integers\<close>

datatype byte_order = LittleEndian | BigEndian

fun put_word :: "byte_order \<Rightarrow> nat \<Rightarrow> 'a::len word \<Rightarrow> bytes" where
  "put_word LittleEndian n w = le_bytes n w"
| "put_word BigEndian n w = rev (le_bytes n w)"

fun get_word :: "byte_order \<Rightarrow> bytes \<Rightarrow> 'a::len word" where
  "get_word LittleEndian bs = le_word bs"
| "get_word BigEndian bs = le_word (rev bs)"

definition Uint8 :: "u8 reader" where
  "Uint8 = rbind (read_full 1) (\<lambda>buf. rreturn (buf ! 0))"

definition Uint16 :: "byte_order \<Rightarrow> u16 reader" where
  "Uint16 ord = rbind (read_full 2) (\<lambda>buf. rreturn (get_word ord buf))"

definition Uint32 :: "byte_order \<Rightarrow> u32 reader" where
  "Uint32 ord = rbind (read_full 4) (\<lambda>buf. rreturn (get_word ord buf))"

definition Uint64 :: "byte_order \<Rightarrow> u64 reader" where
  "Uint64 ord = rbind (read_full 8) (\<lambda>buf. rreturn (get_word ord buf))"

definition PutUint8 :: "u8 \<Rightarrow> bytes" where
  "PutUint8 v = [v]"

definition PutUint16 :: "byte_order \<Rightarrow> u16 \<Rightarrow> bytes" where
  "PutUint16 ord v = put_word ord 2 v"

definition PutUint32 :: "byte_order \<Rightarrow> u32 \<Rightarrow> bytes" where
  "PutUint32 ord v = put_word ord 4 v"

definition PutUint64 :: "byte_order \<Rightarrow> u64 \<Rightarrow> bytes" where
  "PutUint64 ord v = put_word ord 8 v"

subsection \<open>Typed elements\<close>

text \<open>
  The Go functions switch on the dynamic type of the element. \<open>elem_ty\<close> has one constructor per
  case of \<open>ReadElement\<close>; \<open>element\<close> the values. The signed integers are words too: the
  conversions \<open>int32(rv)\<close>, \<open>uint64(e)\<close> keep the bits. A time is its Unix seconds.
\<close>

datatype elem_ty =
    TInt32 | TUint32 | TUint8 | TInt64 | TUint64 | TBool | TUint32Time | TInt64Time
  | TChecksum | TCommand | TIP | THash | TServiceFlag | TInvType | TOmegaNet
  | TBloomUpdateType | TRejectCode

datatype element =
    EInt32 u32 | EUint32 u32 | EUint8 u8 | EInt64 u64 | EUint64 u64 | EBool bool
  | EUint32Time int | EInt64Time int
  | EChecksum bytes | ECommand bytes | EIP bytes | EHash bytes
  | EServiceFlag u64 | EInvType u32 | EOmegaNet u32
  | EBloomUpdateType u8 | ERejectCode u8

definition CommandSize :: nat where
  "CommandSize = 12"

fun ReadElement :: "elem_ty \<Rightarrow> element reader" where
  "ReadElement TInt32 = rbind (Uint32 LittleEndian) (\<lambda>rv. rreturn (EInt32 rv))"
| "ReadElement TUint32 = rbind (Uint32 LittleEndian) (\<lambda>rv. rreturn (EUint32 rv))"
| "ReadElement TUint8 = rbind Uint8 (\<lambda>rv. rreturn (EUint8 rv))"
| "ReadElement TInt64 = rbind (Uint64 LittleEndian) (\<lambda>rv. rreturn (EInt64 rv))"
| "ReadElement TUint64 = rbind (Uint64 LittleEndian) (\<lambda>rv. rreturn (EUint64 rv))"
| "ReadElement TBool = rbind Uint8 (\<lambda>rv. rreturn (EBool (if rv = 0x00 then False else True)))"
| "ReadElement TUint32Time = rbind (Uint32 LittleEndian) (\<lambda>rv. rreturn (EUint32Time (uint rv)))"
| "ReadElement TInt64Time = rbind (Uint64 LittleEndian) (\<lambda>rv. rreturn (EInt64Time (sint rv)))"
| "ReadElement TChecksum = rbind (read_full 4) (\<lambda>b. rreturn (EChecksum b))"
| "ReadElement TCommand = rbind (read_full CommandSize) (\<lambda>b. rreturn (ECommand b))"
| "ReadElement TIP = rbind (read_full 16) (\<lambda>b. rreturn (EIP b))"
| "ReadElement THash = rbind (read_full 32) (\<lambda>b. rreturn (EHash b))"
| "ReadElement TServiceFlag = rbind (Uint64 LittleEndian) (\<lambda>rv. rreturn (EServiceFlag rv))"
| "ReadElement TInvType = rbind (Uint32 LittleEndian) (\<lambda>rv. rreturn (EInvType rv))"
| "ReadElement TOmegaNet = rbind (Uint32 LittleEndian) (\<lambda>rv. rreturn (EOmegaNet rv))"
| "ReadElement TBloomUpdateType = rbind Uint8 (\<lambda>rv. rreturn (EBloomUpdateType rv))"
| "ReadElement TRejectCode = rbind Uint8 (\<lambda>rv. rreturn (ERejectCode rv))"

text \<open>
  \<open>WriteElement\<close> has no case for \<open>uint8\<close> and for the two time types: \<open>binary.Write\<close> writes the
  byte, and refuses the time structs.
\<close>

fun WriteElement :: "element \<Rightarrow> wire_error + bytes" where
  "WriteElement (EInt32 e) = Inr (PutUint32 LittleEndian e)"
| "WriteElement (EUint32 e) = Inr (PutUint32 LittleEndian e)"
| "WriteElement (EInt64 e) = Inr (PutUint64 LittleEndian e)"
| "WriteElement (EUint64 e) = Inr (PutUint64 LittleEndian e)"
| "WriteElement (EBool e) = Inr (if e then PutUint8 0x01 else PutUint8 0x00)"
| "WriteElement (EChecksum e) = Inr e"
| "WriteElement (ECommand e) = Inr e"
| "WriteElement (EIP e) = Inr e"
| "WriteElement (EHash e) = Inr e"
| "WriteElement (EServiceFlag e) = Inr (PutUint64 LittleEndian e)"
| "WriteElement (EInvType e) = Inr (PutUint32 LittleEndian e)"
| "WriteElement (EOmegaNet e) = Inr (PutUint32 LittleEndian e)"
| "WriteElement (EBloomUpdateType e) = Inr (PutUint8 e)"
| "WriteElement (ERejectCode e) = Inr (PutUint8 e)"
| "WriteElement (EUint8 e) = Inr (PutUint8 e)"
| "WriteElement (EUint32Time t) = Inl ErrInvalidType"
| "WriteElement (EInt64Time t) = Inl ErrInvalidType"

fun ReadElements :: "elem_ty list \<Rightarrow> element list reader" where
  "ReadElements [] = rreturn []"
| "ReadElements (t # ts) = rbind (ReadElement t) (\<lambda>e. rbind (ReadElements ts) (\<lambda>es. rreturn (e # es)))"

fun WriteElements :: "element list \<Rightarrow> wire_error + bytes" where
  "WriteElements [] = Inr []"
| "WriteElements (e # es) =
     (case WriteElement e of Inl err \<Rightarrow> Inl err
      | Inr b \<Rightarrow> (case WriteElements es of Inl err \<Rightarrow> Inl err | Inr bs \<Rightarrow> Inr (b @ bs)))"

subsection \<open>Variable length integers\<close>

definition ReadVarInt :: "u64 reader" where
  "ReadVarInt =
     rbind Uint8 (\<lambda>discriminant.
       if discriminant = 0xff then
         rbind (Uint64 LittleEndian) (\<lambda>sv.
           let rv = sv; mn = 0x100000000
           in if rv < mn then rfail (ErrNonCanonicalVarInt rv discriminant mn) else rreturn rv)
       else if discriminant = 0xfe then
         rbind (Uint32 LittleEndian) (\<lambda>sv.
           let rv = ucast sv; mn = 0x10000
           in if rv < mn then rfail (ErrNonCanonicalVarInt rv discriminant mn) else rreturn rv)
       else if discriminant = 0xfd then
         rbind (Uint16 LittleEndian) (\<lambda>sv.
           let rv = ucast sv; mn = 0xfd
           in if rv < mn then rfail (ErrNonCanonicalVarInt rv discriminant mn) else rreturn rv)
       else rreturn (ucast discriminant))"

definition WriteVarInt :: "u64 \<Rightarrow> bytes" where
  "WriteVarInt val =
     (if val < 0xfd then PutUint8 (ucast val)
      else if val \<le> 0xffff then PutUint8 0xfd @ PutUint16 LittleEndian (ucast val)
      else if val \<le> 0xffffffff then PutUint8 0xfe @ PutUint32 LittleEndian (ucast val)
      else PutUint8 0xff @ PutUint64 LittleEndian val)"

definition VarIntSerializeSize :: "u64 \<Rightarrow> nat" where
  "VarIntSerializeSize val =
     (if val < 0xfd then 1 else if val \<le> 0xffff then 3 else if val \<le> 0xffffffff then 5 else 9)"

subsection \<open>Variable length strings and byte arrays\<close>

definition MaxMessagePayload :: nat where
  "MaxMessagePayload = 1024 * 1024 * 32"

definition ReadVarString :: "bytes reader" where
  "ReadVarString =
     rbind ReadVarInt (\<lambda>count.
       if unat count > MaxMessagePayload
       then rfail (ErrTooLong ''ReadVarString'' count MaxMessagePayload)
       else rbind (read_full (unat count)) (\<lambda>buf. rreturn buf))"

definition WriteVarString :: "bytes \<Rightarrow> bytes" where
  "WriteVarString str = WriteVarInt (of_nat (length str)) @ str"

definition ReadVarBytes :: "u32 \<Rightarrow> bytes reader" where
  "ReadVarBytes maxAllowed =
     rbind ReadVarInt (\<lambda>count.
       if count > ucast maxAllowed
       then rfail (ErrTooLong ''ReadVarBytes'' count (unat maxAllowed))
       else rbind (read_full (unat count)) (\<lambda>b. rreturn b))"

definition WriteVarBytes :: "bytes \<Rightarrow> bytes" where
  "WriteVarBytes bs = (let slen = of_nat (length bs) in WriteVarInt slen @ bs)"

section \<open>Codecs\<close>

text \<open>
  What the wire format promises of a pair of a writer and a reader: reading back what was written
  gives the value and leaves the rest of the stream untouched (\<open>dec_enc\<close>); and a reader that
  succeeds has consumed exactly the encoding of its result (\<open>enc_dec\<close>), so no value has two
  accepted encodings. Readers that ignore short reads satisfy the first law only.
\<close>

locale decoder =
  fixes enc :: "'a \<Rightarrow> bytes" and dec :: "'a reader" and valid :: "'a \<Rightarrow> bool"
  assumes dec_enc: "valid a \<Longrightarrow> dec (enc a @ r) = (Inr a, r)"
begin

lemma enc_prefix_free:
  assumes "valid a" "valid b" "enc a @ r = enc b @ s"
  shows "a = b \<and> r = s"
proof -
  have "(Inr a, r) = (Inr b :: wire_error + 'a, s)"
    using dec_enc [OF assms(1), of r] dec_enc [OF assms(2), of s] assms(3) by metis
  then show ?thesis by blast
qed

lemma enc_inj: "valid a \<Longrightarrow> valid b \<Longrightarrow> enc a = enc b \<Longrightarrow> a = b"
  using enc_prefix_free [of a b "[]" "[]"] by simp

end

locale codec = decoder +
  assumes enc_dec: "dec bs = (Inr a, r) \<Longrightarrow> valid a \<and> bs = enc a @ r"
begin

lemma dec_iff: "dec bs = (Inr a, r) \<longleftrightarrow> valid a \<and> bs = enc a @ r"
  using dec_enc enc_dec by blast

lemma dec_canonical:
  assumes "dec bs = (Inr a, r)" "dec bs' = (Inr a, r')" "r = r'"
  shows "bs = bs'"
  using enc_dec [OF assms(1)] enc_dec [OF assms(2)] assms(3) by metis

end

text \<open>Sequences: \<open>n\<close> values of one codec, one after the other.\<close>

fun read_many :: "'a reader \<Rightarrow> nat \<Rightarrow> 'a list reader" where
  "read_many d 0 = rreturn []"
| "read_many d (Suc n) = rbind d (\<lambda>a. rbind (read_many d n) (\<lambda>as. rreturn (a # as)))"

context decoder
begin

lemma read_many_enc:
  "list_all valid as \<Longrightarrow> read_many dec (length as) (concat (map enc as) @ r) = (Inr as, r)"
  by (induction as) (auto simp: rbind_def rreturn_def dec_enc)

end

section \<open>The primitives are codecs\<close>

lemma read_full_Inr [zent_io]:
  "read_full n bs = (Inr b, r) \<longleftrightarrow> bs = b @ r \<and> length b = n"
  by (auto simp: read_full_def append_eq_conv_conj)

lemma read_full_append [simp]: "length b = n \<Longrightarrow> read_full n (b @ r) = (Inr b, r)"
  by (simp add: read_full_Inr)

lemma read_fill_append [simp]: "length b = n \<Longrightarrow> read_fill n (b @ r) = (b, r)"
  by (simp add: read_fill_def)

lemma rbind_Inr [zent_io]:
  "rbind m f bs = (Inr b, r) \<longleftrightarrow> (\<exists>a s. m bs = (Inr a, s) \<and> f a s = (Inr b, r))"
  by (auto simp: rbind_def split: prod.splits sum.splits)

lemma rbind_step [simp]: "m bs = (Inr a, s) \<Longrightarrow> rbind m f bs = f a s"
  by (simp add: rbind_def)

lemma rreturn_Inr [zent_io]: "rreturn a bs = (Inr b, r) \<longleftrightarrow> a = b \<and> bs = r"
  by (simp add: rreturn_def)

lemma rfail_Inr [zent_io]: "rfail e bs \<noteq> (Inr b, r)"
  by (simp add: rfail_def)

lemma get_put_word [simp]:
  fixes w :: "'a::len word"
  assumes "LENGTH('a) \<le> 8 * n"
  shows "get_word ord (put_word ord n w) = w"
  using assms by (cases ord) simp_all

lemma put_get_word [simp]:
  assumes "8 * length bs \<le> LENGTH('a::len)" "n = length bs"
  shows "put_word ord n (get_word ord bs :: 'a word) = bs"
  using assms by (cases ord) simp_all

lemma length_put_word [simp]: "length (put_word ord n w) = n"
  by (cases ord) simp_all

lemma Uint8_Inr [zent_io]: "Uint8 bs = (Inr v, r) \<longleftrightarrow> bs = PutUint8 v @ r"
  by (auto simp: Uint8_def PutUint8_def zent_io length_Suc_conv)

lemma word_reader_Inr:
  assumes "8 * n = LENGTH('a::len)"
  shows "rbind (read_full n) (\<lambda>b. rreturn (get_word ord b :: 'a word)) bs = (Inr v, r)
    \<longleftrightarrow> bs = put_word ord n v @ r"
proof
  assume "rbind (read_full n) (\<lambda>b. rreturn (get_word ord b :: 'a word)) bs = (Inr v, r)"
  then obtain b where b: "bs = b @ r" "length b = n" "get_word ord b = v"
    by (auto simp: zent_io)
  have "put_word ord n (get_word ord b :: 'a word) = b"
    by (rule put_get_word) (use assms b in simp_all)
  with b show "bs = put_word ord n v @ r" by simp
next
  assume "bs = put_word ord n v @ r"
  then show "rbind (read_full n) (\<lambda>b. rreturn (get_word ord b :: 'a word)) bs = (Inr v, r)"
    using assms by (auto simp: zent_io)
qed

lemma Uint16_Inr [zent_io]: "Uint16 ord bs = (Inr v, r) \<longleftrightarrow> bs = PutUint16 ord v @ r"
  unfolding Uint16_def PutUint16_def by (rule word_reader_Inr) simp

lemma Uint32_Inr [zent_io]: "Uint32 ord bs = (Inr v, r) \<longleftrightarrow> bs = PutUint32 ord v @ r"
  unfolding Uint32_def PutUint32_def by (rule word_reader_Inr) simp

lemma Uint64_Inr [zent_io]: "Uint64 ord bs = (Inr v, r) \<longleftrightarrow> bs = PutUint64 ord v @ r"
  unfolding Uint64_def PutUint64_def by (rule word_reader_Inr) simp

interpretation u8c: codec PutUint8 Uint8 "\<lambda>_. True"
  by unfold_locales (simp_all add: Uint8_Inr)

interpretation u16c: codec "PutUint16 ord" "Uint16 ord" "\<lambda>_. True"
  by unfold_locales (simp_all add: Uint16_Inr)

interpretation u32c: codec "PutUint32 ord" "Uint32 ord" "\<lambda>_. True"
  by unfold_locales (simp_all add: Uint32_Inr)

interpretation u64c: codec "PutUint64 ord" "Uint64 ord" "\<lambda>_. True"
  by unfold_locales (simp_all add: Uint64_Inr)

lemmas put_get [simp] =
  u8c.dec_enc [OF TrueI] u16c.dec_enc [OF TrueI] u32c.dec_enc [OF TrueI] u64c.dec_enc [OF TrueI]

subsection \<open>Variable length integers\<close>

lemma ucast_ucast_small:
  fixes w :: u64
  assumes "uint w < 2 ^ LENGTH('b::len)"
  shows "ucast (ucast w :: 'b word) = w"
proof (rule word_uint_eqI)
  have "uint (ucast (ucast w :: 'b word) :: u64) = take_bit LENGTH('b) (uint w)"
    by (simp add: unsigned_ucast_eq unsigned_take_bit_eq)
  then show "uint (ucast (ucast w :: 'b word) :: u64) = uint w"
    using assms by (simp add: take_bit_int_eq_self)
qed

lemmas varint_cmp = word_less_alt word_le_def

lemma WriteVarInt_cases:
  obtains (b1) d where "v = ucast (d::u8)" "d \<noteq> 0xff" "d \<noteq> 0xfe" "d \<noteq> 0xfd"
      "WriteVarInt v = PutUint8 d"
  | (b3) s where "v = ucast (s::u16)" "\<not> v < 0xfd" "WriteVarInt v = PutUint8 0xfd @ PutUint16 LittleEndian s"
  | (b5) s where "v = ucast (s::u32)" "\<not> v < 0x10000" "WriteVarInt v = PutUint8 0xfe @ PutUint32 LittleEndian s"
  | (b9) "\<not> v < 0x100000000" "WriteVarInt v = PutUint8 0xff @ PutUint64 LittleEndian v"
proof -
  consider "v < 0xfd" | "0xfd \<le> v" "v \<le> 0xffff" | "0x10000 \<le> v" "v \<le> 0xffffffff"
    | "0x100000000 \<le> v"
    by atomize_elim (simp add: varint_cmp, linarith)
  then show thesis
  proof cases
    case 1
    let ?d = "ucast v :: u8"
    have v: "v = ucast ?d" using 1 by (subst ucast_ucast_small) (auto simp: varint_cmp)
    have "?d \<noteq> 0xff" "?d \<noteq> 0xfe" "?d \<noteq> 0xfd"
      using 1 v by (auto simp: varint_cmp)
    with v 1 show ?thesis by (intro b1 [of ?d]) (auto simp: WriteVarInt_def)
  next
    case 2
    let ?s = "ucast v :: u16"
    have "v = ucast ?s" using 2 by (subst ucast_ucast_small) (auto simp: varint_cmp)
    with 2 show ?thesis by (intro b3 [of ?s]) (auto simp: WriteVarInt_def varint_cmp)
  next
    case 3
    let ?s = "ucast v :: u32"
    have "v = ucast ?s" using 3 by (subst ucast_ucast_small) (auto simp: varint_cmp)
    with 3 show ?thesis by (intro b5 [of ?s]) (auto simp: WriteVarInt_def varint_cmp)
  next
    case 4
    then show ?thesis by (intro b9) (auto simp: WriteVarInt_def varint_cmp)
  qed
qed

lemma ReadVarInt_WriteVarInt [simp]: "ReadVarInt (WriteVarInt v @ r) = (Inr v, r)"
proof (cases v rule: WriteVarInt_cases)
  case (b1 d)
  then show ?thesis by (simp add: ReadVarInt_def rreturn_def)
next
  case (b3 s)
  then show ?thesis by (simp add: ReadVarInt_def rreturn_def Let_def)
next
  case (b5 s)
  then show ?thesis by (simp add: ReadVarInt_def rreturn_def Let_def)
next
  case b9
  then show ?thesis by (simp add: ReadVarInt_def rreturn_def Let_def)
qed

lemma ReadVarInt_Inr_cases:
  assumes "ReadVarInt bs = (Inr v, r)"
  obtains (b1) d where "v = ucast (d::u8)" "d \<noteq> 0xff" "d \<noteq> 0xfe" "d \<noteq> 0xfd" "bs = PutUint8 d @ r"
  | (b3) s where "v = ucast (s::u16)" "\<not> v < 0xfd" "bs = PutUint8 0xfd @ PutUint16 LittleEndian s @ r"
  | (b5) s where "v = ucast (s::u32)" "\<not> v < 0x10000" "bs = PutUint8 0xfe @ PutUint32 LittleEndian s @ r"
  | (b9) "\<not> v < 0x100000000" "bs = PutUint8 0xff @ PutUint64 LittleEndian v @ r"
  using assms
  by (auto simp: ReadVarInt_def Let_def zent_io split: if_splits)

lemma ReadVarInt_canonical:
  assumes "ReadVarInt bs = (Inr v, r)"
  shows "bs = WriteVarInt v @ r"
  using assms
proof (cases rule: ReadVarInt_Inr_cases)
  case (b1 d)
  have "uint d \<noteq> 0xff" "uint d \<noteq> 0xfe" "uint d \<noteq> 0xfd"
    using b1 by (auto simp: word_uint_eq_iff)
  moreover have "uint d < 256" using uint_lt2p [of d] by simp
  ultimately have "v < 0xfd" using b1 by (simp add: varint_cmp uint_ucast_up)
  with b1 show ?thesis by (simp add: WriteVarInt_def ucast_ucast_up)
next
  case (b3 s)
  have "uint s < 65536" using uint_lt2p [of s] by simp
  with b3 have "v \<le> 0xffff" by (simp add: varint_cmp uint_ucast_up)
  with b3 show ?thesis by (simp add: WriteVarInt_def ucast_ucast_up)
next
  case (b5 s)
  have "uint s < 4294967296" using uint_lt2p [of s] by simp
  with b5 have "v \<le> 0xffffffff" "\<not> v \<le> 0xffff" "\<not> v < 0xfd"
    by (simp_all add: varint_cmp uint_ucast_up)
  with b5 show ?thesis by (simp add: WriteVarInt_def ucast_ucast_up)
next
  case b9
  then have "\<not> v \<le> 0xffffffff" "\<not> v \<le> 0xffff" "\<not> v < 0xfd" by (simp_all add: varint_cmp)
  with b9 show ?thesis by (simp add: WriteVarInt_def)
qed

interpretation varint: codec WriteVarInt ReadVarInt "\<lambda>_. True"
  by unfold_locales (simp_all add: ReadVarInt_canonical)

lemma length_Put [simp]:
  "length (PutUint8 a) = 1" "length (PutUint16 ord b) = 2"
  "length (PutUint32 ord c) = 4" "length (PutUint64 ord d) = 8"
  by (simp_all add: PutUint8_def PutUint16_def PutUint32_def PutUint64_def)

lemma length_WriteVarInt: "length (WriteVarInt v) = VarIntSerializeSize v"
  by (simp add: WriteVarInt_def VarIntSerializeSize_def)

text \<open>
  C1: A variable length integer has exactly one accepted encoding. \<open>ReadVarInt\<close> succeeds with \<open>v\<close>
  and leaves \<open>r\<close> unread if and only if the stream is the bytes \<open>WriteVarInt\<close> writes for \<open>v\<close>
  followed by \<open>r\<close>; in particular every longer (non-canonical) encoding is rejected. The number of
  bytes written is the one \<open>VarIntSerializeSize\<close> announces.
\<close>

theorem varint_unique:
  "(ReadVarInt bs = (Inr v, r) \<longleftrightarrow> bs = WriteVarInt v @ r)
   \<and> length (WriteVarInt v) = VarIntSerializeSize v"
  using varint.dec_iff [of bs v r] by (simp add: length_WriteVarInt)

subsection \<open>Byte arrays and strings\<close>

text \<open>
  A length-prefixed reader with an upper bound on the announced length, as both \<open>ReadVarBytes\<close> and
  \<open>ReadVarString\<close> have it.
\<close>

lemma length_prefixed_Inr:
  assumes bnd: "\<And>c::u64. ok c \<longleftrightarrow> unat c \<le> m" and m: "m < 2 ^ 64"
  shows "rbind ReadVarInt (\<lambda>c. if ok c then rbind (read_full (unat c)) rreturn else rfail (e c)) bs
      = (Inr b, r)
    \<longleftrightarrow> bs = (WriteVarInt (of_nat (length b)) @ b) @ r \<and> length b \<le> m" (is "?L \<longleftrightarrow> ?R")
proof
  assume ?L
  then obtain c s where c: "ReadVarInt bs = (Inr c, s)" "ok c" "s = b @ r" "length b = unat c"
    by (auto simp: zent_io split: if_splits)
  then show ?R using bnd [of c] ReadVarInt_canonical [OF c(1)] by simp
next
  assume R: ?R
  then have "unat (of_nat (length b) :: u64) = length b"
    using m by (intro unat_of_nat_small) simp
  with R bnd [of "of_nat (length b)"] show ?L
    by (simp add: rreturn_def)
qed

lemma ReadVarBytes_Inr:
  "ReadVarBytes mx bs = (Inr b, r) \<longleftrightarrow> bs = WriteVarBytes b @ r \<and> length b \<le> unat mx"
proof -
  have "c \<le> ucast mx \<longleftrightarrow> unat c \<le> unat mx" for c :: u64
    by (simp add: word_le_nat_alt unat_ucast_up)
  moreover have "unat mx < 2 ^ 64" using unsigned_less [of mx, where ?'a = nat] by simp
  ultimately have "rbind ReadVarInt (\<lambda>c. if c \<le> ucast mx then rbind (read_full (unat c)) rreturn
        else rfail (ErrTooLong ''ReadVarBytes'' c (unat mx))) bs = (Inr b, r)
      \<longleftrightarrow> bs = (WriteVarInt (of_nat (length b)) @ b) @ r \<and> length b \<le> unat mx"
    by (rule length_prefixed_Inr)
  moreover have "ReadVarBytes mx = rbind ReadVarInt (\<lambda>c. if c \<le> ucast mx
      then rbind (read_full (unat c)) rreturn
      else rfail (ErrTooLong ''ReadVarBytes'' c (unat mx)))"
    unfolding ReadVarBytes_def by (intro arg_cong [where f = "rbind ReadVarInt"] ext) auto
  ultimately show ?thesis by (simp add: WriteVarBytes_def Let_def)
qed

lemma ReadVarString_Inr:
  "ReadVarString bs = (Inr b, r) \<longleftrightarrow> bs = WriteVarString b @ r \<and> length b \<le> MaxMessagePayload"
proof -
  have "rbind ReadVarInt (\<lambda>c. if unat c \<le> MaxMessagePayload then rbind (read_full (unat c)) rreturn
        else rfail (ErrTooLong ''ReadVarString'' c MaxMessagePayload)) bs = (Inr b, r)
      \<longleftrightarrow> bs = (WriteVarInt (of_nat (length b)) @ b) @ r \<and> length b \<le> MaxMessagePayload"
    by (rule length_prefixed_Inr) (simp_all add: MaxMessagePayload_def)
  moreover have "ReadVarString = rbind ReadVarInt (\<lambda>c. if unat c \<le> MaxMessagePayload
      then rbind (read_full (unat c)) rreturn
      else rfail (ErrTooLong ''ReadVarString'' c MaxMessagePayload))"
    unfolding ReadVarString_def by (intro arg_cong [where f = "rbind ReadVarInt"] ext) auto
  ultimately show ?thesis by (simp add: WriteVarString_def)
qed

text \<open>
  Length-prefixed byte arrays: \<open>ReadVarBytes\<close> with the limit \<open>mx\<close> accepts exactly the streams
  that start with \<open>WriteVarBytes b\<close> for a \<open>b\<close> of at most \<open>mx\<close> bytes, and returns that \<open>b\<close> and the
  rest. An array over the limit, a short stream and a non-canonical length are all errors. The
  same holds for \<open>ReadVarString\<close> with the message size limit.
\<close>

theorem varbytes_exact:
  "(ReadVarBytes mx bs = (Inr b, r) \<longleftrightarrow> bs = WriteVarBytes b @ r \<and> length b \<le> unat mx)
   \<and> (ReadVarString bs = (Inr b, r) \<longleftrightarrow> bs = WriteVarString b @ r \<and> length b \<le> MaxMessagePayload)"
  by (simp add: ReadVarBytes_Inr ReadVarString_Inr)

subsection \<open>Elements\<close>

fun elem_ty_of :: "element \<Rightarrow> elem_ty" where
  "elem_ty_of (EInt32 _) = TInt32" | "elem_ty_of (EUint32 _) = TUint32"
| "elem_ty_of (EUint8 _) = TUint8" | "elem_ty_of (EInt64 _) = TInt64"
| "elem_ty_of (EUint64 _) = TUint64" | "elem_ty_of (EBool _) = TBool"
| "elem_ty_of (EUint32Time _) = TUint32Time" | "elem_ty_of (EInt64Time _) = TInt64Time"
| "elem_ty_of (EChecksum _) = TChecksum" | "elem_ty_of (ECommand _) = TCommand"
| "elem_ty_of (EIP _) = TIP" | "elem_ty_of (EHash _) = THash"
| "elem_ty_of (EServiceFlag _) = TServiceFlag" | "elem_ty_of (EInvType _) = TInvType"
| "elem_ty_of (EOmegaNet _) = TOmegaNet" | "elem_ty_of (EBloomUpdateType _) = TBloomUpdateType"
| "elem_ty_of (ERejectCode _) = TRejectCode"

text \<open>The fixed-size arrays of the source are byte lists here; \<open>elem_wf\<close> says their length.\<close>

fun elem_wf :: "element \<Rightarrow> bool" where
  "elem_wf (EChecksum b) = (length b = 4)"
| "elem_wf (ECommand b) = (length b = CommandSize)"
| "elem_wf (EIP b) = (length b = 16)"
| "elem_wf (EHash b) = (length b = 32)"
| "elem_wf _ = True"

lemma ReadElement_WriteElement:
  "elem_wf e \<Longrightarrow> WriteElement e = Inr b \<Longrightarrow> ReadElement (elem_ty_of e) (b @ r) = (Inr e, r)"
  by (cases e) (auto simp: rreturn_def)

lemma ReadElements_WriteElements:
  "list_all elem_wf es \<Longrightarrow> WriteElements es = Inr bs \<Longrightarrow>
   ReadElements (map elem_ty_of es) (bs @ r) = (Inr es, r)"
proof (induction es arbitrary: bs)
  case Nil
  then show ?case by (simp add: rreturn_def)
next
  case (Cons e es)
  then obtain b bs' where b: "WriteElement e = Inr b" "WriteElements es = Inr bs'" "bs = b @ bs'"
    by (auto split: sum.splits)
  then have "ReadElement (elem_ty_of e) (b @ bs' @ r) = (Inr e, bs' @ r)"
    using Cons.prems by (simp add: ReadElement_WriteElement)
  moreover have "ReadElements (map elem_ty_of es) (bs' @ r) = (Inr es, r)"
    using Cons b by simp
  ultimately show ?case using b by (simp add: rreturn_def)
qed

text \<open>
  C3: Message fields survive the wire. Whatever list of well-formed elements \<open>WriteElements\<close>
  accepts, \<open>ReadElements\<close> at the same types returns the same list and consumes exactly the bytes
  written, with any continuation of the stream.
\<close>

theorem elements_roundtrip:
  assumes "list_all elem_wf es" "WriteElements es = Inr bs"
  shows "ReadElements (map elem_ty_of es) (bs @ r) = (Inr es, r)"
  using assms by (rule ReadElements_WriteElements)

theorem elements_roundtrip_witness:
  "ReadElements [TUint32, TBool, TChecksum] ([4, 3, 2, 1, 1, 7, 8, 9, 10] @ [42])
   = (Inr [EUint32 0x01020304, EBool True, EChecksum [7, 8, 9, 10]], [42])"
proof -
  have "WriteElements [EUint32 0x01020304, EBool True, EChecksum [7, 8, 9, 10]]
    = Inr [4, 3, 2, 1, 1, 7, 8, 9, 10]"
    by (simp add: PutUint32_def PutUint8_def le_bytes_def upt_rec)
  from elements_roundtrip [OF _ this, of "[42]"] show ?thesis by simp
qed

end
