(* ===== verification/BC_Compress.thy ===== *)
theory BC_Compress
  imports Zent_Prelude
begin

text \<open>
  The storage compression of \<^verbatim>\<open>btcd/blockchain/bccompress/compress.go\<close>: variable length
  quantities (big endian groups of seven bits, with an offset that makes encodings unique) and the
  compression of amounts. All arithmetic is on 64-bit words, as in the source. A panic (an index out
  of the range of the target slice) is \<open>None\<close>.
\<close>

unbundle bit_operations_syntax

subsection \<open>Variable length quantities\<close>

lemma vlq_next_less:
  fixes n :: u64
  assumes "n > 0x7f"
  shows "unat (drop_bit 7 n - 1) < unat n"
proof -
  have n: "127 < unat n" using assms by (simp add: word_less_nat_alt)
  have d: "unat (drop_bit 7 n) = unat n div 128" by (simp add: drop_bit_eq_div unat_div)
  then have "unat (drop_bit 7 n) \<noteq> 0" using n by simp
  then have "drop_bit 7 n \<noteq> 0" by auto
  then have "unat (drop_bit 7 n - 1) = unat n div 128 - 1" using d by (simp add: unat_minus_one)
  then show ?thesis using n by simp
qed

function SerializeSizeVLQ_loop :: "u64 \<Rightarrow> nat \<Rightarrow> nat" where
  "SerializeSizeVLQ_loop n sz =
     (if n > 0x7f then SerializeSizeVLQ_loop (drop_bit 7 n - 1) (sz + 1) else sz)"
  by pat_completeness auto
termination
  by (relation "measure (\<lambda>(n, _). unat n)") (auto simp: vlq_next_less)

definition SerializeSizeVLQ :: "u64 \<Rightarrow> nat" where
  "SerializeSizeVLQ n = SerializeSizeVLQ_loop n 1"

function PutVLQ_loop :: "bytes \<Rightarrow> nat \<Rightarrow> u64 \<Rightarrow> (bytes \<times> nat) option" where
  "PutVLQ_loop target offset n =
     (if offset \<ge> length target then None
      else
        let highBitMask = (if offset = 0 then 0x00 else 0x80);
            target' = target[offset := ucast (n AND 0x7f) OR highBitMask]
        in if n \<le> 0x7f then Some (target', offset)
           else PutVLQ_loop target' (offset + 1) (drop_bit 7 n - 1))"
  by pat_completeness auto
termination
  by (relation "measure (\<lambda>(target, offset, _). length target - offset)") auto

function swap_loop :: "bytes \<Rightarrow> nat \<Rightarrow> nat \<Rightarrow> bytes" where
  "swap_loop target i j =
     (if i < j then swap_loop (target[i := target ! j, j := target ! i]) (i + 1) (j - 1) else target)"
  by pat_completeness auto
termination
  by (relation "measure (\<lambda>(_, i, j). j - i)") auto

definition PutVLQ :: "bytes \<Rightarrow> u64 \<Rightarrow> (bytes \<times> nat) option" where
  "PutVLQ target n =
     (case PutVLQ_loop target 0 n of
        None \<Rightarrow> None
      | Some (target', offset) \<Rightarrow> Some (swap_loop target' 0 offset, offset + 1))"

fun DeserializeVLQ_loop :: "u64 \<Rightarrow> nat \<Rightarrow> bytes \<Rightarrow> u64 \<times> nat" where
  "DeserializeVLQ_loop n sz [] = (n, sz)"
| "DeserializeVLQ_loop n sz (val # rest) =
     (let sz' = sz + 1;
          n' = push_bit 7 n OR ucast (val AND 0x7f)
      in if val AND 0x80 \<noteq> 0x80 then (n', sz')
         else DeserializeVLQ_loop (n' + 1) sz' rest)"

definition DeserializeVLQ :: "bytes \<Rightarrow> u64 \<times> nat" where
  "DeserializeVLQ serialized = DeserializeVLQ_loop 0 0 serialized"

subsection \<open>Amounts\<close>

function strip_zeros :: "u64 \<Rightarrow> u64 \<Rightarrow> u64 \<times> u64" where
  "strip_zeros amount exponent =
     (if amount mod 10 = 0 \<and> exponent < 9 then strip_zeros (amount div 10) (exponent + 1)
      else (amount, exponent))"
  by pat_completeness auto
termination
proof (relation "measure (\<lambda>(_, e). 9 - unat e)")
  fix amount exponent :: u64
  assume "amount mod 10 = 0 \<and> exponent < 9"
  then have e: "unat exponent < 9" by (simp add: word_less_nat_alt)
  then have "unat (exponent + 1) = unat exponent + 1" by (simp add: unat_word_ariths)
  with e show "((amount div 10, exponent + 1), amount, exponent) \<in> measure (\<lambda>(_, e). 9 - unat e)"
    by simp
qed simp

definition CompressTxOutAmount :: "u64 \<Rightarrow> u64" where
  "CompressTxOutAmount amount =
     (if amount = 0 then 0
      else
        let (amount, exponent) = strip_zeros amount 0
        in if exponent < 9 then
             let lastDigit = amount mod 10; amount = amount div 10
             in 1 + 10 * (9 * amount + lastDigit - 1) + exponent
           else 10 + 10 * (amount - 1))"

fun mul10_loop :: "nat \<Rightarrow> u64 \<Rightarrow> u64" where
  "mul10_loop 0 n = n"
| "mul10_loop (Suc exponent) n = mul10_loop exponent (n * 10)"

definition DecompressTxOutAmount :: "u64 \<Rightarrow> u64" where
  "DecompressTxOutAmount amount =
     (if amount = 0 then 0
      else
        let amount = amount - 1;
            exponent = amount mod 10;
            amount = amount div 10;
            n = (if exponent < 9 then
                   let lastDigit = amount mod 9 + 1; amount = amount div 9
                   in amount * 10 + lastDigit
                 else amount + 1)
        in mul10_loop (unat exponent) n)"

section \<open>Variable length quantities: proofs\<close>

declare SerializeSizeVLQ_loop.simps [simp del] PutVLQ_loop.simps [simp del]
  swap_loop.simps [simp del] strip_zeros.simps [simp del]

text \<open>The groups of a number in the order the loop writes them (least significant first).\<close>

function vlq_groups :: "u64 \<Rightarrow> byte \<Rightarrow> bytes" where
  "vlq_groups n hb =
     (ucast (n AND 0x7f) OR hb) # (if n \<le> 0x7f then [] else vlq_groups (drop_bit 7 n - 1) 0x80)"
  by pat_completeness auto
termination
  by (relation "measure (\<lambda>(n, _). unat n)") (auto simp: vlq_next_less not_le)

declare vlq_groups.simps [simp del]

lemma size_loop: "SerializeSizeVLQ_loop n s + 1 = s + length (vlq_groups n m)"
proof (induction n s arbitrary: m rule: SerializeSizeVLQ_loop.induct)
  case (1 n s)
  then show ?case
    by (subst SerializeSizeVLQ_loop.simps, subst vlq_groups.simps) (auto simp: not_le)
qed

lemma length_vlq_groups: "length (vlq_groups n m) = SerializeSizeVLQ n"
  using size_loop [of n 1 m] by (simp add: SerializeSizeVLQ_def)

lemma PutVLQ_loop_groups:
  assumes "m = (if off = 0 then 0x00 else 0x80)"
  shows "PutVLQ_loop target off n =
    (if off + length (vlq_groups n m) \<le> length target
     then Some (take off target @ vlq_groups n m @ drop (off + length (vlq_groups n m)) target,
                off + length (vlq_groups n m) - 1)
     else None)"
  using assms
proof (induction target off n arbitrary: m rule: PutVLQ_loop.induct)
  case (1 target off n)
  let ?b = "ucast (n AND 0x7f) OR m"
  show ?case
  proof (cases "off < length target \<and> \<not> n \<le> 0x7f")
    case False
    have [simp]: "\<not> n \<le> 0x7f \<Longrightarrow> 0 < length (vlq_groups (drop_bit 7 n - 1) 0x80)"
      by (subst vlq_groups.simps) simp
    show ?thesis using False "1.prems"
      by (subst PutVLQ_loop.simps, subst (1 2 3 4) vlq_groups.simps)
        (auto simp: upd_conv_take_nth_drop Let_def)
  next
    case True
    let ?n = "drop_bit 7 n - 1 :: u64" and ?t = "target[off := ?b]"
    have IH: "PutVLQ_loop ?t (off + 1) ?n =
      (if off + 1 + length (vlq_groups ?n 0x80) \<le> length ?t
       then Some (take (off + 1) ?t @ vlq_groups ?n 0x80 @ drop (off + 1 + length (vlq_groups ?n 0x80)) ?t,
                  off + 1 + length (vlq_groups ?n 0x80) - 1)
       else None)"
      using True "1.prems" "1.IH" [OF _ refl refl, of "0x80"] by simp
    have g: "vlq_groups n m = ?b # vlq_groups ?n 0x80"
      using True by (subst vlq_groups.simps) simp
    have "PutVLQ_loop target off n = PutVLQ_loop ?t (off + 1) ?n"
      using True "1.prems" by (subst PutVLQ_loop.simps) (auto simp: Let_def)
    then show ?thesis using IH g True by (simp add: take_Suc_conv_app_nth)
  qed
qed

lemma swap_loop_rev:
  "swap_loop (as @ ms @ bs) (length as) (length as + length ms - 1) = as @ rev ms @ bs"
proof (induction ms arbitrary: as bs rule: length_induct)
  case (1 ms)
  show ?case
  proof (cases "length ms \<le> 1")
    case True
    then have "rev ms = ms" by (cases ms) auto
    moreover have "\<not> length as < length as + length ms - 1" using True by linarith
    ultimately show ?thesis by (subst swap_loop.simps) simp
  next
    case False
    then obtain x ms' where x: "ms = x # ms'" "ms' \<noteq> []" by (cases ms) auto
    then obtain ns y where ms: "ms = x # ns @ [y]" by (cases ms' rule: rev_exhaust) auto
    have "swap_loop (as @ ms @ bs) (length as) (length as + length ms - 1)
      = swap_loop ((as @ [y]) @ ns @ (x # bs)) (length (as @ [y])) (length (as @ [y]) + length ns - 1)"
      by (subst swap_loop.simps) (simp add: ms nth_append list_update_append)
    also have "\<dots> = (as @ [y]) @ rev ns @ (x # bs)"
      by (rule "1.IH" [rule_format]) (simp add: ms)
    finally show ?thesis by (simp add: ms)
  qed
qed

lemma PutVLQ_groups:
  "PutVLQ target n =
     (if SerializeSizeVLQ n \<le> length target
      then Some (rev (vlq_groups n 0) @ drop (SerializeSizeVLQ n) target, SerializeSizeVLQ n)
      else None)"
proof -
  have pos: "0 < length (vlq_groups n 0)" by (subst vlq_groups.simps) simp
  then have "swap_loop (vlq_groups n 0 @ ys) 0 (length (vlq_groups n 0) - 1) = rev (vlq_groups n 0) @ ys"
    for ys using swap_loop_rev [of "[]" "vlq_groups n 0" ys] by simp
  then show ?thesis
    using pos by (auto simp: PutVLQ_def PutVLQ_loop_groups length_vlq_groups [symmetric, of n 0])
qed

subsection \<open>Reading the groups back\<close>

lemma group_cont: "(ucast (n AND 0x7f :: u64) OR 0x80 :: byte) AND 0x80 = 0x80"
  by (rule bit_word_eqI) (auto simp: bit_and_iff bit_or_iff)

lemma group_stop: "(ucast (n AND 0x7f :: u64) :: byte) AND 0x80 \<noteq> 0x80"
proof
  assume a: "(ucast (n AND 0x7f :: u64) :: byte) AND 0x80 = 0x80"
  have "\<not> bit ((ucast (n AND 0x7f :: u64) :: byte) AND 0x80) 7"
    by (simp add: bit_and_iff bit_ucast_iff)
  moreover have "bit (0x80 :: byte) 7" by simp
  ultimately show False unfolding a by simp
qed

lemma group_value:
  "(ucast ((ucast (n AND 0x7f :: u64) OR 0x80 :: byte) AND 0x7f) :: u64) = n AND 0x7f"
  "(ucast ((ucast (n AND 0x7f :: u64) :: byte) AND 0x7f) :: u64) = n AND 0x7f"
  by (intro bit_word_eqI, auto simp: bit_and_iff bit_or_iff bit_ucast_iff bit_7f bit_80)+

lemma group_join: "push_bit 7 (drop_bit 7 n) OR (n AND 0x7f) = (n :: u64)"
  by (rule bit_word_eqI) (auto simp: bit_and_iff bit_or_iff bit_push_bit_iff bit_drop_bit_eq bit_7f)

lemma group_low:
  assumes "n \<le> 0x7f"
  shows "drop_bit 7 n = (0 :: u64)"
proof -
  have "unat n \<le> 127" using assms by (simp add: word_le_nat_alt)
  then have "unat (drop_bit 7 n) = 0" by (simp add: drop_bit_eq_div unat_div)
  then show ?thesis by (simp only: unsigned_eq_0_iff)
qed

lemma read_cont_groups:
  "DeserializeVLQ_loop 0 sz (rev (vlq_groups n 0x80) @ rest)
   = DeserializeVLQ_loop (n + 1) (sz + length (vlq_groups n 0x80)) rest"
proof (induction n "0x80 :: byte" arbitrary: rest rule: vlq_groups.induct)
  case (1 n)
  let ?b = "ucast (n AND 0x7f) OR 0x80 :: byte"
  have last: "DeserializeVLQ_loop (drop_bit 7 n) s (?b # rest) = DeserializeVLQ_loop (n + 1) (s + 1) rest" for s
    by (simp add: group_cont group_value group_join)
  show ?case
  proof (cases "n \<le> 0x7f")
    case True
    have "vlq_groups n 0x80 = [?b]" using True by (subst vlq_groups.simps) simp
    then show ?thesis using last [of sz] by (simp only: group_low [OF True]) simp
  next
    case False
    have "vlq_groups n 0x80 = ?b # vlq_groups (drop_bit 7 n - 1) 0x80"
      using False by (subst vlq_groups.simps) simp
    then show ?thesis using "1.hyps" [OF False, of "?b # rest"] last
      by (simp del: DeserializeVLQ_loop.simps)
  qed
qed

lemma DeserializeVLQ_groups:
  "DeserializeVLQ (rev (vlq_groups n 0) @ rest) = (n, SerializeSizeVLQ n)"
proof -
  let ?b = "ucast (n AND 0x7f) OR 0 :: byte"
  have last: "DeserializeVLQ_loop (drop_bit 7 n) s (?b # rest) = (n, s + 1)" for s
    by (simp only: or.right_neutral DeserializeVLQ_loop.simps Let_def group_value group_join
        group_stop not_False_eq_True simp_thms if_True)
  show ?thesis
  proof (cases "n \<le> 0x7f")
    case True
    have g: "vlq_groups n 0 = [?b]" using True by (subst vlq_groups.simps) simp
    then have "SerializeSizeVLQ n = 1" using length_vlq_groups [of n 0] by simp
    then show ?thesis using last [of 0] g by (simp add: DeserializeVLQ_def group_low [OF True])
  next
    case False
    have g: "vlq_groups n 0 = ?b # vlq_groups (drop_bit 7 n - 1) 0x80"
      using False by (subst vlq_groups.simps) simp
    then have "SerializeSizeVLQ n = Suc (length (vlq_groups (drop_bit 7 n - 1) 0x80))"
      using length_vlq_groups [of n 0] by simp
    then show ?thesis using g last read_cont_groups [of 0 "drop_bit 7 n - 1" "?b # rest"]
      by (simp add: DeserializeVLQ_def del: DeserializeVLQ_loop.simps)
  qed
qed

text \<open>
  C22: A variable length quantity round trips, and \<open>PutVLQ\<close> writes where and only where it says.
  With a target of at least \<open>SerializeSizeVLQ n\<close> bytes, \<open>PutVLQ\<close> returns that size, changes only
  that prefix of the target, and \<open>DeserializeVLQ\<close> on the result (whatever follows the prefix)
  gives back \<open>n\<close> and the same size; with a shorter target it panics.
\<close>

theorem vlq_roundtrip:
  "case PutVLQ target n of
     None \<Rightarrow> length target < SerializeSizeVLQ n
   | Some (t, sz) \<Rightarrow>
       sz = SerializeSizeVLQ n \<and> sz \<le> length target
       \<and> length t = length target \<and> drop sz t = drop sz target \<and> DeserializeVLQ t = (n, sz)"
  by (simp add: PutVLQ_groups DeserializeVLQ_groups length_vlq_groups)

section \<open>Amounts: proofs\<close>

lemma mul10_loop_eq: "mul10_loop k n = n * 10 ^ k"
  by (induction k arbitrary: n) (simp_all add: mult.assoc)

lemma unat_word_10 [simp]: "unat (10 :: u64) = 10" "unat (9 :: u64) = 9" "unat (1 :: u64) = 1"
  by simp_all

lemma strip_zeros_spec:
  assumes "strip_zeros amount e0 = (d, e)" "e0 \<le> 9"
  shows "unat amount = unat d * 10 ^ (unat e - unat e0) \<and> e0 \<le> e \<and> e \<le> 9
    \<and> (e < 9 \<longrightarrow> d mod 10 \<noteq> 0)"
  using assms
proof (induction amount e0 rule: strip_zeros.induct)
  case (1 amount e0)
  show ?case
  proof (cases "amount mod 10 = 0 \<and> e0 < 9")
    case False
    with "1.prems" show ?thesis by (subst (asm) strip_zeros.simps) auto
  next
    case True
    have lt: "unat e0 < 9" using True by (simp add: word_less_nat_alt)
    then have suc: "unat (e0 + 1) = unat e0 + 1" by (simp add: unat_word_ariths)
    have ih: "unat (amount div 10) = unat d * 10 ^ (unat e - unat (e0 + 1)) \<and> e0 + 1 \<le> e \<and> e \<le> 9
      \<and> (e < 9 \<longrightarrow> d mod 10 \<noteq> 0)"
    proof (rule "1.IH" [OF True])
      show "strip_zeros (amount div 10) (e0 + 1) = (d, e)"
        using "1.prems" True by (subst (asm) strip_zeros.simps) simp
      show "e0 + 1 \<le> 9" using lt suc by (simp add: word_le_nat_alt)
    qed
    then have le: "unat e0 + 1 \<le> unat e" using suc by (simp add: word_le_nat_alt)
    have "unat (amount mod 10) = 0" using True by simp
    then have "unat amount mod 10 = 0" by (simp add: unat_mod)
    then have "unat amount = 10 * (unat amount div 10)" by presburger
    also have "\<dots> = 10 * (unat d * 10 ^ (unat e - unat (e0 + 1)))"
      using ih by (simp add: unat_div)
    also have "\<dots> = unat d * 10 ^ (Suc (unat e - unat (e0 + 1)))" by simp
    also have "Suc (unat e - unat (e0 + 1)) = unat e - unat e0" using le suc by simp
    finally show ?thesis using ih le by (auto simp: word_le_nat_alt)
  qed
qed

lemma dec_split: "e < 10 \<Longrightarrow> (10 * k + e) div 10 = k" "e < 10 \<Longrightarrow> (10 * k + e) mod 10 = e"
  for e k :: nat
  by simp_all

lemma nine_split: "e < 9 \<Longrightarrow> (9 * k + e) div 9 = k" "e < 9 \<Longrightarrow> (9 * k + e) mod 9 = e"
  for e k :: nat
  by simp_all

lemma pack_bound:
  fixes q r e N :: nat
  assumes "9 * (10 * q + r) + (if e = 0 then 0 else 9) < N" "0 < r" "r < 10" "e < 9"
  shows "1 + 10 * (9 * q + (r - 1)) + e < N"
  using assms by (cases r) (auto split: if_splits)

text \<open>The compressed form of a digit string \<open>10 * q + r\<close> with \<open>e\<close> zeros, as a number.\<close>

lemma Decompress_pack:
  assumes x: "unat x = 1 + 10 * (9 * q + (r - 1)) + e" and "0 < r" "r < 10" "e < 9"
  shows "DecompressTxOutAmount x = of_nat ((10 * q + r) * 10 ^ e)"
proof -
  have nz: "x \<noteq> 0" using x by auto
  then have m: "unat (x - 1) = 10 * (9 * q + (r - 1)) + e" using x by (simp add: unat_minus_one)
  have d: "unat ((x - 1) div 10) = 9 * q + (r - 1)"
    unfolding unat_div m unat_word_10 using assms(4) by (intro dec_split) simp
  have e: "unat ((x - 1) mod 10) = e"
    unfolding unat_mod m unat_word_10 using assms(4) by (intro dec_split) simp
  have e': "(x - 1) mod 10 < 9" using e assms(4) by (simp add: word_less_nat_alt)
  have dq: "unat ((x - 1) div 10 div 9) = q" and dr: "unat ((x - 1) div 10 mod 9) = r - 1"
    using nine_split [of "r - 1" q] assms(2,3)
    by (simp_all only: unat_div [of "(x - 1) div 10"] unat_mod [of "(x - 1) div 10"] d unat_word_10)
  have n: "(x - 1) div 10 div 9 * 10 + ((x - 1) div 10 mod 9 + 1) = of_nat (10 * q + r)"
  proof -
    have "(x - 1) div 10 div 9 = of_nat q" by (rule word_eq_of_nat [OF dq])
    moreover have "(x - 1) div 10 mod 9 = of_nat (r - 1)" by (rule word_eq_of_nat [OF dr])
    moreover have "of_nat r = (of_nat (r - 1) + 1 :: u64)"
      using assms(2) by (cases r) simp_all
    ultimately show ?thesis by simp
  qed
  show ?thesis using nz e' n
    by (simp add: DecompressTxOutAmount_def Let_def mul10_loop_eq e)
qed

lemma Decompress_pack9:
  assumes x: "unat x = 10 * d" and "0 < d"
  shows "DecompressTxOutAmount x = of_nat (d * 10 ^ 9)"
proof -
  have nz: "x \<noteq> 0" using x assms(2) by auto
  then have m: "unat (x - 1) = 10 * (d - 1) + 9" using x assms(2) by (simp add: unat_minus_one)
  have q: "unat ((x - 1) div 10) = d - 1" and e: "unat ((x - 1) mod 10) = 9"
    using m by (simp_all add: unat_div unat_mod)
  have e': "\<not> (x - 1) mod 10 < 9" using e by (simp add: word_less_nat_alt)
  have "(x - 1) div 10 + 1 = of_nat d"
  proof -
    have "(x - 1) div 10 = of_nat (d - 1)" by (rule word_eq_of_nat [OF q])
    moreover have "of_nat d = (of_nat (d - 1) + 1 :: u64)" using assms(2) by (cases d) simp_all
    ultimately show ?thesis by simp
  qed
  then show ?thesis using nz e'
    by (simp add: DecompressTxOutAmount_def Let_def mul10_loop_eq e)
qed

lemma CompressTxOutAmount_small:
  assumes "strip_zeros amount 0 = (d, e)" "amount \<noteq> 0" "9 * unat amount < 2 ^ 64" "e < 9"
  shows "unat (CompressTxOutAmount amount) =
    1 + 10 * (9 * (unat d div 10) + (unat d mod 10 - 1)) + unat e"
proof -
  let ?q = "unat d div 10" and ?r = "unat d mod 10"
  have sp: "unat amount = unat d * 10 ^ unat e" "d mod 10 \<noteq> 0"
    using strip_zeros_spec [OF assms(1)] assms(4) by auto
  have "unat (d mod 10) \<noteq> 0" using sp(2) by (rule contrapos_nn) (simp add: unsigned_eq_0_iff)
  then have r: "0 < ?r" by (simp add: unat_mod)
  have e: "unat e < 9" using assms(4) by (simp add: word_less_nat_alt)
  have b: "9 * unat d + (if unat e = 0 then 0 else 9) < 2 ^ 64"
  proof (cases "unat e")
    case 0
    then show ?thesis using sp assms(3) by simp
  next
    case (Suc k)
    have "1 \<le> unat d" using r by (cases "unat d") auto
    have "unat d * 10 * 1 \<le> unat d * 10 * 10 ^ k" by (intro mult_le_mono2) simp
    then have "unat d * 10 \<le> unat amount" using sp(1) Suc by (simp add: mult.assoc)
    then show ?thesis using assms(3) \<open>1 \<le> unat d\<close> by simp
  qed
  have rl: "?r < 10" by simp
  have dqr: "unat d = 10 * ?q + ?r" by simp
  have lt: "1 + 10 * (9 * ?q + (?r - 1)) + unat e < 2 ^ 64"
    by (rule pack_bound [OF _ r rl e]) (simp only: dqr [symmetric] b)
  have "1 + 10 * (9 * (d div 10) + d mod 10 - 1) + e
    = of_nat (1 + 10 * (9 * ?q + (?r - 1)) + unat e)"
  proof -
    have "of_nat (?r - 1) = (d mod 10 - 1 :: u64)"
      using r by (simp add: of_nat_diff unat_mod [symmetric, of d 10, simplified])
    moreover have "of_nat ?q = d div 10" by (simp add: unat_div [symmetric, of d 10, simplified])
    ultimately show ?thesis by (simp only: of_nat_add of_nat_mult) simp
  qed
  then have "CompressTxOutAmount amount = of_nat (1 + 10 * (9 * ?q + (?r - 1)) + unat e)"
    using assms(1,2,4) by (simp add: CompressTxOutAmount_def Let_def)
  then show ?thesis using lt by (rule unat_u64_of_nat)
qed

lemma CompressTxOutAmount_nine:
  assumes "strip_zeros amount 0 = (d, e)" "amount \<noteq> 0" "\<not> e < 9"
  shows "unat (CompressTxOutAmount amount) = 10 * unat d \<and> unat amount = unat d * 10 ^ 9"
proof -
  have sp: "unat amount = unat d * 10 ^ unat e" "e = 9"
    using strip_zeros_spec [OF assms(1)] assms(3) by auto
  then have a: "unat amount = unat d * 10 ^ 9" by simp
  have "unat amount < 2 ^ 64" using unsigned_less [of amount, where ?'a = nat] by simp
  then have lt: "10 * unat d < 2 ^ 64" using a by simp
  have "CompressTxOutAmount amount = of_nat (10 * unat d)"
    using assms by (simp add: CompressTxOutAmount_def algebra_simps)
  then show ?thesis using a unat_u64_of_nat [OF _ lt] by blast
qed

text \<open>
  Amount compression is lossless for every amount up to a ninth of the 64 bit range (about
  2.05 * 10^18 satoshi or token units, about a thousand times the largest supply):
  \<open>DecompressTxOutAmount\<close> undoes \<open>CompressTxOutAmount\<close>, with no wrap-around in the
  \<open>9 * amount + lastDigit - 1\<close> of the code.
\<close>

theorem amount_roundtrip:
  assumes "9 * unat amount < 2 ^ 64"
  shows "DecompressTxOutAmount (CompressTxOutAmount amount) = amount"
proof (cases "amount = 0")
  case True
  then show ?thesis by (simp add: CompressTxOutAmount_def DecompressTxOutAmount_def)
next
  case False
  obtain d e where s: "strip_zeros amount 0 = (d, e)" by (cases "strip_zeros amount 0")
  note sp = strip_zeros_spec [OF s]
  show ?thesis
  proof (cases "e < 9")
    case True
    have nz: "unat (d mod 10) \<noteq> 0" using sp True by (auto simp: unsigned_eq_0_iff)
    have "DecompressTxOutAmount (CompressTxOutAmount amount)
      = of_nat ((10 * (unat d div 10) + unat d mod 10) * 10 ^ unat e)"
      using nz True
      by (intro Decompress_pack CompressTxOutAmount_small [OF s False assms])
        (simp_all add: unat_mod word_less_nat_alt)
    also have "\<dots> = of_nat (unat amount)" using sp by simp
    finally show ?thesis by simp
  next
    case 9: False
    have "unat d \<noteq> 0" using False CompressTxOutAmount_nine [OF s False 9]
      by (auto simp: unsigned_eq_0_iff)
    then have "DecompressTxOutAmount (CompressTxOutAmount amount) = of_nat (unat d * 10 ^ 9)"
      using CompressTxOutAmount_nine [OF s False 9] by (intro Decompress_pack9) simp_all
    also have "\<dots> = of_nat (unat amount)" using CompressTxOutAmount_nine [OF s False 9] by simp
    finally show ?thesis by simp
  qed
qed

theorem amount_roundtrip_witness:
  "9 * unat (2100000000000000 :: u64) < 2 ^ 64
   \<and> DecompressTxOutAmount (CompressTxOutAmount 2100000000000000) = 2100000000000000"
  using amount_roundtrip [of 2100000000000000] by simp

end
