(* ===== verification/Block_Index.thy ===== *)
theory Block_Index
  imports Zent_Prelude
begin

text \<open>
  Block nodes and the block index of \<^verbatim>\<open>btcd/blockchain/chainutil/blockindex.go\<close>. A node holds
  the pointer to its parent, so a node is a finite tree of its loaded ancestors; two pointers are
  the same node when the trees are equal (the hash identifies a block). The interface
  \<open>NodeData\<close> is a record of what its getters return, which the two chains extend with their
  own fields. The one field the program mutates after creation, the status, is a store of the index.
  Heights are \<open>int\<close>: every height of a node is below \<open>2 ^ 31\<close> and the code only subtracts.
\<close>

unbundle bit_operations_syntax

subsection \<open>Status flags\<close>

type_synonym BlockStatus = byte

definition StatusDataStored :: BlockStatus where "StatusDataStored = 1"
definition StatusValid :: BlockStatus where "StatusValid = 2"
definition StatusValidateFailed :: BlockStatus where "StatusValidateFailed = 4"
definition StatusInvalidAncestor :: BlockStatus where "StatusInvalidAncestor = 8"
definition StatusNone :: BlockStatus where "StatusNone = 0"

definition MedianTimeBlocks :: nat where "MedianTimeBlocks = 11"

definition HaveData :: "BlockStatus \<Rightarrow> bool" where
  "HaveData status \<longleftrightarrow> status AND StatusDataStored \<noteq> 0"

definition KnownValid :: "BlockStatus \<Rightarrow> bool" where
  "KnownValid status \<longleftrightarrow> status AND StatusValid \<noteq> 0"

definition KnownInvalid :: "BlockStatus \<Rightarrow> bool" where
  "KnownInvalid status \<longleftrightarrow> status AND (StatusValidateFailed OR StatusInvalidAncestor) \<noteq> 0"

subsection \<open>Nodes\<close>

record NodeData =
  TimeStamp :: int
  GetNonce :: int
  GetBits :: u32
  GetVersion :: u32
  GetContractExec :: u32

datatype 'd BlockNode = BlockNode
  (Parent: "'d BlockNode option") (Hash: hash) (Height: int) (Data: "'d NodeData_scheme")

fun Ancestor_loop :: "'d BlockNode option \<Rightarrow> int \<Rightarrow> 'd BlockNode option" where
  "Ancestor_loop None height = None"
| "Ancestor_loop (Some (BlockNode parent hsh ht d)) height =
     (if ht \<noteq> height then Ancestor_loop parent height else Some (BlockNode parent hsh ht d))"

definition Ancestor :: "'d BlockNode \<Rightarrow> int \<Rightarrow> 'd BlockNode option" where
  "Ancestor node height =
     (if height < 0 \<or> height > Height node then None else Ancestor_loop (Some node) height)"

definition RelativeAncestor :: "'d BlockNode \<Rightarrow> int \<Rightarrow> 'd BlockNode option" where
  "RelativeAncestor node distance = Ancestor node (Height node - distance)"

fun past_timestamps :: "nat \<Rightarrow> 'd BlockNode option \<Rightarrow> int list" where
  "past_timestamps (Suc i) (Some node) = TimeStamp (Data node) # past_timestamps i (Parent node)"
| "past_timestamps _ _ = []"

definition CalcPastMedianTime :: "'d BlockNode \<Rightarrow> int" where
  "CalcPastMedianTime node =
     (let timestamps = past_timestamps MedianTimeBlocks (Some node);
          numNodes = length timestamps
      in sort timestamps ! (numNodes div 2))"

subsection \<open>The index\<close>

text \<open>
  \<open>dirty\<close> lists the keys of the map in the order a range loop meets them; the status field of
  the nodes is \<open>status\<close>.
\<close>

record 'd BlockIndex =
  index :: "hash \<rightharpoonup> 'd BlockNode"
  dirty :: "'d BlockNode list"
  Cutoff :: u32
  Tips :: "hash \<rightharpoonup> 'd BlockNode"
  status :: "'d BlockNode \<Rightarrow> BlockStatus"

definition NewBlockIndex :: "('d BlockNode \<Rightarrow> BlockStatus) \<Rightarrow> 'd BlockIndex" where
  "NewBlockIndex st = \<lparr> index = Map.empty, dirty = [], Cutoff = 0, Tips = Map.empty, status = st \<rparr>"

fun Highest_loop :: "int \<Rightarrow> 'd BlockNode option \<Rightarrow> 'd BlockNode list \<Rightarrow> 'd BlockNode option" where
  "Highest_loop h high [] = high"
| "Highest_loop h high (node # nodes) =
     (if Height node > h then Highest_loop (Height node) (Some node) nodes
      else Highest_loop h high nodes)"

text \<open>The argument is the order in which the range loop meets the nodes of the map.\<close>

definition Highest :: "'d BlockNode list \<Rightarrow> 'd BlockNode option" where
  "Highest nodes = Highest_loop (- 1) None nodes"

definition HaveBlock :: "'d BlockIndex \<Rightarrow> hash \<Rightarrow> bool" where
  "HaveBlock bi h \<longleftrightarrow> index bi h \<noteq> None"

definition LookupNode :: "'d BlockIndex \<Rightarrow> hash \<Rightarrow> 'd BlockNode option" where
  "LookupNode bi h = index bi h"

definition untip_parent :: "'d BlockNode \<Rightarrow> (hash \<rightharpoonup> 'd BlockNode) \<Rightarrow> hash \<rightharpoonup> 'd BlockNode" where
  "untip_parent node tips =
     (case Parent node of None \<Rightarrow> tips | Some p \<Rightarrow> tips(Hash p := None))"

definition AddNodeDirect :: "'d BlockNode \<Rightarrow> 'd BlockIndex \<Rightarrow> 'd BlockIndex" where
  "AddNodeDirect node bi =
     bi\<lparr> Tips := untip_parent node (Tips bi), index := (index bi)(Hash node \<mapsto> node) \<rparr>"

definition AddNodeUL :: "'d BlockNode \<Rightarrow> 'd BlockIndex \<Rightarrow> 'd BlockIndex" where
  "AddNodeUL node bi =
     bi\<lparr> Tips := (untip_parent node (Tips bi))(Hash node \<mapsto> node),
         index := (index bi)(Hash node \<mapsto> node) \<rparr>"

definition mark_dirty :: "'d BlockNode \<Rightarrow> 'd BlockIndex \<Rightarrow> 'd BlockIndex" where
  "mark_dirty node bi = bi\<lparr> dirty := List.insert node (dirty bi) \<rparr>"

definition AddNode :: "'d BlockNode \<Rightarrow> 'd BlockIndex \<Rightarrow> 'd BlockIndex" where
  "AddNode node bi = mark_dirty node (AddNodeUL node bi)"

definition Untip :: "hash \<Rightarrow> 'd BlockIndex \<Rightarrow> 'd BlockIndex" where
  "Untip h bi = bi\<lparr> Tips := (Tips bi)(h := None) \<rparr>"

definition NodeStatus :: "'d BlockIndex \<Rightarrow> 'd BlockNode \<Rightarrow> BlockStatus" where
  "NodeStatus bi node = status bi node"

definition SetStatusFlags :: "'d BlockNode \<Rightarrow> BlockStatus \<Rightarrow> 'd BlockIndex \<Rightarrow> 'd BlockIndex" where
  "SetStatusFlags node flags bi =
     mark_dirty node (bi\<lparr> status := (status bi)(node := status bi node OR flags) \<rparr>)"

definition UnsetStatusFlags :: "'d BlockNode \<Rightarrow> BlockStatus \<Rightarrow> 'd BlockIndex \<Rightarrow> 'd BlockIndex" where
  "UnsetStatusFlags node flags bi =
     mark_dirty node (bi\<lparr> status := (status bi)(node := status bi node AND NOT flags) \<rparr>)"

text \<open>
  Writing the dirty nodes: \<open>dbStoreBlockNode\<close> is the caller's function on the state of the
  database, and the transaction of \<open>db.Update\<close> is rolled back when it fails.
\<close>

fun store_nodes ::
  "('db \<Rightarrow> 'd BlockNode \<Rightarrow> 'e + 'db) \<Rightarrow> 'd BlockNode list \<Rightarrow> 'db \<Rightarrow> 'e + 'db" where
  "store_nodes dbStoreBlockNode [] db = Inr db"
| "store_nodes dbStoreBlockNode (node # nodes) db =
     (case dbStoreBlockNode db node of
        Inl err \<Rightarrow> Inl err
      | Inr db' \<Rightarrow> store_nodes dbStoreBlockNode nodes db')"

definition FlushToDB ::
  "('db \<Rightarrow> 'd BlockNode \<Rightarrow> 'e + 'db) \<Rightarrow> 'd BlockIndex \<Rightarrow> 'db \<Rightarrow> 'e option \<times> 'd BlockIndex \<times> 'db" where
  "FlushToDB dbStoreBlockNode bi db =
     (if dirty bi = [] then (None, bi, db)
      else case store_nodes dbStoreBlockNode (dirty bi) db of
             Inl err \<Rightarrow> (Some err, bi, db)
           | Inr db' \<Rightarrow> (None, bi\<lparr> dirty := [] \<rparr>, db'))"

section \<open>Ancestry\<close>

text \<open>The node and its loaded ancestors, and what the code keeps of them: heights drop by one.\<close>

fun path :: "'d BlockNode \<Rightarrow> 'd BlockNode list" where
  "path (BlockNode None hsh ht d) = [BlockNode None hsh ht d]"
| "path (BlockNode (Some p) hsh ht d) = BlockNode (Some p) hsh ht d # path p"

fun linked :: "'d BlockNode \<Rightarrow> bool" where
  "linked (BlockNode None hsh ht d) = (0 \<le> ht)"
| "linked (BlockNode (Some p) hsh ht d) = (Height p = ht - 1 \<and> linked p)"

definition rooted :: "'d BlockNode \<Rightarrow> bool" where
  "rooted n \<longleftrightarrow> Height (last (path n)) = 0"

lemma path_not_Nil [simp]: "path n \<noteq> []" by (cases n rule: path.cases) auto
lemma path_hd [simp]: "hd (path n) = n" by (cases n rule: path.cases) auto
lemma path_0 [simp]: "path n ! 0 = n" by (cases n rule: path.cases) auto
lemma self_in_path [simp, intro]: "n \<in> set (path n)" by (cases n rule: path.cases) auto
lemma path_Parent: "Parent n = Some p \<Longrightarrow> path n = n # path p" by (cases n) auto
lemma path_no_Parent: "Parent n = None \<Longrightarrow> path n = [n]" by (cases n) auto
lemma linked_Parent: "linked n \<Longrightarrow> Parent n = Some p \<Longrightarrow> Height p = Height n - 1 \<and> linked p"
  by (cases n) auto

lemma linked_Height: "linked n \<Longrightarrow> 0 \<le> Height n"
  by (induction n rule: linked.induct) auto

lemma path_nth_Height:
  "linked n \<Longrightarrow> i < length (path n) \<Longrightarrow> Height (path n ! i) = Height n - int i"
proof (induction n arbitrary: i rule: linked.induct)
  case (2 p hsh ht d)
  then show ?case by (cases i) auto
qed simp

lemma length_path: "linked n \<Longrightarrow> length (path n) \<le> nat (Height n) + 1"
proof (induction n rule: linked.induct)
  case (2 p hsh ht d)
  then show ?case using linked_Height [of p] by auto
qed simp

lemma rooted_length: "linked n \<Longrightarrow> rooted n \<longleftrightarrow> length (path n) = nat (Height n) + 1"
  using path_nth_Height [of n "length (path n) - 1"] linked_Height [of n]
  by (auto simp: rooted_def last_conv_nth)

lemma Ancestor_loop_eq:
  "linked n \<Longrightarrow> h \<le> Height n \<Longrightarrow> Ancestor_loop (Some n) h =
     (if nat (Height n - h) < length (path n) then Some (path n ! nat (Height n - h)) else None)"
proof (induction n rule: linked.induct)
  case (2 p hsh ht d)
  show ?case
  proof (cases "ht = h")
    case False
    then have "nat (ht - h) = Suc (nat (Height p - h))" using 2 by auto
    then show ?thesis using 2 False by auto
  qed simp
qed auto

lemma Ancestor_eq:
  "linked n \<Longrightarrow> Ancestor n h =
     (if 0 \<le> h \<and> h \<le> Height n \<and> nat (Height n - h) < length (path n)
      then Some (path n ! nat (Height n - h)) else None)"
  by (simp add: Ancestor_def Ancestor_loop_eq)

lemma Ancestor_self [simp]: "linked n \<Longrightarrow> Ancestor n (Height n) = Some n"
  using linked_Height [of n] by (simp add: Ancestor_eq)

lemma path_suffix: "i < length (path n) \<Longrightarrow> path (path n ! i) = drop i (path n)"
proof (induction n arbitrary: i rule: linked.induct)
  case (2 p hsh ht d)
  then show ?case by (cases i) auto
qed simp

lemma linked_path: "linked n \<Longrightarrow> m \<in> set (path n) \<Longrightarrow> linked m"
  by (induction n rule: linked.induct) auto

lemma path_Height:
  assumes "linked n" "m \<in> set (path n)"
  shows "0 \<le> Height m \<and> Height m \<le> Height n"
proof -
  obtain i where "i < length (path n)" "m = path n ! i" using assms(2) by (auto simp: in_set_conv_nth)
  then show ?thesis
    using path_nth_Height [OF assms(1), of i] linked_Height [OF linked_path [OF assms]] by simp
qed

lemma Ancestor_in_path:
  assumes "linked n"
  shows "Ancestor n h = Some m \<longleftrightarrow> m \<in> set (path n) \<and> Height m = h"
proof
  assume "Ancestor n h = Some m"
  then have i: "h \<le> Height n" "nat (Height n - h) < length (path n)" "m = path n ! nat (Height n - h)"
    using assms by (auto simp: Ancestor_eq split: if_splits)
  then show "m \<in> set (path n) \<and> Height m = h" using path_nth_Height [OF assms i(2)] by simp
next
  assume m: "m \<in> set (path n) \<and> Height m = h"
  then obtain i where i: "i < length (path n)" "m = path n ! i" by (auto simp: in_set_conv_nth)
  then have "Height n - h = int i" using m path_nth_Height [OF assms i(1)] by simp
  moreover have "0 \<le> h" using m linked_path [OF assms] linked_Height by blast
  ultimately show "Ancestor n h = Some m" using assms i by (simp add: Ancestor_eq)
qed

lemma Ancestor_trans:
  assumes "linked n" "Ancestor n h = Some m" "k \<le> h"
  shows "Ancestor m k = Ancestor n k"
proof -
  have m: "m \<in> set (path n)" "Height m = h" and lm: "linked m"
    using assms Ancestor_in_path linked_path by blast+
  obtain i where i: "i < length (path n)" "m = path n ! i" using m(1) by (auto simp: in_set_conv_nth)
  have sub: "set (path m) \<subseteq> set (path n)"
    unfolding i(2) path_suffix [OF i(1)] by (rule set_drop_subset)
  have hi: "Height m = Height n - int i" using path_nth_Height [OF assms(1) i(1)] i(2) by simp
  have "x \<in> set (path m)" if x: "x \<in> set (path n)" "Height x = k" for x
  proof -
    obtain j where j: "j < length (path n)" "x = path n ! j" using x(1) by (auto simp: in_set_conv_nth)
    then have "i \<le> j" using path_nth_Height [OF assms(1) j(1)] x(2) hi m(2) assms(3) by simp
    then have "x = drop i (path n) ! (j - i)" "j - i < length (drop i (path n))" using i j by auto
    then show ?thesis using path_suffix [OF i(1)] i(2) by (metis nth_mem)
  qed
  then have "Ancestor m k = Some x \<longleftrightarrow> Ancestor n k = Some x" for x
    using Ancestor_in_path [OF assms(1)] Ancestor_in_path [OF lm] sub by blast
  then show ?thesis by (metis option.exhaust)
qed

text \<open>
  C19: \<open>Ancestor\<close> is exact. On a node whose heights drop by one along the parent pointers it
  returns the loaded ancestor (or the node itself) of the requested height, and nil exactly when
  there is none, in particular for negative heights and heights above the node.
\<close>

theorem ancestor_exact:
  assumes "linked n"
  shows "(case Ancestor n h of
            None \<Rightarrow> \<forall>m \<in> set (path n). Height m \<noteq> h
          | Some m \<Rightarrow> m \<in> set (path n) \<and> Height m = h \<and> (\<forall>k \<le> h. Ancestor m k = Ancestor n k))"
proof (cases "Ancestor n h")
  case None
  then show ?thesis using Ancestor_in_path [OF assms, of h] by auto
next
  case (Some m)
  then show ?thesis using Ancestor_in_path [OF assms, of h m] Ancestor_trans [OF assms Some] by simp
qed

definition sample_data :: NodeData where
  "sample_data = \<lparr> TimeStamp = 1600000000, GetNonce = 1, GetBits = 0x1d00ffff, GetVersion = 0x10000,
     GetContractExec = 0 \<rparr>"

definition sample_genesis :: "unit BlockNode" where
  "sample_genesis = BlockNode None zero_hash 0 sample_data"

definition sample_child :: "unit BlockNode" where
  "sample_child = BlockNode (Some sample_genesis) (replicate 32 1) 1 sample_data"

theorem ancestor_exact_witness:
  "linked sample_child \<and> Ancestor sample_child 0 = Some sample_genesis
   \<and> Ancestor sample_genesis 0 = Ancestor sample_child 0"
  using ancestor_exact [of sample_child 0] by (simp add: sample_child_def sample_genesis_def Ancestor_def)

section \<open>The median of the past timestamps\<close>

lemma past_timestamps_path:
  "past_timestamps k (Some n) = map (\<lambda>m. TimeStamp (Data m)) (take k (path n))"
proof (induction n arbitrary: k rule: path.induct)
  case (1 hsh ht d)
  then show ?case by (cases k) auto
next
  case (2 p hsh ht d)
  then show ?case by (cases k) auto
qed

text \<open>
  The median rule. \<open>CalcPastMedianTime\<close> returns one of the timestamps of the last (at most
  eleven) blocks; at most half of them are earlier, and fewer than half are later.
\<close>

theorem past_median:
  fixes node :: "'d BlockNode"
  defines "ts \<equiv> map (\<lambda>m. TimeStamp (Data m)) (take 11 (path node))"
  shows "CalcPastMedianTime node \<in> set ts
    \<and> 2 * length (filter (\<lambda>t. t < CalcPastMedianTime node) ts) \<le> length ts
    \<and> 2 * length (filter (\<lambda>t. CalcPastMedianTime node < t) ts) < length ts"
proof -
  have m: "CalcPastMedianTime node = sort ts ! (length ts div 2)"
    by (simp add: CalcPastMedianTime_def past_timestamps_path ts_def MedianTimeBlocks_def Let_def)
  have "ts \<noteq> []" by (simp add: ts_def)
  from median_of_sort [OF this] show ?thesis unfolding m by blast
qed

section \<open>The index after adding nodes\<close>

fun parents_first :: "'d BlockNode list \<Rightarrow> 'd BlockNode list \<Rightarrow> bool" where
  "parents_first seen [] = True"
| "parents_first seen (n # ns) =
     (Hash n \<notin> Hash ` set seen
      \<and> (case Parent n of None \<Rightarrow> True | Some p \<Rightarrow> p \<in> set seen)
      \<and> parents_first (seen @ [n]) ns)"

lemma parents_first_append:
  "parents_first seen (xs @ ys) \<longleftrightarrow> parents_first seen xs \<and> parents_first (seen @ xs) ys"
  by (induction seen xs rule: parents_first.induct) auto

lemma parents_first_closed:
  "parents_first seen ns \<Longrightarrow> c \<in> set ns \<Longrightarrow> Parent c = Some p \<Longrightarrow> p \<in> set seen \<union> set ns"
  by (induction seen ns rule: parents_first.induct) auto

lemma parents_first_distinct:
  "parents_first seen ns \<Longrightarrow> inj_on Hash (set seen) \<Longrightarrow> inj_on Hash (set seen \<union> set ns)"
proof (induction seen ns rule: parents_first.induct)
  case (2 seen n ns)
  then have "inj_on Hash (set (seen @ [n]))" by auto
  then show ?case using 2 by (simp add: insert_commute)
qed simp

definition add_all :: "('d BlockNode \<Rightarrow> BlockStatus) \<Rightarrow> 'd BlockNode list \<Rightarrow> 'd BlockIndex" where
  "add_all st ns = fold AddNode ns (NewBlockIndex st)"

lemma add_all_snoc: "add_all st (ns @ [n]) = AddNode n (add_all st ns)"
  by (simp add: add_all_def)

lemma AddNode_simps [simp]:
  "index (AddNode n bi) = (index bi)(Hash n \<mapsto> n)"
  "dirty (AddNode n bi) = List.insert n (dirty bi)"
  "Tips (AddNode n bi) = (untip_parent n (Tips bi))(Hash n \<mapsto> n)"
  by (simp_all add: AddNode_def mark_dirty_def AddNodeUL_def)

text \<open>
  C36: The index keeps the tips of all branches. When nodes are added parents first and with fresh
  hashes, a lookup finds exactly the added nodes, \<open>Tips\<close> holds exactly the added nodes that are
  nobody's parent, and all of them wait to be flushed.
\<close>

theorem index_tips:
  assumes "parents_first [] ns"
  shows "(\<forall>h n. LookupNode (add_all st ns) h = Some n \<longleftrightarrow> n \<in> set ns \<and> Hash n = h)
    \<and> (\<forall>h n. Tips (add_all st ns) h = Some n
         \<longleftrightarrow> n \<in> set ns \<and> Hash n = h \<and> (\<forall>c \<in> set ns. Parent c \<noteq> Some n))
    \<and> set (dirty (add_all st ns)) = set ns"
  using assms
proof (induction ns rule: rev_induct)
  case Nil
  then show ?case by (simp add: add_all_def NewBlockIndex_def LookupNode_def)
next
  case (snoc n ns)
  then have pf: "parents_first [] ns" and fresh: "Hash n \<notin> Hash ` set ns"
    and par: "\<And>p. Parent n = Some p \<Longrightarrow> p \<in> set ns"
    by (auto simp: parents_first_append)
  have inj: "inj_on Hash (set ns)" using parents_first_distinct [OF pf] by simp
  have fr: "m \<in> set ns \<Longrightarrow> Hash m \<noteq> Hash n" for m using fresh by (metis imageI)
  have noc: "c \<in> set ns \<Longrightarrow> Parent c \<noteq> Some n" for c
    using parents_first_closed [OF pf] fresh by force
  have self: "Parent n \<noteq> Some n" using par fresh by blast
  note IH = snoc.IH [OF pf, unfolded LookupNode_def]
  have t: "Tips (add_all st (ns @ [n])) h = Some m
    \<longleftrightarrow> m \<in> set (ns @ [n]) \<and> Hash m = h \<and> (\<forall>c \<in> set (ns @ [n]). Parent c \<noteq> Some m)" for h m
  proof (cases "h = Hash n")
    case True
    then show ?thesis using fr [of m] noc self by (auto simp: add_all_snoc)
  next
    case False
    show ?thesis
    proof (cases "Parent n")
      case None
      then show ?thesis using False IH by (auto simp: add_all_snoc untip_parent_def)
    next
      case (Some p)
      then have "p \<in> set ns" by (rule par)
      then show ?thesis using False IH Some inj
        by (auto simp: add_all_snoc untip_parent_def inj_on_def)
    qed
  qed
  have l: "LookupNode (add_all st (ns @ [n])) h = Some m \<longleftrightarrow> m \<in> set (ns @ [n]) \<and> Hash m = h" for h m
    using IH fr [of m] by (auto simp: add_all_snoc LookupNode_def)
  have "set (dirty (add_all st (ns @ [n]))) = set (ns @ [n])"
    using IH by (auto simp: add_all_snoc)
  with t l show ?case by blast
qed

theorem index_tips_witness:
  "parents_first [] [sample_genesis, sample_child]
   \<and> Tips (add_all (\<lambda>_. StatusNone) [sample_genesis, sample_child]) (replicate 32 1) = Some sample_child
   \<and> Tips (add_all (\<lambda>_. StatusNone) [sample_genesis, sample_child]) zero_hash \<noteq> Some sample_genesis"
proof -
  have p: "parents_first [] [sample_genesis, sample_child]"
    by (simp add: sample_child_def sample_genesis_def numeral_eq_Suc)
  then show ?thesis using index_tips [OF p, of "\<lambda>_. StatusNone"]
    by (auto simp: sample_child_def sample_genesis_def)
qed

end
