(* ===== verification/Chain_View.thy ===== *)
theory Chain_View
  imports Block_Index
begin

text \<open>
  The flat view of one branch of \<^verbatim>\<open>btcd/blockchain/chainutil/chainview.go\<close>. The view is the
  slice of its nodes by height; a nil pointer in it is \<open>None\<close>, and the panic of an index out of
  range or of a nil dereference is the outcome \<open>None\<close> of an operation. The mutex and the
  exported functions that only lock around the unexported one are left out.
\<close>

unbundle bit_operations_syntax

subsection \<open>Floor of the logarithm\<close>

definition log2FloorMasks :: "u32 list" where
  "log2FloorMasks = [0xffff0000, 0xff00, 0xf0, 0xc, 0x2]"

fun log2_loop :: "u32 list \<Rightarrow> u32 \<Rightarrow> byte \<Rightarrow> byte \<Rightarrow> byte" where
  "log2_loop [] n rv exponent = rv"
| "log2_loop (m # masks) n rv exponent =
     (if n AND m \<noteq> 0 then log2_loop masks (drop_bit (unat exponent) n) (rv + exponent) (drop_bit 1 exponent)
      else log2_loop masks n rv (drop_bit 1 exponent))"

definition fastLog2Floor :: "u32 \<Rightarrow> byte" where
  "fastLog2Floor n = log2_loop log2FloorMasks n 0 16"

subsection \<open>The view\<close>

record 'd ChainView =
  nodes :: "'d BlockNode option list"

definition genesis :: "'d ChainView \<Rightarrow> 'd BlockNode option" where
  "genesis c = (if length (nodes c) = 0 then None else nodes c ! 0)"

definition tip :: "'d ChainView \<Rightarrow> 'd BlockNode option" where
  "tip c = (if length (nodes c) = 0 then None else nodes c ! (length (nodes c) - 1))"

definition SetNode :: "int \<Rightarrow> 'd BlockNode option \<Rightarrow> 'd ChainView \<Rightarrow> 'd ChainView option" where
  "SetNode h node c =
     (if h < 0 \<or> h \<ge> int (length (nodes c)) then None
      else Some (c\<lparr> nodes := (nodes c)[nat h := node] \<rparr>))"

text \<open>
  Growing the slice copies or keeps the old nodes and clears the rest, whether or not the backing
  array has to be replaced; shrinking it cuts the end.
\<close>

definition resize :: "nat \<Rightarrow> 'a option list \<Rightarrow> 'a option list" where
  "resize needed ns = take needed ns @ replicate (needed - length ns) None"

text \<open>The first loop of \<open>setTip\<close>: write nodes downwards until one is already in place.\<close>

fun fill_nodes ::
  "'d BlockNode option \<Rightarrow> int \<Rightarrow> 'd BlockNode option list
   \<Rightarrow> ('d BlockNode option \<times> int \<times> 'd BlockNode option list) option" where
  "fill_nodes None h ns = Some (None, h, ns)"
| "fill_nodes (Some (BlockNode parent hsh ht d)) h ns =
     (let node = BlockNode parent hsh ht d
      in if h < 0 \<or> h \<ge> int (length ns) then None
         else if ns ! nat h = Some node then Some (Some node, h, ns)
         else fill_nodes parent (h - 1) (ns[nat h := Some node]))"

text \<open>The second loop: clear the nodes of another branch below the loaded part.\<close>

function clear_nodes :: "int \<Rightarrow> 'd BlockNode option list \<Rightarrow> 'd BlockNode option list" where
  "clear_nodes h ns =
     (if h > 0 \<and> ns ! nat h \<noteq> None then clear_nodes (h - 1) (ns[nat h := None]) else ns)"
  by pat_completeness auto
termination by (relation "measure (\<lambda>(h, _). nat h)") auto

definition setTip :: "'d BlockNode option \<Rightarrow> 'd ChainView \<Rightarrow> 'd ChainView option" where
  "setTip node c =
     (case node of
        None \<Rightarrow> Some (c\<lparr> nodes := [] \<rparr>)
      | Some n \<Rightarrow>
          let needed = Height n + 1
          in if needed < 0 then None
             else case fill_nodes (Some n) (Height n) (resize (nat needed) (nodes c)) of
                    None \<Rightarrow> None
                  | Some (n', h, ns) \<Rightarrow>
                      if h > 0 \<and> n' = None \<and> ns ! nat h \<noteq> None
                      then Some (c\<lparr> nodes := clear_nodes h ns \<rparr>)
                      else Some (c\<lparr> nodes := ns \<rparr>))"

definition NewChainView :: "'d BlockNode option \<Rightarrow> 'd ChainView option" where
  "NewChainView node = setTip node \<lparr> nodes = [] \<rparr>"

definition view_height :: "'d ChainView \<Rightarrow> int" where
  "view_height c = int (length (nodes c)) - 1"

definition NodeByHeightUL :: "'d ChainView \<Rightarrow> int \<Rightarrow> 'd BlockNode option" where
  "NodeByHeightUL c height =
     (if height < 0 \<or> height \<ge> int (length (nodes c)) then None else nodes c ! nat height)"

definition Equals :: "'d ChainView \<Rightarrow> 'd ChainView \<Rightarrow> bool" where
  "Equals c other \<longleftrightarrow> length (nodes c) = length (nodes other) \<and> tip c = tip other"

definition ContainsUL :: "'d ChainView \<Rightarrow> 'd BlockNode option \<Rightarrow> bool" where
  "ContainsUL c node \<longleftrightarrow>
     (case node of None \<Rightarrow> False | Some n \<Rightarrow> NodeByHeightUL c (Height n) = Some n)"

definition next_node :: "'d ChainView \<Rightarrow> 'd BlockNode option \<Rightarrow> 'd BlockNode option" where
  "next_node c node =
     (case node of
        None \<Rightarrow> None
      | Some n \<Rightarrow> if \<not> ContainsUL c node then None else NodeByHeightUL c (Height n + 1))"

fun fork_loop :: "'d ChainView \<Rightarrow> 'd BlockNode option \<Rightarrow> 'd BlockNode option" where
  "fork_loop c None = None"
| "fork_loop c (Some (BlockNode parent hsh ht d)) =
     (if \<not> ContainsUL c (Some (BlockNode parent hsh ht d)) then fork_loop c parent
      else Some (BlockNode parent hsh ht d))"

definition findFork :: "'d ChainView \<Rightarrow> 'd BlockNode option \<Rightarrow> 'd BlockNode option" where
  "findFork c node =
     (case node of
        None \<Rightarrow> None
      | Some n \<Rightarrow>
          let chainHeight = view_height c
          in fork_loop c (if Height n > chainHeight then Ancestor n chainHeight else node))"

subsection \<open>Locators\<close>

fun walk_down :: "'d BlockNode option \<Rightarrow> int \<Rightarrow> 'd BlockNode option" where
  "walk_down None height = None"
| "walk_down (Some (BlockNode parent hsh ht d)) height =
     (if ht > height then walk_down parent height else Some (BlockNode parent hsh ht d))"

definition maxEntries :: "int \<Rightarrow> byte" where
  "maxEntries height =
     (if height \<le> 12 then word_of_int height + 1
      else 12 + fastLog2Floor (word_of_int height - 10))"

text \<open>
  One round of the loop: the node of the next height, \<open>Some None\<close> where the loop breaks, and
  \<open>None\<close> for an index out of range.
\<close>

definition locator_node ::
  "'d ChainView \<Rightarrow> u32 \<Rightarrow> 'd BlockNode \<Rightarrow> int \<Rightarrow> 'd BlockNode option option" where
  "locator_node c cutoff node height =
     (if ContainsUL c (Some node) then
        if height < int (length (nodes c)) then Some (nodes c ! nat height) else None
      else if height \<le> sint cutoff then Some None
      else Some (walk_down (Some node) height))"

text \<open>
  The step of the loop is a power of two; the state holds its exponent \<open>k\<close>. For a height below
  \<open>2 ^ 31\<close> the steps taken before the exponent reaches 31 already exceed the height, so the
  step never overflows an \<open>int32\<close>.
\<close>

function locator_loop ::
  "'d ChainView \<Rightarrow> u32 \<Rightarrow> 'd BlockNode \<Rightarrow> int \<Rightarrow> nat \<Rightarrow> int \<Rightarrow> hash list \<Rightarrow> hash list option" where
  "locator_loop c cutoff node height k lead locator =
     (if height > 0 then
        let locator' = locator @ [Hash node]; height' = height - 2 ^ k
        in if height' \<le> 0 then Some locator'
           else case locator_node c cutoff node height' of
                  None \<Rightarrow> None
                | Some None \<Rightarrow> Some locator'
                | Some (Some node') \<Rightarrow>
                    locator_loop c cutoff node' height' (if lead \<le> 0 then k + 1 else k) (lead - 1) locator'
      else Some locator)"
  by pat_completeness auto
termination by (relation "measure (\<lambda>(_, _, _, height, _). nat height)") (auto simp: nat_less_iff)

definition blockLocator ::
  "'d ChainView \<Rightarrow> 'd BlockNode option \<Rightarrow> 'd BlockIndex \<Rightarrow> hash list option" where
  "blockLocator c node bi =
     (case (case node of None \<Rightarrow> tip c | Some n \<Rightarrow> Some n) of
        None \<Rightarrow> Some []
      | Some n \<Rightarrow>
          case locator_loop c (Cutoff bi) n (Height n) 0 10 [] of
            None \<Rightarrow> None
          | Some locator \<Rightarrow>
              (case genesis c of None \<Rightarrow> None | Some g \<Rightarrow> Some (locator @ [Hash g])))"

function LastNil :: "'d ChainView \<Rightarrow> int \<Rightarrow> int \<Rightarrow> int option" where
  "LastNil c begin_h end_h =
     (if begin_h < end_h then
        let h = (begin_h + end_h) div 2
        in if h < 0 \<or> h \<ge> int (length (nodes c)) then None
           else if nodes c ! nat h = None then LastNil c (h + 1) end_h
           else LastNil c begin_h h
      else Some end_h)"
  by pat_completeness auto
termination by (relation "measure (\<lambda>(_, b, e). nat (e - b))") auto

declare clear_nodes.simps [simp del] locator_loop.simps [simp del] LastNil.simps [simp del]

section \<open>Views that follow a branch\<close>

definition chain_of :: "'d BlockNode \<Rightarrow> 'd BlockNode option list" where
  "chain_of n = map (\<lambda>h. Ancestor n (int h)) [0..<nat (Height n) + 1]"

definition view_of :: "'d ChainView \<Rightarrow> 'd BlockNode \<Rightarrow> bool" where
  "view_of c n \<longleftrightarrow> linked n \<and> rooted n \<and> nodes c = chain_of n"

definition view_ok :: "'d ChainView \<Rightarrow> bool" where
  "view_ok c \<longleftrightarrow> nodes c = [] \<or> (\<exists>n. view_of c n)"

lemma length_chain_of [simp]: "length (chain_of n) = nat (Height n) + 1"
  by (simp add: chain_of_def)

lemma chain_of_nth: "h < nat (Height n) + 1 \<Longrightarrow> chain_of n ! h = Ancestor n (int h)"
  by (simp add: chain_of_def del: upt_Suc)

lemma rooted_Ancestor:
  assumes "linked n" "rooted n" "0 \<le> h" "h \<le> Height n"
  shows "\<exists>m. Ancestor n h = Some m \<and> Height m = h \<and> linked m \<and> rooted m \<and> m \<in> set (path n)"
proof -
  have l: "length (path n) = nat (Height n) + 1" using assms rooted_length by blast
  then obtain m where m: "Ancestor n h = Some m" using assms by (simp add: Ancestor_eq nat_less_iff)
  then have "m \<in> set (path n)" "Height m = h" "linked m"
    using Ancestor_in_path [OF assms(1)] linked_path [OF assms(1)] by auto
  moreover from this obtain i where i: "i < length (path n)" "m = path n ! i" by (auto simp: in_set_conv_nth)
  then have "last (path m) = last (path n)" by (simp add: path_suffix)
  then have "rooted m" using assms(2) by (simp add: rooted_def)
  ultimately show ?thesis using m by blast
qed

lemma view_of_nth: "view_of c n \<Longrightarrow> NodeByHeightUL c h = Ancestor n h"
  using linked_Height [of n]
  by (auto simp: view_of_def NodeByHeightUL_def chain_of_nth Ancestor_def nat_less_iff not_less)

lemma view_of_tip: "view_of c n \<Longrightarrow> tip c = Some n"
  using linked_Height [of n] by (auto simp: view_of_def tip_def chain_of_nth)

lemma view_of_height: "view_of c n \<Longrightarrow> view_height c = Height n"
  using linked_Height [of n] by (auto simp: view_of_def view_height_def)

lemma view_of_contains: "view_of c n \<Longrightarrow> ContainsUL c (Some m) \<longleftrightarrow> m \<in> set (path n)"
  using Ancestor_in_path [of n "Height m" m] by (simp add: ContainsUL_def view_of_nth) (simp add: view_of_def)

lemma Parent_Ancestor:
  assumes "linked n" "Ancestor n h = Some m" "0 < h"
  shows "Ancestor n (h - 1) = Parent m"
proof -
  have m: "m \<in> set (path n)" "Height m = h" and lm: "linked m"
    using assms Ancestor_in_path linked_path by blast+
  have "Ancestor n (h - 1) = Ancestor m (h - 1)" using Ancestor_trans [OF assms(1,2)] by simp
  also have "\<dots> = Parent m"
  proof (cases "Parent m")
    case None
    then show ?thesis using lm m(2) by (simp add: Ancestor_eq path_no_Parent)
  next
    case (Some p)
    then have "nat (Height m - (h - 1)) = 1" "path m = m # path p" "0 \<le> Height p" "Height p = h - 1"
      using linked_Parent [OF lm Some] linked_Height [of p] m(2) by (auto simp: path_Parent)
    then show ?thesis using lm Some assms(3) m(2) by (simp add: Ancestor_eq)
  qed
  finally show ?thesis .
qed

subsection \<open>Setting the tip\<close>

definition agrees_above :: "'d BlockNode \<Rightarrow> int \<Rightarrow> 'd BlockNode option list \<Rightarrow> bool" where
  "agrees_above n h ns \<longleftrightarrow>
     length ns = nat (Height n) + 1 \<and> (\<forall>i < length ns. h < int i \<longrightarrow> ns ! i = Ancestor n (int i))"

definition old_below :: "'d BlockNode option list \<Rightarrow> int \<Rightarrow> 'd BlockNode option list \<Rightarrow> bool" where
  "old_below old h ns \<longleftrightarrow> (\<forall>i < length ns. int i \<le> h \<longrightarrow> ns ! i = old ! i)"

text \<open>An old slice whose nodes are closed under ancestors.\<close>

definition closed :: "'d BlockNode option list \<Rightarrow> bool" where
  "closed old \<longleftrightarrow> (\<forall>i m. i < length old \<longrightarrow> old ! i = Some m \<longrightarrow>
      (\<forall>j \<le> i. old ! j = Ancestor m (int j)))"

lemma fill_nodes_spec:
  assumes "linked n" "rooted n" "closed old" "length old = nat (Height n) + 1"
    and "agrees_above n h ns" "old_below old h ns" "- 1 \<le> h" "h \<le> Height n" "node = Ancestor n h"
  shows "\<exists>node' h' ns'. fill_nodes node h ns = Some (node', h', ns') \<and> ns' = chain_of n
    \<and> (h' > 0 \<longrightarrow> node' \<noteq> None)"
  using assms(5-)
proof (induction node h ns rule: fill_nodes.induct)
  case (1 h ns)
  have "h = - 1"
    using rooted_Ancestor [OF assms(1,2), of h] 1 by (cases "h = - 1") auto
  then have "ns = chain_of n"
    using 1(1) by (intro nth_equalityI) (auto simp: agrees_above_def chain_of_nth)
  then show ?case using \<open>h = - 1\<close> by simp
next
  case (2 parent hsh ht d h ns)
  let ?m = "BlockNode parent hsh ht d"
  have h0: "0 \<le> h" using 2(6) by (auto simp: Ancestor_def split: if_splits)
  have len: "length ns = nat (Height n) + 1" using 2(2) by (simp add: agrees_above_def)
  have hl: "h < int (length ns)" using 2(5) len h0 by simp
  show ?case
  proof (cases "ns ! nat h = Some ?m")
    case True
    then have "old ! nat h = Some ?m" using 2(3) h0 hl by (auto simp: old_below_def)
    moreover have "nat h < length old" using assms(4) h0 hl len by linarith
    ultimately have below: "old ! j = Ancestor ?m (int j)" if "j \<le> nat h" for j
      using assms(3) that by (simp add: closed_def)
    have "ns ! j = Ancestor n (int j)" if j: "j < length ns" for j
    proof (cases "int j \<le> h")
      case True
      then have "ns ! j = old ! j" using 2(3) j by (auto simp: old_below_def)
      also have "\<dots> = Ancestor ?m (int j)" using below [of j] True h0 by simp
      also have "\<dots> = Ancestor n (int j)" using Ancestor_trans [OF assms(1) 2(6) [symmetric]] True by simp
      finally show ?thesis .
    next
      case False
      then show ?thesis using 2(2) j by (auto simp: agrees_above_def)
    qed
    then have "ns = chain_of n" using len by (intro nth_equalityI) (auto simp: chain_of_nth)
    then show ?thesis using True h0 hl by simp
  next
    case False
    have par: "parent = Ancestor n (h - 1)"
    proof (cases "h = 0")
      case True
      have m: "Height ?m = h \<and> linked ?m"
        using Ancestor_in_path [OF assms(1), of h ?m] linked_path [OF assms(1), of ?m] 2(6) by metis
      then have "parent = None" using True linked_Height by (cases parent) fastforce+
      then show ?thesis using True by (simp add: Ancestor_def)
    next
      case False
      then show ?thesis using Parent_Ancestor [OF assms(1), of h ?m] 2(6) h0 by simp
    qed
    have "agrees_above n (h - 1) (ns[nat h := Some ?m])"
      using 2(2,6) h0 hl by (auto simp: agrees_above_def nth_list_update)
    moreover have "old_below old (h - 1) (ns[nat h := Some ?m])"
      using 2(3) h0 by (auto simp: old_below_def nth_list_update)
    ultimately obtain node' h' ns' where
      "fill_nodes parent (h - 1) (ns[nat h := Some ?m]) = Some (node', h', ns') \<and> ns' = chain_of n
       \<and> (h' > 0 \<longrightarrow> node' \<noteq> None)"
      using 2(1) [OF refl _ False _ _ _ _ par] h0 hl 2(4,5) by auto
    then show ?thesis using False h0 hl by (simp add: Let_def)
  qed
qed

lemma closed_chain_of: "linked n \<Longrightarrow> closed (chain_of n)"
  unfolding closed_def by (auto simp: chain_of_nth Ancestor_trans)

lemma closed_resize:
  assumes "closed ns"
  shows "closed (resize k ns)"
  using assms unfolding closed_def resize_def by (auto simp: nth_append)

lemma length_resize [simp]: "length (resize k ns) = k"
  by (simp add: resize_def)

lemma view_ok_closed: "view_ok c \<Longrightarrow> closed (nodes c)"
  by (auto simp: view_ok_def view_of_def closed_chain_of) (simp add: closed_def)

lemma setTip_view:
  assumes "view_ok c" "linked n" "rooted n"
  shows "\<exists>c'. setTip (Some n) c = Some c' \<and> view_of c' n"
proof -
  let ?ns = "resize (nat (Height n + 1)) (nodes c)"
  have h: "0 \<le> Height n" "nat (Height n + 1) = nat (Height n) + 1"
    using linked_Height [OF assms(2)] by (auto simp: nat_add_distrib)
  have "\<exists>node' h' ns'. fill_nodes (Some n) (Height n) ?ns = Some (node', h', ns') \<and> ns' = chain_of n
    \<and> (h' > 0 \<longrightarrow> node' \<noteq> None)"
    using h assms
    by (intro fill_nodes_spec [of n ?ns] closed_resize view_ok_closed)
      (auto simp: agrees_above_def old_below_def)
  then obtain node' h' where
    "fill_nodes (Some n) (Height n) ?ns = Some (node', h', chain_of n)" "h' > 0 \<longrightarrow> node' \<noteq> None" by blast
  then show ?thesis using h assms by (auto simp: setTip_def view_of_def Let_def)
qed



subsection \<open>Forks\<close>

lemma fork_loop_spec:
  assumes "linked n"
  shows "case fork_loop c (Some n) of
      None \<Rightarrow> \<forall>m \<in> set (path n). \<not> ContainsUL c (Some m)
    | Some f \<Rightarrow> f \<in> set (path n) \<and> ContainsUL c (Some f)
        \<and> (\<forall>m \<in> set (path n). ContainsUL c (Some m) \<longrightarrow> Height m \<le> Height f)"
  using assms
proof (induction n rule: path.induct)
  case (2 p hsh ht d)
  have "Height m \<le> ht" if "m \<in> set (path p)" for m
    using path_Height [OF _ that] 2(2) by simp
  then show ?case using 2 by (auto split: option.splits)
qed auto

text \<open>
  C32: \<open>findFork\<close> returns the last common block: a block of both the view and the branch of the
  node, and the highest such block; nil exactly when the branches share no block.
\<close>

theorem findFork_last_common:
  assumes "view_of c t" "linked n"
  shows "case findFork c (Some n) of
      None \<Rightarrow> set (path n) \<inter> set (path t) = {}
    | Some f \<Rightarrow> f \<in> set (path n) \<inter> set (path t)
        \<and> (\<forall>m \<in> set (path n) \<inter> set (path t). Height m \<le> Height f)"
proof (cases "Height n > Height t")
  case False
  then have "findFork c (Some n) = fork_loop c (Some n)"
    using view_of_height [OF assms(1)] by (simp add: findFork_def Let_def)
  then show ?thesis using fork_loop_spec [OF assms(2), of c] view_of_contains [OF assms(1)]
    by (auto split: option.splits)
next
  case True
  then have f: "findFork c (Some n) = fork_loop c (Ancestor n (Height t))"
    using view_of_height [OF assms(1)] by (simp add: findFork_def Let_def)
  have lt: "linked t" using assms(1) by (simp add: view_of_def)
  have below: "m \<in> set (path t) \<Longrightarrow> 0 \<le> Height m \<and> Height m \<le> Height t" for m
    by (rule path_Height [OF lt])
  show ?thesis
  proof (cases "Ancestor n (Height t)")
    case None
    have "m \<notin> set (path n)" if "m \<in> set (path t)" for m
    proof
      assume m: "m \<in> set (path n)"
      have "length (path n) \<le> nat (Height n - Height t)"
        using None True lt linked_Height [OF lt] by (simp add: Ancestor_eq [OF assms(2)] split: if_splits)
      moreover obtain i where "i < length (path n)" "m = path n ! i"
        using m by (auto simp: in_set_conv_nth)
      ultimately show False
        using path_nth_Height [OF assms(2), of i] below [OF that] by auto
    qed
    then show ?thesis using None f by auto
  next
    case (Some a)
    have a: "a \<in> set (path n)" "Height a = Height t" and la: "linked a"
      using Some Ancestor_in_path [OF assms(2)] linked_path [OF assms(2)] by blast+
    have "m \<in> set (path n) \<inter> set (path t) \<longleftrightarrow> m \<in> set (path a) \<inter> set (path t)" for m
    proof (cases "m \<in> set (path t)")
      case True
      then have "Ancestor a (Height m) = Ancestor n (Height m)"
        using Ancestor_trans [OF assms(2) Some] below by simp
      then show ?thesis
        using Ancestor_in_path [OF assms(2), of "Height m" m] Ancestor_in_path [OF la, of "Height m" m]
        by simp
    qed simp
    then have "set (path n) \<inter> set (path t) = set (path a) \<inter> set (path t)" by blast
    then show ?thesis using fork_loop_spec [OF la, of c] view_of_contains [OF assms(1)] Some f
      by (auto split: option.splits)
  qed
qed

definition sample_fork :: "unit BlockNode" where
  "sample_fork = BlockNode (Some sample_genesis) (replicate 32 2) 1 sample_data"

theorem findFork_last_common_witness:
  "view_of \<lparr> nodes = [Some sample_genesis, Some sample_child] \<rparr> sample_child \<and> linked sample_fork
   \<and> findFork \<lparr> nodes = [Some sample_genesis, Some sample_child] \<rparr> (Some sample_fork) = Some sample_genesis"
proof -
  let ?c = "\<lparr> nodes = [Some sample_genesis, Some sample_child] \<rparr>"
  have l: "linked sample_fork"
    by (simp add: sample_genesis_def sample_fork_def)
  have v: "view_of ?c sample_child"
    by (simp add: view_of_def chain_of_def rooted_def sample_child_def sample_genesis_def Ancestor_def)
  have ne: "sample_child \<noteq> sample_fork"
    by (simp add: sample_child_def sample_fork_def list_eq_iff_nth_eq exI [of _ 0])
  have p: "path sample_child = [sample_child, sample_genesis]" "path sample_fork = [sample_fork, sample_genesis]"
    by (simp_all add: sample_child_def sample_fork_def sample_genesis_def)
  have d: "sample_genesis \<noteq> sample_fork" "sample_genesis \<noteq> sample_child"
    by (simp_all add: sample_child_def sample_fork_def sample_genesis_def)
  show ?thesis using findFork_last_common [OF v l] l v ne d unfolding p
    by (auto split: option.splits)
qed

section \<open>Locators\<close>

subsection \<open>The logarithm\<close>

lemma and_high_mask:
  fixes n :: u32
  assumes "unat n < 2 ^ k" "m = mask k AND NOT (mask e)"
  shows "n AND m = 0 \<longleftrightarrow> unat n < 2 ^ e"
proof -
  have "take_bit k (unat n) = unat n" using assms(1) by (simp add: take_bit_nat_eq_self)
  then have tk: "take_bit k n = n" by (metis unsigned_take_bit_eq word_unat_eq_iff)
  have "n AND m = take_bit k n AND NOT (mask e)"
    unfolding assms(2) take_bit_eq_mask by (simp add: and.assoc)
  also have "\<dots> = n AND NOT (mask e)" by (simp add: tk)
  finally have "n AND m = 0 \<longleftrightarrow> n AND NOT (mask e) = 0" by simp
  also have "\<dots> \<longleftrightarrow> take_bit e n = n"
    unfolding take_bit_eq_mask
    by (auto simp: bit_eq_iff bit_and_iff bit_not_iff)
  also have "\<dots> \<longleftrightarrow> unat n < 2 ^ e"
    using take_bit_nat_eq_self_iff [of e "unat n"] unsigned_take_bit_eq [of e n, where ?'a = nat]
      word_unat_eq_iff [of "take_bit e n" n] by simp
  finally show ?thesis .
qed

text \<open>
  A step of the search: while the remaining number is below \<open>2 ^ (2 * e)\<close>, testing the mask and
  shifting by \<open>e\<close> keeps the number between the powers of two.
\<close>

lemma log2_step:
  fixes n :: u32 and rv ex :: byte
  assumes x: "2 ^ unat rv * unat n \<le> x" "x < 2 ^ unat rv * (unat n + 1)" "0 < unat n" "unat n < 2 ^ (2 * e)"
    and e: "unat ex = e" "0 < e" "unat rv + e < 256"
  shows "\<not> unat n < 2 ^ e \<Longrightarrow>
      2 ^ unat (rv + ex) * unat (drop_bit e n) \<le> x \<and> x < 2 ^ unat (rv + ex) * (unat (drop_bit e n) + 1)
      \<and> 0 < unat (drop_bit e n) \<and> unat (drop_bit e n) < 2 ^ e"
proof -
  assume ge: "\<not> unat n < 2 ^ e"
  let ?q = "unat n div 2 ^ e"
  have d: "unat (drop_bit e n) = ?q" by (rule unat_drop_bit)
  have r: "unat (rv + ex) = unat rv + e" using e by (simp add: unat_word_ariths)
  have pw: "(2 :: nat) ^ (unat rv + e) * k = 2 ^ unat rv * (2 ^ e * k)" for k by (simp add: power_add)
  have "2 ^ e * ?q \<le> unat n" by simp
  then have "2 ^ unat rv * (2 ^ e * ?q) \<le> x" using x(1) by (meson le_trans mult_le_mono2)
  moreover have "unat n + 1 \<le> 2 ^ e * (?q + 1)"
    using dividend_less_times_div [of "2 ^ e" "unat n"] by simp
  then have "x < 2 ^ unat rv * (2 ^ e * (?q + 1))"
    using x(2) by (meson less_le_trans mult_le_mono2)
  moreover have "0 < ?q" using ge by (simp add: div_greater_zero_iff)
  moreover have "?q < 2 ^ e"
    using x(4) by (simp add: less_mult_imp_div_less mult_2 power_add)
  ultimately show ?thesis by (simp only: d r pw)
qed

lemma log2_loop_spec:
  fixes n :: u32
  assumes "2 ^ unat rv * unat n \<le> x" "x < 2 ^ unat rv * (unat n + 1)" "0 < unat n"
    and "unat n < 2 ^ (2 * unat ex)" "0 < unat ex" "unat rv + 2 * unat ex \<le> 32"
    and "masks = m # ms" "m = mask (2 * unat ex) AND NOT (mask (unat ex))"
    and "\<And>n' rv'. 2 ^ unat rv' * unat n' \<le> x \<Longrightarrow> x < 2 ^ unat rv' * (unat n' + 1) \<Longrightarrow> 0 < unat n'
      \<Longrightarrow> unat n' < 2 ^ unat ex \<Longrightarrow> unat rv' + unat ex \<le> 32
      \<Longrightarrow> P (log2_loop ms n' rv' (drop_bit 1 ex))"
  shows "P (log2_loop masks n rv ex)"
proof (cases "unat n < 2 ^ unat ex")
  case True
  then have "n AND m = 0" using and_high_mask [OF assms(4,8)] by simp
  then show ?thesis using assms True by simp
next
  case False
  have "n AND m \<noteq> 0" using and_high_mask [OF assms(4,8)] False by simp
  moreover have "unat (rv + ex) = unat rv + unat ex" using assms(5,6) by (simp add: unat_word_ariths)
  ultimately show ?thesis
    using log2_step [OF assms(1-4) refl assms(5) _ False] assms(6,7) assms(9) [of "rv + ex"]
    by simp
qed

lemma fastLog2Floor_bounds:
  assumes "0 < unat n"
  shows "2 ^ unat (fastLog2Floor n) \<le> unat n \<and> unat n < 2 ^ (unat (fastLog2Floor n) + 1)"
proof -
  define P where "P r \<longleftrightarrow> 2 ^ unat r \<le> unat n \<and> unat n < 2 ^ (unat r + 1)" for r :: byte
  let ?I = "\<lambda>(n' :: u32) (rv' :: byte) e. 2 ^ unat rv' * unat n' \<le> unat n
    \<and> unat n < 2 ^ unat rv' * (unat n' + 1) \<and> 0 < unat n' \<and> unat n' < 2 ^ e \<and> unat rv' + e \<le> 32"
  have n: "unat n < 2 ^ 32" using unsigned_less [of n, where ?'a = nat] by simp
  have s0: "P (log2_loop [] n' rv' 0)" if "?I n' rv' 1" for n' rv'
  proof -
    have "unat n' = 1" using that by simp
    then show ?thesis using that unfolding \<open>unat n' = 1\<close> by (simp add: P_def)
  qed
  have db: "drop_bit 1 (1 :: byte) = 0" "drop_bit 1 (2 :: byte) = 1" "drop_bit 1 (4 :: byte) = 2"
    "drop_bit 1 (8 :: byte) = 4" "drop_bit 1 (16 :: byte) = 8" by simp_all
  have s1: "P (log2_loop [2] n' rv' 1)" if "?I n' rv' 2" for n' :: u32 and rv'
    by ((rule log2_loop_spec [where P = P and x = "unat n", OF _ _ _ _ _ _ refl], unfold db);
        ((rule s0)?, (use that in \<open>auto simp: mask_eq_exp_minus_1\<close>)?))
  have s2: "P (log2_loop [0xc, 2] n' rv' 2)" if "?I n' rv' 4" for n' :: u32 and rv'
    by ((rule log2_loop_spec [where P = P and x = "unat n", OF _ _ _ _ _ _ refl], unfold db);
        ((rule s1)?, (use that in \<open>auto simp: mask_eq_exp_minus_1\<close>)?))
  have s3: "P (log2_loop [0xf0, 0xc, 2] n' rv' 4)" if "?I n' rv' 8" for n' :: u32 and rv'
    by ((rule log2_loop_spec [where P = P and x = "unat n", OF _ _ _ _ _ _ refl], unfold db);
        ((rule s2)?, (use that in \<open>auto simp: mask_eq_exp_minus_1\<close>)?))
  have s4: "P (log2_loop [0xff00, 0xf0, 0xc, 2] n' rv' 8)" if "?I n' rv' 16" for n' :: u32 and rv'
    by ((rule log2_loop_spec [where P = P and x = "unat n", OF _ _ _ _ _ _ refl], unfold db);
        ((rule s3)?, (use that in \<open>auto simp: mask_eq_exp_minus_1\<close>)?))
  have "P (log2_loop [0xffff0000, 0xff00, 0xf0, 0xc, 2] n 0 16)"
    by ((rule log2_loop_spec [where P = P and x = "unat n", OF _ _ _ _ _ _ refl], unfold db);
        ((rule s4)?, (use assms n in \<open>auto simp: mask_eq_exp_minus_1\<close>)?))
  then show ?thesis by (simp only: fastLog2Floor_def log2FloorMasks_def P_def)
qed

subsection \<open>The heights of a locator\<close>

function locator_heights :: "int \<Rightarrow> nat \<Rightarrow> int \<Rightarrow> int list" where
  "locator_heights height k lead =
     (if height > 0
      then height # locator_heights (height - 2 ^ k) (if lead \<le> 0 then k + 1 else k) (lead - 1)
      else [])"
  by pat_completeness auto
termination by (relation "measure (\<lambda>(height, _). nat height)") (auto simp: nat_less_iff)

declare locator_heights.simps [simp del]

lemma locator_heights_stop [simp]: "height \<le> 0 \<Longrightarrow> locator_heights height k lead = []"
  by (simp add: locator_heights.simps)

lemma walk_down_Ancestor:
  "linked n \<Longrightarrow> h \<le> Height n \<Longrightarrow> 0 \<le> h \<Longrightarrow> walk_down (Some n) h = Ancestor n h"
proof (induction n rule: linked.induct)
  case (2 p hsh ht d)
  show ?case
  proof (cases "ht > h")
    case True
    then show ?thesis using 2 linked_Height [of p] by (auto simp: Ancestor_def)
  next
    case False
    then have "h = ht" using 2(3) by simp
    then show ?thesis using 2 linked_Height [of p] by (simp add: Ancestor_def)
  qed
qed (auto simp: Ancestor_def)

lemma locator_node_Ancestor:
  assumes v: "view_of c t" and n: "linked n" "rooted n" and h: "Ancestor n h = Some m"
    and h': "0 < h'" "h' < h" and cut: "sint cutoff \<le> 0"
  shows "\<exists>m'. locator_node c cutoff m h' = Some (Some m') \<and> Ancestor n h' = Some m'"
proof -
  have m: "m \<in> set (path n)" "Height m = h" using h Ancestor_in_path [OF n(1)] by auto
  have lm: "linked m" using linked_path [OF n(1)] m by blast
  have a: "Ancestor m h' = Ancestor n h'" using Ancestor_trans [OF n(1) h] h' by simp
  have "h \<le> Height n" using path_Height [OF n(1) m(1)] m(2) by simp
  then obtain m' where m': "Ancestor n h' = Some m'" using rooted_Ancestor [OF n, of h'] h' by auto
  have "locator_node c cutoff m h' = Some (Some m')"
  proof (cases "ContainsUL c (Some m)")
    case True
    then have mt: "m \<in> set (path t)" using view_of_contains [OF v] by simp
    have lt: "linked t" using v by (simp add: view_of_def)
    have "Ancestor t h = Some m" using Ancestor_in_path [OF lt] mt m(2) by blast
    then have "Ancestor t h' = Some m'" using Ancestor_trans [OF lt] a m' h' by (metis order_less_imp_le)
    moreover have "h' < int (length (nodes c))"
      using path_Height [OF lt mt] m(2) h' v by (simp add: view_of_def)
    ultimately show ?thesis using True view_of_nth [OF v, of h'] h'
      by (simp add: locator_node_def NodeByHeightUL_def)
  next
    case False
    then show ?thesis using cut h' walk_down_Ancestor [OF lm, of h'] a m' m(2)
      by (simp add: locator_node_def)
  qed
  then show ?thesis using m' by blast
qed

lemma locator_loop_eq:
  assumes v: "view_of c t" and n: "linked n" "rooted n" and cut: "sint cutoff \<le> 0"
  shows "Ancestor n height = Some m \<Longrightarrow>
    locator_loop c cutoff m height k lead locator =
      Some (locator @ map (\<lambda>h. Hash (the (Ancestor n h))) (locator_heights height k lead))"
proof (induction "nat height" arbitrary: m height k lead locator rule: less_induct)
  case less
  show ?case
  proof (cases "height > 0")
    case False
    then show ?thesis by (simp add: locator_loop.simps)
  next
    case pos: True
    show ?thesis
    proof (cases "height - 2 ^ k \<le> 0")
      case True
      then show ?thesis using pos less(2) by (simp add: locator_loop.simps locator_heights.simps [of height])
    next
      case False
      obtain m' where m': "locator_node c cutoff m (height - 2 ^ k) = Some (Some m')"
        "Ancestor n (height - 2 ^ k) = Some m'"
        using locator_node_Ancestor [OF v n less(2) _ _ cut, of "height - 2 ^ k"] False by auto
      have "nat (height - 2 ^ k) < nat height" using pos by simp
      from less(1) [OF this m'(2)] show ?thesis using pos False less(2) m'
        by (simp add: locator_loop.simps [of _ _ _ height] locator_heights.simps [of height])
    qed
  qed
qed

subsection \<open>How many there are\<close>

lemma locator_heights_late:
  assumes "lead \<le> 0"
  shows "g \<le> 2 ^ k * (2 ^ length (locator_heights g k lead) - 1)
    \<and> (0 < g \<longrightarrow> 2 ^ k * (2 ^ (length (locator_heights g k lead) - 1) - 1) < g)"
  using assms
proof (induction g k lead rule: locator_heights.induct)
  case (1 g k lead)
  show ?case
  proof (cases "0 < g")
    case True
    let ?l = "length (locator_heights (g - 2 ^ k) (k + 1) (lead - 1))"
    have l: "length (locator_heights g k lead) = Suc ?l"
      using True 1(2) by (simp add: locator_heights.simps [of g])
    have IH: "g - 2 ^ k \<le> 2 ^ (k + 1) * (2 ^ ?l - 1)"
      "0 < g - 2 ^ k \<longrightarrow> 2 ^ (k + 1) * (2 ^ (?l - 1) - 1) < g - 2 ^ k"
      using 1(1) [OF True] 1(2) by simp_all
    have "2 ^ k * (2 ^ (?l) - 1) < g"
    proof (cases "0 < g - 2 ^ k")
      case pos: True
      then have "0 < ?l" by (simp add: locator_heights.simps [of "g - 2 ^ k"])
      then obtain j where "?l = Suc j" using gr0_conv_Suc by blast
      then show ?thesis using IH(2) pos by (simp add: algebra_simps)
    next
      case False
      then show ?thesis using True by simp
    qed
    then show ?thesis using IH(1) True unfolding l by (simp add: algebra_simps)
  qed simp
qed

lemma locator_heights_lead:
  "0 \<le> h \<Longrightarrow> length (locator_heights h 0 (int j)) =
     (if h \<le> int j + 1 then nat h else j + 1 + length (locator_heights (h - int j - 1) 1 (- 1)))"
proof (induction j arbitrary: h)
  case 0
  show ?case
  proof (cases "h = 0")
    case False
    then have "length (locator_heights h 0 (int 0)) = Suc (length (locator_heights (h - 1) 1 (- 1)))"
      using 0 by (subst locator_heights.simps) simp
    then show ?thesis using 0 False by (cases "h = 1") auto
  qed simp
next
  case (Suc j)
  show ?case
  proof (cases "h = 0")
    case False
    then have "length (locator_heights h 0 (int (Suc j))) = Suc (length (locator_heights (h - 1) 0 (int j)))"
      using Suc.prems by (subst locator_heights.simps) simp
    then show ?thesis using Suc.IH [of "h - 1"] Suc.prems False by auto
  qed simp
qed

lemma pow2_unique:
  assumes "(2 :: nat) ^ a \<le> x" "x < 2 ^ (a + 1)" "2 ^ b \<le> x" "x < 2 ^ (b + 1)"
  shows "a = b"
proof (rule ccontr)
  assume "a \<noteq> b"
  then consider "a + 1 \<le> b" | "b + 1 \<le> a" by linarith
  then show False
  proof cases
    case 1
    then have "(2 :: nat) ^ (a + 1) \<le> 2 ^ b" by (rule power_increasing) simp
    then show ?thesis using assms by simp
  next
    case 2
    then have "(2 :: nat) ^ (b + 1) \<le> 2 ^ a" by (rule power_increasing) simp
    then show ?thesis using assms by simp
  qed
qed

lemma locator_length:
  assumes "0 \<le> h" "h < 2 ^ 31"
  shows "length (locator_heights h 0 10) + 1 = unat (maxEntries h)"
proof (cases "h \<le> 12")
  case True
  have "unat (word_of_int h + 1 :: byte) = nat h + 1"
    using True assms(1) by (simp add: unat_word_ariths unsigned_of_int take_bit_int_eq_self nat_add_distrib)
  moreover have "h = 12 \<Longrightarrow> length (locator_heights (h - 11) 1 (- 1)) = 1"
    by (simp add: locator_heights.simps)
  ultimately show ?thesis using True assms(1) locator_heights_lead [of h 10]
    by (cases "h = 12") (auto simp: maxEntries_def)
next
  case False
  let ?w = "word_of_int h - 10 :: u32" and ?L = "length (locator_heights (h - 11) 1 (- 1))"
  have w: "unat ?w = nat (h - 10)"
  proof -
    have "?w = word_of_int (h - 10)" by simp
    then show ?thesis using False assms(2) by (simp only: unsigned_of_int) (simp add: take_bit_int_eq_self)
  qed
  have b: "h - 11 \<le> 2 * (2 ^ ?L - 1)" "2 * (2 ^ (?L - 1) - 1) < h - 11"
    using locator_heights_late [of "- 1" "h - 11" 1] False by simp_all
  have L: "0 < ?L" using False by (simp add: locator_heights.simps [of "h - 11"])
  then obtain j where j: "?L = Suc j" using gr0_conv_Suc by blast
  have "2 ^ ?L \<le> h - 10" "h - 10 < 2 ^ (?L + 1)" using b unfolding j by simp_all
  then have "2 ^ ?L \<le> unat ?w" "unat ?w < 2 ^ (?L + 1)"
    unfolding w using False by (simp_all add: nat_less_iff le_nat_iff)
  moreover have "0 < unat ?w" using w False by simp
  ultimately have eq: "unat (fastLog2Floor ?w) = ?L"
    using fastLog2Floor_bounds [of ?w] pow2_unique by blast
  have "2 ^ ?L < (2 :: int) ^ 31" using \<open>2 ^ ?L \<le> h - 10\<close> assms(2) by linarith
  then have "?L < 31" by (rule power_less_imp_less_exp [rotated]) simp
  then have "unat (12 + fastLog2Floor ?w) = 12 + ?L" using eq by (simp add: unat_word_ariths)
  then show ?thesis using False locator_heights_lead [of h 10] by (simp add: maxEntries_def)
qed

text \<open>
  C33: Block locators. For a node with all ancestors loaded (of the view or of a side chain), the
  locator lists the hashes of the node's own ancestors at the heights of the doubling schedule,
  followed by the genesis block, and its length is exactly the capacity \<open>maxEntries\<close> that the
  code computes with \<open>fastLog2Floor\<close>: the schedule of at most 43 entries never reallocates.
\<close>

theorem locator_exact:
  assumes "view_of c t" "linked n" "rooted n" "sint (Cutoff bi) \<le> 0" "Height n < 2 ^ 31"
  shows "blockLocator c (Some n) bi =
      Some (map (\<lambda>h. Hash (the (Ancestor n h))) (locator_heights (Height n) 0 10)
            @ [Hash (the (Ancestor t 0))])
    \<and> length (the (blockLocator c (Some n) bi)) = unat (maxEntries (Height n))"
proof -
  have lt: "linked t" "rooted t" using assms(1) by (auto simp: view_of_def)
  have "genesis c = NodeByHeightUL c 0"
    using assms(1) by (simp add: genesis_def NodeByHeightUL_def view_of_def)
  also have "\<dots> = Ancestor t 0" by (rule view_of_nth [OF assms(1)])
  finally have g: "genesis c = Some (the (Ancestor t 0))"
    using rooted_Ancestor [OF lt, of 0] linked_Height [OF lt(1)] by auto
  have "Ancestor n (Height n) = Some n" using assms(2) by simp
  note l = locator_loop_eq [OF assms(1-4) this]
  have "blockLocator c (Some n) bi =
      Some (map (\<lambda>h. Hash (the (Ancestor n h))) (locator_heights (Height n) 0 10)
            @ [Hash (the (Ancestor t 0))])"
    by (simp add: blockLocator_def l g)
  then show ?thesis using locator_length [OF linked_Height [OF assms(2)] assms(5)] by simp
qed

theorem locator_exact_witness:
  "view_of \<lparr> nodes = [Some sample_genesis, Some sample_child] \<rparr> sample_child
   \<and> sint (Cutoff (NewBlockIndex (\<lambda>_. StatusNone) :: unit BlockIndex)) \<le> 0
   \<and> length (the (blockLocator \<lparr> nodes = [Some sample_genesis, Some sample_child] \<rparr>
        (Some sample_fork) (NewBlockIndex (\<lambda>_. StatusNone)))) = 2"
proof -
  let ?c = "\<lparr> nodes = [Some sample_genesis, Some sample_child] \<rparr>"
  let ?bi = "NewBlockIndex (\<lambda>_. StatusNone) :: unit BlockIndex"
  have v: "view_of ?c sample_child"
    by (simp add: view_of_def chain_of_def rooted_def sample_child_def sample_genesis_def Ancestor_def)
  have f: "linked sample_fork" "rooted sample_fork" "Height sample_fork < 2 ^ 31"
    by (simp_all add: sample_fork_def sample_genesis_def rooted_def)
  have cut: "sint (Cutoff ?bi) \<le> 0" by (simp add: NewBlockIndex_def)
  have "unat (maxEntries (Height sample_fork)) = 2" by (simp add: maxEntries_def sample_fork_def)
  then show ?thesis using locator_exact [OF v f(1,2) cut f(3)] v cut by metis
qed

subsection \<open>The first loaded height\<close>

text \<open>
  \<open>LastNil\<close> finds the boundary of the loaded part. When the nodes between the bounds are
  nil first and loaded afterwards, the binary search does not panic and returns the first height in
  the range that is loaded (the end of the range if none is).
\<close>

theorem LastNil_boundary:
  assumes "0 \<le> b" "b \<le> f" "f \<le> e" "e \<le> int (length (nodes c))"
    and "\<forall>h. b \<le> h \<and> h < e \<longrightarrow> (nodes c ! nat h = None \<longleftrightarrow> h < f)"
  shows "LastNil c b e = Some f"
  using assms
proof (induction c b e rule: LastNil.induct)
  case (1 c b e)
  show ?case
  proof (cases "b < e")
    case False
    then show ?thesis using 1 by (simp add: LastNil.simps)
  next
    case True
    let ?h = "(b + e) div 2"
    have h: "b \<le> ?h" "?h < e" "0 \<le> ?h" "?h < int (length (nodes c))" using True 1 by auto
    have "nodes c ! nat ?h = None \<longleftrightarrow> ?h < f" using 1(7) h by blast
    then show ?thesis using True h 1 by (subst LastNil.simps) (auto simp: Let_def)
  qed
qed

theorem LastNil_boundary_witness:
  "LastNil \<lparr> nodes = [Some sample_genesis, None, None, Some sample_child] \<rparr> 1 4 = Some 3"
proof -
  have "h = 1 \<or> h = 2 \<or> h = 3" if "1 \<le> h" "h < 4" for h :: int using that by linarith
  then have "\<forall>h. 1 \<le> h \<and> h < 4 \<longrightarrow>
    ([Some sample_genesis, None, None, Some sample_child] ! nat h = None \<longleftrightarrow> h < 3)"
    by (force simp: numeral_eq_Suc)
  then show ?thesis
    using LastNil_boundary [of 1 3 4 "\<lparr> nodes = [Some sample_genesis, None, None, Some sample_child] \<rparr>"]
    by simp
qed

end
