(* ===== verification/Difficulty.thy ===== *)
theory Difficulty
  imports Block_Index
begin

text \<open>
  Difficulty targets of \<^verbatim>\<open>omega/minerchain/difficulty.go\<close> (the first four functions are also
  those of \<^verbatim>\<open>btcd/blockchain/difficulty.go\<close>): the compact form of targets, the work of a
  block, and the retargeting of the miner chain with its state. A \<open>big.Int\<close> is an \<open>int\<close>,
  \<open>uint32\<close> values are words. A panic is the outcome \<open>None\<close>.
\<close>

unbundle bit_operations_syntax

subsection \<open>Hashes as numbers\<close>

text \<open>\<open>SetBytes\<close> of the library: a big endian number.\<close>

definition SetBytes :: "bytes \<Rightarrow> int" where
  "SetBytes buf = foldl (\<lambda>n b. n * 256 + uint b) 0 buf"

function reverse_loop :: "bytes \<Rightarrow> nat \<Rightarrow> bytes" where
  "reverse_loop buf i =
     (let blen = length buf
      in if i < blen div 2
         then reverse_loop (buf[i := buf ! (blen - 1 - i), blen - 1 - i := buf ! i]) (i + 1)
         else buf)"
  by pat_completeness auto
termination by (relation "measure (\<lambda>(buf, i). length buf div 2 - i)") auto

definition HashToBig :: "hash \<Rightarrow> int" where
  "HashToBig h = SetBytes (reverse_loop h 0)"

subsection \<open>Compact targets\<close>

definition CompactToBig :: "u32 \<Rightarrow> int" where
  "CompactToBig compact =
     (let mantissa = compact AND 0x007fffff;
          isNegative = (compact AND 0x00800000 \<noteq> 0);
          exponent = unat (drop_bit 24 compact);
          bn = (if exponent \<le> 3 then uint (drop_bit (8 * (3 - exponent)) mantissa)
                else push_bit (8 * (exponent - 3)) (uint mantissa))
      in if isNegative then - bn else bn)"

text \<open>The number of bytes of the absolute value, \<open>len(n.Bytes())\<close>.\<close>

fun byte_len :: "nat \<Rightarrow> nat" where
  "byte_len n = (if n = 0 then 0 else byte_len (n div 256) + 1)"

declare byte_len.simps [simp del] reverse_loop.simps [simp del]

definition BigToCompact :: "int \<Rightarrow> u32" where
  "BigToCompact n =
     (if n = 0 then 0
      else
        let exponent = byte_len (nat \<bar>n\<bar>);
            mantissa = (if exponent \<le> 3
                        then push_bit (8 * (3 - exponent)) (word_of_int \<bar>n\<bar> :: u32)
                        else word_of_int \<bar>drop_bit (8 * (exponent - 3)) n\<bar>);
            (mantissa, exponent) =
              (if mantissa AND 0x00800000 \<noteq> 0 then (drop_bit 8 mantissa, exponent + 1)
               else (mantissa, exponent));
            compact = push_bit 24 (of_nat exponent) OR mantissa
        in if n < 0 then compact OR 0x00800000 else compact)"

definition CalcWork :: "u32 \<Rightarrow> int" where
  "CalcWork bits =
     (let difficultyNum = CompactToBig bits
      in if difficultyNum \<le> 0 then 0 else 2 ^ 256 div (difficultyNum + 1))"

section \<open>Proofs: hashes\<close>

lemma reverse_loop_rev:
  "length bs = length as \<Longrightarrow> reverse_loop (as @ ms @ bs) (length as) = as @ rev ms @ bs"
proof (induction ms arbitrary: as bs rule: length_induct)
  case (1 ms)
  show ?case
  proof (cases "length ms \<le> 1")
    case True
    then have "rev ms = ms" by (cases ms) auto
    moreover have "\<not> length as < length (as @ ms @ bs) div 2" using "1.prems" True by auto
    ultimately show ?thesis by (subst reverse_loop.simps) simp
  next
    case False
    then obtain x ms' where x: "ms = x # ms'" "ms' \<noteq> []" by (cases ms) auto
    then obtain ns y where ms: "ms = x # ns @ [y]" by (cases ms' rule: rev_exhaust) auto
    have lt: "length as < Suc ((length as + (length ns + length as)) div 2)" by linarith
    have "reverse_loop (as @ ms @ bs) (length as) = reverse_loop ((as @ [y]) @ ns @ (x # bs)) (length (as @ [y]))"
      using "1.prems" by (subst reverse_loop.simps) (simp add: ms nth_append list_update_append Let_def lt)
    also have "\<dots> = (as @ [y]) @ rev ns @ (x # bs)"
      using "1.IH" [rule_format, of ns "x # bs" "as @ [y]"] "1.prems" by (simp add: ms)
    finally show ?thesis by (simp add: ms)
  qed
qed

lemma SetBytes_snoc: "SetBytes (xs @ [b]) = SetBytes xs * 256 + uint b"
  by (simp add: SetBytes_def)

lemma HashToBig_Cons: "HashToBig (b # bs) = uint b + 256 * HashToBig bs"
  using reverse_loop_rev [of "[]" "[]" "b # bs"] reverse_loop_rev [of "[]" "[]" bs]
  by (simp add: HashToBig_def SetBytes_snoc)

lemma HashToBig_Nil [simp]: "HashToBig [] = 0"
  by (simp add: HashToBig_def SetBytes_def reverse_loop.simps)

lemma HashToBig_bounds: "0 \<le> HashToBig h \<and> HashToBig h < 256 ^ length h"
proof (induction h)
  case (Cons b h)
  have "0 \<le> uint b" "uint b < 256" using uint_range_size [of b] by (auto simp: word_size)
  then show ?case using Cons by (simp add: HashToBig_Cons)
qed simp

lemma HashToBig_inj:
  "length h = length h' \<Longrightarrow> HashToBig h = HashToBig h' \<Longrightarrow> h = h'"
proof (induction h h' rule: list_induct2)
  case (Cons b h b' h')
  have b: "0 \<le> uint b" "uint b < 256" "0 \<le> uint b'" "uint b' < 256"
    using uint_range_size [of b] uint_range_size [of b'] by (auto simp: word_size)
  from Cons.prems have e: "uint b + 256 * HashToBig h = uint b' + 256 * HashToBig h'"
    by (simp add: HashToBig_Cons)
  have "(uint b + 256 * HashToBig h) mod 256 = (uint b' + 256 * HashToBig h') mod 256" using e by simp
  then have "uint b = uint b'" using b by simp
  then have "b = b'" "HashToBig h = HashToBig h'" using e by (simp_all add: word_uint_eq_iff)
  then show ?case using Cons.IH by simp
qed simp

section \<open>Proofs: compact targets\<close>

text \<open>A compact word from an exponent and a mantissa, and what the code extracts from it.\<close>

lemma bit_23: "x AND 0x00800000 = 0 \<longleftrightarrow> \<not> bit (x :: u32) 23"
  using and_exp_eq_0_iff_not_bit [of x 23] by simp

lemma compact_unpack:
  fixes m e :: nat
  assumes m: "m < 2 ^ 23" and e: "e < 256"
  defines "c \<equiv> push_bit 24 (of_nat e) OR of_nat m :: u32"
  shows "unat c = e * 2 ^ 24 + m" "c AND 0x007fffff = of_nat m" "c AND 0x00800000 = 0"
    "unat (drop_bit 24 c) = e"
proof -
  have um: "unat (of_nat m :: u32) = m" using m by (simp add: unat_of_nat_small)
  have mb: "\<not> bit (of_nat m :: u32) i" if "23 \<le> i" for i
  proof -
    have "m < 2 ^ i" using m that by (meson less_le_trans one_le_numeral power_increasing)
    then have "\<not> bit m i" by (simp add: bit_iff_odd)
    then show ?thesis by (simp add: bit_simps)
  qed
  have "c = push_bit 24 (of_nat e) + of_nat m"
    unfolding c_def by (rule disjunctive_add [symmetric]) (auto simp: bit_push_bit_iff mb)
  then have "c = of_nat (e * 2 ^ 24 + m)" by (simp add: push_bit_eq_mult)
  moreover have "e * 2 ^ 24 + m < 2 ^ 32" using m e by simp
  ultimately show uc: "unat c = e * 2 ^ 24 + m" by (rule unat_u32_of_nat)
  show "c AND 0x007fffff = of_nat m"
  proof (rule bit_word_eqI)
    fix i assume "i < LENGTH(32)"
    have "bit (0x7fffff :: u32) i \<longleftrightarrow> i < 23"
    proof -
      have "(0x7fffff :: u32) = mask 23" by (simp add: mask_eq_exp_minus_1)
      then show ?thesis using \<open>i < LENGTH(32)\<close> by (simp only: bit_mask_iff) simp
    qed
    then show "bit (c AND 0x7fffff) i \<longleftrightarrow> bit (of_nat m :: u32) i"
      using mb [of i] by (auto simp: c_def bit_and_iff bit_or_iff bit_push_bit_iff)
  qed
  show "c AND 0x00800000 = 0"
    using mb [of 23] by (simp add: bit_23 c_def bit_or_iff bit_push_bit_iff)
  show "unat (drop_bit 24 c) = e" using m by (simp add: unat_drop_bit uc)
qed

lemma CompactToBig_pack:
  assumes "m < 2 ^ 23" "e < 256"
  shows "CompactToBig (push_bit 24 (of_nat e) OR of_nat m) =
    (if e \<le> 3 then int (m div 256 ^ (3 - e)) else int (m * 256 ^ (e - 3)))"
proof -
  note u = compact_unpack [OF assms]
  have um: "unat (of_nat m :: u32) = m" using assms(1) by (simp add: unat_of_nat_small)
  have p: "(2 :: nat) ^ (8 * k) = 256 ^ k" "(2 :: int) ^ (8 * k) = 256 ^ k" for k
    by (simp_all add: power_mult)
  have "uint (drop_bit (8 * (3 - e)) (of_nat m :: u32)) = int (m div 256 ^ (3 - e))"
    unfolding uint_nat unat_drop_bit um p ..
  moreover have "push_bit (8 * (e - 3)) (uint (of_nat m :: u32)) = int (m * 256 ^ (e - 3))"
    unfolding push_bit_eq_mult p uint_nat um by simp
  ultimately show ?thesis
    by (simp only: CompactToBig_def Let_def u not_not simp_thms if_False)
qed

lemma byte_len_0 [simp]: "byte_len 0 = 0" by (simp add: byte_len.simps)

lemma byte_len_bounds: "0 < n \<Longrightarrow> 0 < byte_len n \<and> 256 ^ (byte_len n - 1) \<le> n \<and> n < 256 ^ byte_len n"
proof (induction n rule: byte_len.induct)
  case (1 n)
  have l: "byte_len n = byte_len (n div 256) + 1" using 1(2) by (subst byte_len.simps) simp
  show ?case
  proof (cases "n div 256 = 0")
    case True
    then show ?thesis using 1(2) l by (simp add: div_eq_0_iff)
  next
    case False
    then have IH: "0 < byte_len (n div 256)" "256 ^ (byte_len (n div 256) - 1) \<le> n div 256"
      "n div 256 < 256 ^ byte_len (n div 256)" using 1 by simp_all
    obtain k where k: "byte_len (n div 256) = Suc k" using IH(1) gr0_conv_Suc by blast
    have "256 ^ Suc k \<le> n" using IH(2) unfolding k by simp
    moreover have "n < 256 * 256 ^ Suc k" using IH(3) unfolding k by (simp add: div_less_iff_less_mult)
    ultimately show ?thesis unfolding l k by simp
  qed
qed

lemma byte_len_unique:
  assumes "0 < n" "256 ^ (k - 1) \<le> n" "n < 256 ^ k" "0 < k"
  shows "byte_len n = k"
proof -
  note b = byte_len_bounds [OF assms(1)]
  have "\<not> byte_len n < k"
  proof
    assume "byte_len n < k"
    then have "(256 :: nat) ^ byte_len n \<le> 256 ^ (k - 1)" by (intro power_increasing) auto
    then show False using b assms(2) by linarith
  qed
  moreover have "\<not> k < byte_len n"
  proof
    assume "k < byte_len n"
    then have "(256 :: nat) ^ k \<le> 256 ^ (byte_len n - 1)" by (intro power_increasing) auto
    then show False using b assms(3) by linarith
  qed
  ultimately show ?thesis by linarith
qed

text \<open>The three leading bytes as the code computes them.\<close>

definition lead3 :: "nat \<Rightarrow> nat" where
  "lead3 n = (let e = byte_len n in if e \<le> 3 then n * 256 ^ (3 - e) else n div 256 ^ (e - 3))"

lemma lead3_bounds:
  assumes "0 < n"
  shows "2 ^ 16 \<le> lead3 n \<and> lead3 n < 2 ^ 24"
proof -
  note b = byte_len_bounds [OF assms]
  consider "byte_len n = 1" | "byte_len n = 2" | "byte_len n = 3" | k where "byte_len n = k + 4"
  proof -
    have "byte_len n = 1 \<or> byte_len n = 2 \<or> byte_len n = 3 \<or> (\<exists>k. byte_len n = k + 4)"
      using b by presburger
    then show ?thesis using that by blast
  qed
  then show ?thesis
  proof cases
    case 4
    have "(256 :: nat) ^ (3 + k) = 2 ^ 16 * 256 ^ (k + 1)" "(256 :: nat) ^ (4 + k) = 2 ^ 24 * 256 ^ (k + 1)"
      by (simp_all add: power_add)
    then have "2 ^ 16 * 256 ^ (k + 1) \<le> n" "n < 2 ^ 24 * 256 ^ (k + 1)" using b unfolding 4 by (simp_all add: add.commute)
    then have "2 ^ 16 \<le> n div 256 ^ (k + 1)" "n div 256 ^ (k + 1) < 2 ^ 24"
      by (simp_all only: less_eq_div_iff_mult_less_eq div_less_iff_less_mult zero_less_power zero_less_numeral)
    then show ?thesis by (simp add: lead3_def 4)
  qed (use b in \<open>auto simp: lead3_def\<close>)
qed

lemma BigToCompact_pos:
  assumes "0 < n"
  shows "BigToCompact (int n) =
    (if lead3 n < 2 ^ 23 then push_bit 24 (of_nat (byte_len n)) OR of_nat (lead3 n)
     else push_bit 24 (of_nat (byte_len n + 1)) OR of_nat (lead3 n div 256))"
proof -
  let ?e = "byte_len n"
  have p: "(2 :: nat) ^ (8 * k) = 256 ^ k" "(2 :: u32) ^ (8 * k) = of_nat (256 ^ k)" for k
    by (simp_all add: power_mult)
  have d: "\<bar>drop_bit k (int n)\<bar> = int (n div 2 ^ k)" for k
    unfolding drop_bit_eq_div by (simp add: zdiv_int [of n "2 ^ k", simplified, symmetric])
  have mant: "(if ?e \<le> 3 then push_bit (8 * (3 - ?e)) (word_of_int \<bar>int n\<bar> :: u32)
      else word_of_int \<bar>drop_bit (8 * (?e - 3)) (int n)\<bar>) = of_nat (lead3 n)"
    unfolding d by (auto simp: lead3_def Let_def push_bit_eq_mult p simp del: of_nat_power)
  have ul: "unat (of_nat (lead3 n) :: u32) = lead3 n"
    using lead3_bounds [OF assms] by (simp add: unat_of_nat_small)
  have bit: "(of_nat (lead3 n) :: u32) AND 0x00800000 \<noteq> 0 \<longleftrightarrow> \<not> lead3 n < 2 ^ 23"
  proof -
    have "(of_nat (lead3 n) :: u32) AND 0x00800000 \<noteq> 0 \<longleftrightarrow> odd (lead3 n div 2 ^ 23)"
      by (simp add: bit_23 bit_simps) (simp add: bit_iff_odd)
    also have "lead3 n div 2 ^ 23 = (if lead3 n < 2 ^ 23 then 0 else 1)"
      using lead3_bounds [OF assms] by (auto simp: div_nat_eqI)
    finally show ?thesis by simp
  qed
  have dr: "drop_bit 8 (of_nat (lead3 n) :: u32) = of_nat (lead3 n div 256)"
    by (rule word_eq_of_nat) (simp add: unat_drop_bit ul)
  show ?thesis
  proof (cases "lead3 n < 2 ^ 23")
    case True
    then show ?thesis using assms bit by (simp add: BigToCompact_def Let_def mant)
  next
    case False
    then show ?thesis using assms bit dr by (simp add: BigToCompact_def Let_def mant)
  qed
qed

text \<open>The decoded value of the compact form: the number without its digits below the mantissa.\<close>

lemma compact_value:
  assumes "0 < n" "n < 2 ^ 256"
  shows "\<exists>k. CompactToBig (BigToCompact (int n)) = int (n - n mod 256 ^ k) \<and> 2 ^ 15 * 256 ^ k \<le> n
    \<or> CompactToBig (BigToCompact (int n)) = int n"
proof -
  let ?e = "byte_len n"
  note b = byte_len_bounds [OF assms(1)] and l = lead3_bounds [OF assms(1)]
  have p: "(2 :: nat) ^ 256 = 256 ^ 32" by (simp flip: power_mult [of 2 8, simplified])
  have "(256 :: nat) ^ (?e - 1) < 256 ^ 32" using b assms(2) unfolding p by linarith
  then have "?e - 1 < 32" by (rule power_less_imp_less_exp [rotated]) simp
  then have e: "?e < 255" by simp
  have cut: "n div m * m = n - n mod m" for m by (simp add: minus_mod_eq_div_mult)
  show ?thesis
  proof (cases "lead3 n < 2 ^ 23")
    case True
    have v: "CompactToBig (BigToCompact (int n)) =
        (if ?e \<le> 3 then int (lead3 n div 256 ^ (3 - ?e)) else int (lead3 n * 256 ^ (?e - 3)))"
      using CompactToBig_pack [OF True, of ?e] e True BigToCompact_pos [OF assms(1)] by simp
    show ?thesis
    proof (cases "?e \<le> 3")
      case le: True
      then show ?thesis using v by (simp add: lead3_def)
    next
      case False
      let ?k = "?e - 3"
      have q: "lead3 n = n div 256 ^ ?k" using False by (simp add: lead3_def Let_def)
      have "2 ^ 15 * 256 ^ ?k \<le> lead3 n * 256 ^ ?k" using l by simp
      also have "\<dots> \<le> n" by (simp add: q)
      finally show ?thesis using v False by (intro exI [of _ ?k]) (simp add: q cut)
    qed
  next
    case False
    let ?m = "lead3 n div 256"
    have m: "?m < 2 ^ 23" "2 ^ 15 \<le> ?m" using l False by auto
    have v: "CompactToBig (BigToCompact (int n)) =
        (if ?e + 1 \<le> 3 then int (?m div 256 ^ (3 - (?e + 1))) else int (?m * 256 ^ (?e + 1 - 3)))"
      using CompactToBig_pack [OF m(1), of "?e + 1"] e False BigToCompact_pos [OF assms(1)] by simp
    show ?thesis
    proof (cases "?e + 1 \<le> 3")
      case True
      then have "?e = 1 \<or> ?e = 2" using b by linarith
      then show ?thesis using v by (auto simp: lead3_def)
    next
      case e3: False
      let ?k = "?e - 2"
      have q: "?m = n div 256 ^ ?k"
      proof (cases "?e = 3")
        case True
        then show ?thesis by (simp add: lead3_def)
      next
        case False
        then have "?k = Suc (?e - 3)" "\<not> ?e \<le> 3" using e3 by auto
        then show ?thesis by (simp add: lead3_def Let_def div_mult2_eq [symmetric] mult.commute)
      qed
      have "2 ^ 15 * 256 ^ ?k \<le> ?m * 256 ^ ?k" using m by simp
      also have "\<dots> \<le> n" by (simp add: q)
      finally show ?thesis using v e3 by (intro exI [of _ ?k]) (simp add: q cut Suc_diff_le)
    qed
  qed
qed

text \<open>
  The compact form of a target rounds down and keeps at least 15 significant bits: decoding
  \<open>BigToCompact n\<close> gives a number that is at most \<open>n\<close> and misses less than
  \<open>n / 2 ^ 15\<close>.
\<close>

theorem compact_precision:
  assumes "0 < n" "n < 2 ^ 256"
  shows "CompactToBig (BigToCompact n) \<le> n \<and> (n - CompactToBig (BigToCompact n)) * 2 ^ 15 < n"
proof -
  obtain N where N: "n = int N" "0 < N" using assms(1) by (metis pos_int_cases)
  have "N < 2 ^ 256" using assms(2) unfolding N(1) by (metis of_nat_less_iff of_nat_numeral of_nat_power)
  from compact_value [OF N(2) this] consider
    k where "CompactToBig (BigToCompact n) = int (N - N mod 256 ^ k)" "2 ^ 15 * 256 ^ k \<le> N"
    | "CompactToBig (BigToCompact n) = n" unfolding N(1) by blast
  then show ?thesis
  proof cases
    case 1
    have "N mod 256 ^ k < 256 ^ k" by simp
    then have "N mod 256 ^ k * 2 ^ 15 < 256 ^ k * 2 ^ 15" by simp
    also have "\<dots> \<le> N" using 1(2) by (simp add: mult.commute)
    finally have "N mod 256 ^ k * 2 ^ 15 < N" .
    moreover have "n - CompactToBig (BigToCompact n) = int (N mod 256 ^ k)"
      using 1(1) N(1) by (simp add: of_nat_diff)
    ultimately show ?thesis using 1(1) N(1) by (simp add: of_nat_diff)
  next
    case 2
    then show ?thesis using assms(1) by simp
  qed
qed

theorem compact_precision_witness:
  "CompactToBig (BigToCompact 0x123456789a) \<le> 0x123456789a
   \<and> (0x123456789a - CompactToBig (BigToCompact 0x123456789a)) * 2 ^ 15 < 0x123456789a"
  using compact_precision [of "0x123456789a"] by simp

text \<open>Every word is its exponent and its low 24 bits.\<close>

lemma compact_split: "c = push_bit 24 (drop_bit 24 c) OR (c AND 0xffffff :: u32)"
proof (rule bit_word_eqI)
  fix i assume i: "i < LENGTH(32)"
  have "(0xffffff :: u32) = mask 24" by (simp add: mask_eq_exp_minus_1)
  then have "bit (0xffffff :: u32) i \<longleftrightarrow> i < 24" using i by (simp only: bit_mask_iff) simp
  then show "bit c i \<longleftrightarrow> bit (push_bit 24 (drop_bit 24 c) OR (c AND 0xffffff :: u32)) i"
    using i by (auto simp: bit_or_iff bit_and_iff bit_push_bit_iff bit_drop_bit_eq)
qed

lemma compact_roundtrip_nat:
  assumes "2 ^ 15 \<le> m" "m < 2 ^ 23" "3 \<le> e" "e < 255"
  shows "BigToCompact (int (m * 256 ^ (e - 3))) = push_bit 24 (of_nat e) OR of_nat m"
proof -
  let ?n = "m * 256 ^ (e - 3)"
  have pos: "0 < ?n" using assms(1) by simp
  obtain k where k: "e = k + 3" using assms(3) by (metis le_add_diff_inverse2)
  have P: "(256 :: nat) ^ (k + 2) = 2 ^ 16 * 256 ^ k" "(256 :: nat) ^ (k + 3) = 2 ^ 24 * 256 ^ k"
    "(256 :: nat) ^ (k + 1) = 2 ^ 8 * 256 ^ k"
    by (simp_all add: power_add)
  show ?thesis
  proof (cases "2 ^ 16 \<le> m")
    case True
    have "2 ^ 16 * 256 ^ k \<le> m * 256 ^ k" "m * 256 ^ k < 2 ^ 24 * 256 ^ k" using True assms(2) by auto
    then have l: "byte_len ?n = e" unfolding k by (intro byte_len_unique) (use pos k P in auto)
    then have "lead3 ?n = m" unfolding lead3_def l by (cases "k = 0") (auto simp: k)
    then show ?thesis using BigToCompact_pos [OF pos] l assms(2) by simp
  next
    case False
    have "2 ^ 8 * 256 ^ k \<le> m * 256 ^ k" "m * 256 ^ k < 2 ^ 16 * 256 ^ k" using False assms(1) by auto
    then have l: "byte_len ?n = e - 1" unfolding k by (intro byte_len_unique) (use pos k P in auto)
    have "lead3 ?n = m * 256"
    proof (cases "k \<le> 1")
      case True
      then consider "k = 0" | "k = 1" by linarith
      then show ?thesis unfolding lead3_def l by cases (auto simp: k)
    next
      case False
      then obtain j where "k = Suc (Suc j)" by (metis Suc_le_D not_less_eq_eq One_nat_def)
      then show ?thesis unfolding lead3_def l by (simp add: k)
    qed
    moreover have "\<not> m * 256 < 2 ^ 23" using assms(1) by simp
    ultimately show ?thesis using BigToCompact_pos [OF pos] l assms(3) by simp
  qed
qed

text \<open>
  C7: Compact targets in normal form round trip: a positive compact word with an exponent of at least
  3 and a mantissa with no leading zero byte (and the sign bit clear) is what \<open>BigToCompact\<close>
  gives back for its value, so no two such words stand for the same target.
\<close>

theorem compact_roundtrip:
  assumes "3 \<le> unat (drop_bit 24 c)" "unat (drop_bit 24 c) < 255"
    and "0x8000 \<le> unat (c AND 0xffffff)" "unat (c AND 0xffffff) < 0x800000"
  shows "BigToCompact (CompactToBig c) = c"
proof -
  let ?e = "unat (drop_bit 24 c)" and ?m = "unat (c AND 0xffffff)"
  have c: "c = push_bit 24 (of_nat ?e) OR of_nat ?m" using compact_split [of c] by simp
  have m: "?m < 2 ^ 23" using assms(4) by simp
  have "CompactToBig c = int (?m * 256 ^ (?e - 3))"
    using CompactToBig_pack [OF m, of ?e] assms(1,2) c by (cases "?e = 3") simp_all
  then show ?thesis using compact_roundtrip_nat [of ?m ?e] assms c by simp
qed

theorem compact_roundtrip_witness: "BigToCompact (CompactToBig 0x1d00ffff) = 0x1d00ffff"
  by (rule compact_roundtrip) simp_all

lemma CalcWork_bracket:
  assumes "0 < CompactToBig bits"
  shows "CalcWork bits * (CompactToBig bits + 1) \<le> 2 ^ 256
    \<and> 2 ^ 256 < (CalcWork bits + 1) * (CompactToBig bits + 1)"
proof -
  let ?d = "CompactToBig bits + 1"
  have w: "CalcWork bits = 2 ^ 256 div ?d" using assms by (simp add: CalcWork_def Let_def)
  have "2 ^ 256 = 2 ^ 256 div ?d * ?d + 2 ^ 256 mod ?d" by (rule div_mult_mod_eq [symmetric])
  moreover have "0 \<le> 2 ^ 256 mod ?d" "2 ^ 256 mod ?d < ?d"
    using assms pos_mod_sign [of ?d "2 ^ 256"] pos_mod_bound [of ?d "2 ^ 256"] by linarith+
  ultimately show ?thesis unfolding w by (simp only: distrib_right mult_1) linarith
qed



end
