(* ===== verification/Retarget.thy ===== *)
theory Retarget
  imports Difficulty
begin

text \<open>
  The retargeting of the miner chain, \<open>calcNextRequiredDifficulty\<close> of
  \<^verbatim>\<open>omega/minerchain/difficulty.go\<close>, with the two fields of the chain it mutates
  (\<open>nextAdjustHeight\<close> and the table \<open>collaterals\<close>). The lookups in the transaction
  chain and its database are parameters: the node of a hash, the node of a height, and the value of
  a transaction output (\<open>None\<close> where the code panics because it cannot be retrieved). Sums and
  shifts of time spans are 64 bit wide (\<open>i64\<close>); heights stay far below \<open>2 ^ 31\<close>.
\<close>

unbundle bit_operations_syntax

definition MINER_RORATE_FREQ :: int where "MINER_RORATE_FREQ = 20"
definition DESIRABLE_MINER_CANDIDATES :: int where "DESIRABLE_MINER_CANDIDATES = 100"
definition SCALEFACTORCAP :: int where "SCALEFACTORCAP = 48"
definition HaoPerBitcoin :: int where "HaoPerBitcoin = 100000000"

text \<open>The value of an \<open>int64\<close> computation.\<close>

definition i64 :: "int \<Rightarrow> int" where
  "i64 x = signed_take_bit 63 x"

record OutPoint =
  OutHash :: hash
  OutIndex :: u32

record MinerData = NodeData +
  Collateral :: u32
  Utxos :: "OutPoint option"
  BestBlock :: hash

type_synonym tx_node = "unit BlockNode"
type_synonym miner_node = "unit MinerData_ext BlockNode"

record ChainEnv =
  NodeByHash :: "hash \<Rightarrow> tx_node option"
  NodeByHeight :: "int \<Rightarrow> tx_node option"
  TxOutValue :: "OutPoint \<Rightarrow> int option"

record MinerChain =
  PowLimitBits :: u32
  PowLimit :: int
  TargetTimespan :: int
  minRetargetTimespan :: int
  maxRetargetTimespan :: int
  blocksPerRetarget :: int
  nextAdjustHeight :: int
  collaterals :: "int list"

datatype difficulty_error =
    AssertNoRetargetBlock
  | UnexpectedBestBlock hash
  | BrokenBestChain hash

subsection \<open>The test network rule\<close>

fun testnet_loop :: "MinerChain \<Rightarrow> miner_node option \<Rightarrow> miner_node option" where
  "testnet_loop b None = None"
| "testnet_loop b (Some (BlockNode parent hsh ht d)) =
     (if ht mod blocksPerRetarget b \<noteq> 0 \<and> GetBits d = PowLimitBits b then testnet_loop b parent
      else Some (BlockNode parent hsh ht d))"

definition findPrevTestNetDifficulty :: "MinerChain \<Rightarrow> miner_node option \<Rightarrow> u32" where
  "findPrevTestNetDifficulty b startNode =
     (case testnet_loop b startNode of
        None \<Rightarrow> PowLimitBits b
      | Some iterNode \<Rightarrow> GetBits (Data iterNode))"

subsection \<open>Between retargets: prefetching collaterals\<close>

definition next_adjust :: "MinerChain \<Rightarrow> int \<Rightarrow> int" where
  "next_adjust b h = (h + 1) - ((h + 1) mod blocksPerRetarget b) + blocksPerRetarget b"

definition reset_round :: "MinerChain \<Rightarrow> int \<Rightarrow> MinerChain option" where
  "reset_round b h =
     (if nextAdjustHeight b < 0 \<or> nextAdjustHeight b \<noteq> next_adjust b h
      then if nat (blocksPerRetarget b) > length (collaterals b) then None
           else Some (b\<lparr> nextAdjustHeight := next_adjust b h,
                  collaterals := replicate (nat (blocksPerRetarget b)) 0
                                 @ drop (nat (blocksPerRetarget b)) (collaterals b) \<rparr>)
      else Some b)"

text \<open>
  The loop from the first node of the round downwards: at most six entries are filled per call. Its
  outcome is the table, or \<open>None\<close> for a panic (no parent left, an index past the table, or a
  transaction that cannot be retrieved).
\<close>

fun prefetch :: "ChainEnv \<Rightarrow> MinerChain \<Rightarrow> int \<Rightarrow> int \<Rightarrow> miner_node option \<Rightarrow> int list \<Rightarrow> int list option" where
  "prefetch env b lastHeight i None cs = (if i < 0 then Some cs else None)"
| "prefetch env b lastHeight i (Some (BlockNode parent hsh ht d)) cs =
     (if i < 0 then Some cs
      else
        let j = blocksPerRetarget b - (nextAdjustHeight b - ht)
        in if j < 0 then prefetch env b lastHeight (- 1) parent cs
           else if j \<ge> int (length cs) then None
           else if cs ! nat j = 0 \<and> ht < lastHeight - 7 then
             (case Utxos d of
                None \<Rightarrow> prefetch env b lastHeight (i - 1) parent cs
              | Some op \<Rightarrow>
                  (case TxOutValue env op of
                     None \<Rightarrow> None
                   | Some v \<Rightarrow> prefetch env b lastHeight (i - 1) parent (cs[nat j := v div HaoPerBitcoin])))
           else prefetch env b lastHeight i parent cs)"

definition between_retargets ::
  "ChainEnv \<Rightarrow> MinerChain \<Rightarrow> miner_node \<Rightarrow> ((u32 \<times> u32 \<times> difficulty_error option) \<times> MinerChain) option" where
  "between_retargets env b lastNode =
     (let coll = Collateral (Data lastNode)
      in case reset_round b (Height lastNode) of
           None \<Rightarrow> None
         | Some b' \<Rightarrow>
           case RelativeAncestor lastNode (blocksPerRetarget b' - 1) of
             None \<Rightarrow> Some ((GetBits (Data lastNode), coll, None), b')
           | Some firstNode \<Rightarrow>
               (case prefetch env b' (Height lastNode) 5 (Some firstNode) (collaterals b') of
                  None \<Rightarrow> None
                | Some cs \<Rightarrow> Some ((GetBits (Data lastNode), coll, None), b'\<lparr> collaterals := cs \<rparr>)))"

subsection \<open>At a retarget\<close>

definition ParentNode :: "ChainEnv \<Rightarrow> tx_node \<Rightarrow> tx_node option" where
  "ParentNode env n =
     (if Parent n \<noteq> None \<or> Height n = 0 then Parent n else NodeByHeight env (Height n - 1))"

text \<open>
  The walk to the last rotation block that measures the waiting list. The outer \<open>None\<close> means
  that the fuel was too small; the error is the broken chain.
\<close>

fun waiting_list :: "nat \<Rightarrow> ChainEnv \<Rightarrow> tx_node option \<Rightarrow> int \<Rightarrow> (hash + (tx_node option \<times> int)) option" where
  "waiting_list 0 env mb dh = None"
| "waiting_list (Suc fuel) env None dh = Some (Inr (None, dh))"
| "waiting_list (Suc fuel) env (Some mb) dh =
     (if GetNonce (Data mb) > - MINER_RORATE_FREQ then
        if GetNonce (Data mb) < 0
        then waiting_list fuel env (NodeByHeight env (Height mb + GetNonce (Data mb))) dh
        else case ParentNode env mb of
               None \<Rightarrow> if Height mb \<noteq> 0 then Some (Inl (Hash mb)) else waiting_list fuel env None (dh - 2)
             | Some pmb \<Rightarrow> waiting_list fuel env (Some pmb) (dh - 2)
      else Some (Inr (Some mb, dh)))"

definition waiting_fuel :: "tx_node \<Rightarrow> nat" where
  "waiting_fuel bb = nat (Height bb) + 2"

definition scale_dt :: "int \<Rightarrow> int \<Rightarrow> int" where
  "scale_dt d dt =
     (if d - DESIRABLE_MINER_CANDIDATES > SCALEFACTORCAP then drop_bit (nat SCALEFACTORCAP) dt
      else if d < DESIRABLE_MINER_CANDIDATES then
        let m = DESIRABLE_MINER_CANDIDATES - d;
            m = (if m > SCALEFACTORCAP then SCALEFACTORCAP else m)
        in i64 (push_bit (nat m) dt)
      else drop_bit (nat (d - DESIRABLE_MINER_CANDIDATES)) dt)"

text \<open>The collateral of one block of the round: the new minimum and whether the table had it.\<close>

definition collect_collateral ::
  "ChainEnv \<Rightarrow> MinerChain \<Rightarrow> miner_node \<Rightarrow> u32 \<times> bool \<Rightarrow> (u32 \<times> bool) option" where
  "collect_collateral env b pb acc =
     (let (bcoll, hasnz) = acc;
          j = Height pb mod blocksPerRetarget b
      in if j \<ge> int (length (collaterals b)) then None
         else if collaterals b ! nat j \<noteq> 0 then
           (let c = word_of_int (collaterals b ! nat j)
            in Some (if c < bcoll then c else bcoll, True))
         else case Utxos (Data pb) of
                None \<Rightarrow> Some (bcoll, hasnz)
              | Some op \<Rightarrow>
                  (case TxOutValue env op of
                     None \<Rightarrow> None
                   | Some val \<Rightarrow>
                       let v = word_of_int (val div HaoPerBitcoin)
                       in Some (if v < bcoll then v else bcoll, hasnz)))"

datatype span_result =
    SpanError difficulty_error
  | Span (span_time: int) (span_coll: u32) (span_hasnz: bool)

fun normalized_timespan ::
  "ChainEnv \<Rightarrow> MinerChain \<Rightarrow> nat \<Rightarrow> miner_node option \<Rightarrow> int \<Rightarrow> u32 \<times> bool \<Rightarrow> span_result option" where
  "normalized_timespan env b 0 pb normalized (bcoll, hasnz) = Some (Span normalized bcoll hasnz)"
| "normalized_timespan env b (Suc i) None normalized acc = None"
| "normalized_timespan env b (Suc i) (Some pb) normalized acc =
     (case collect_collateral env b pb acc of
        None \<Rightarrow> None
      | Some acc' \<Rightarrow>
        case NodeByHash env (BestBlock (Data pb)) of
          None \<Rightarrow> Some (SpanError (UnexpectedBestBlock (Hash pb)))
        | Some bb \<Rightarrow>
          case waiting_list (waiting_fuel bb) env (Some bb) 0 of
            None \<Rightarrow> None
          | Some (Inl h) \<Rightarrow> Some (SpanError (BrokenBestChain h))
          | Some (Inr (mb, dh)) \<Rightarrow>
              let h = (case mb of None \<Rightarrow> - 1 | Some m \<Rightarrow> - GetNonce (Data m) - MINER_RORATE_FREQ) + dh;
                  d = Height pb - h
              in case Parent pb of
                   None \<Rightarrow> None
                 | Some nb \<Rightarrow>
                     let dt = scale_dt d (TimeStamp (Data pb) - TimeStamp (Data nb))
                     in normalized_timespan env b i (Some nb) (i64 (normalized + dt)) acc')"

definition adjust_target :: "MinerChain \<Rightarrow> u32 \<Rightarrow> int \<Rightarrow> u32" where
  "adjust_target b bits actualTimespan =
     (let adjustedTimespan =
            (if actualTimespan < minRetargetTimespan b then minRetargetTimespan b
             else if actualTimespan > maxRetargetTimespan b then maxRetargetTimespan b
             else actualTimespan);
          newTarget = CompactToBig bits * adjustedTimespan div TargetTimespan b
      in if newTarget \<le> PowLimit b then BigToCompact newTarget else PowLimitBits b)"

definition calcNextRequiredDifficulty ::
  "ChainEnv \<Rightarrow> MinerChain \<Rightarrow> miner_node option
   \<Rightarrow> ((u32 \<times> u32 \<times> difficulty_error option) \<times> MinerChain) option" where
  "calcNextRequiredDifficulty env b tipNode =
     (case tipNode of
        None \<Rightarrow> Some ((PowLimitBits b, 0, None), b)
      | Some lastNode \<Rightarrow>
          if Height lastNode < blocksPerRetarget b + 10 then Some ((PowLimitBits b, 0, None), b)
          else if (Height lastNode + 1) mod blocksPerRetarget b \<noteq> 0 then between_retargets env b lastNode
          else case RelativeAncestor lastNode (blocksPerRetarget b - 1) of
            None \<Rightarrow> Some ((0, 0, Some AssertNoRetargetBlock), b)
          | Some firstNode \<Rightarrow>
              let coll = Collateral (Data lastNode)
              in case normalized_timespan env b (nat (blocksPerRetarget b - 1)) (Some firstNode) 0 (0x7FFFFFFF, False) of
                   None \<Rightarrow> None
                 | Some (SpanError err) \<Rightarrow> Some ((GetBits (Data lastNode), coll, Some err), b)
                 | Some (Span normalized bcoll hasnz) \<Rightarrow>
                     let coll' = (if hasnz then bcoll else coll)
                     in Some ((adjust_target b (GetBits (Data lastNode)) normalized,
                               drop_bit 3 (coll' * 7), None), b))"

section \<open>Collaterals are never sampled\<close>

lemma prefetch_stops:
  assumes "0 < B" "blocksPerRetarget b = B" "nextAdjustHeight b = next_adjust b H"
    and "(H + 1) mod B \<noteq> 0" "Height n = H - (B - 1)"
  shows "prefetch env b lastHeight i (Some n) cs = Some cs"
proof -
  have r: "0 < (H + 1) mod B" "(H + 1) mod B < B" 
    using assms(1,4) pos_mod_sign [of B "H + 1"] pos_mod_bound [of B "H + 1"] by linarith+
  have "blocksPerRetarget b - (nextAdjustHeight b - Height n) < 0"
    using r assms(2,3,5) by (simp add: next_adjust_def)
  moreover have "prefetch env b lastHeight (- 1) p cs = Some cs" for p
    by (induction env b lastHeight "- 1 :: int" p cs rule: prefetch.induct) auto
  ultimately show ?thesis by (cases n) (simp add: Let_def)
qed

lemma reset_round_fields:
  assumes "reset_round b h = Some b'"
  shows "blocksPerRetarget b' = blocksPerRetarget b \<and> nextAdjustHeight b' = next_adjust b' h
    \<and> length (collaterals b') = length (collaterals b)
    \<and> ((\<forall>c \<in> set (collaterals b). c = 0) \<longrightarrow> (\<forall>c \<in> set (collaterals b'). c = 0))"
proof (cases "nextAdjustHeight b < 0 \<or> nextAdjustHeight b \<noteq> next_adjust b h")
  case True
  then have b': "nat (blocksPerRetarget b) \<le> length (collaterals b)"
    "b' = b\<lparr> nextAdjustHeight := next_adjust b h,
            collaterals := replicate (nat (blocksPerRetarget b)) 0
                           @ drop (nat (blocksPerRetarget b)) (collaterals b) \<rparr>"
    using assms by (auto simp: reset_round_def split: if_splits)
  then show ?thesis by (auto simp: next_adjust_def dest: in_set_dropD)
next
  case False
  then show ?thesis using assms by (auto simp: reset_round_def)
qed

lemma between_retargets_eq:
  assumes "linked n" "0 < blocksPerRetarget b" "(Height n + 1) mod blocksPerRetarget b \<noteq> 0"
  shows "between_retargets env b n =
    (case reset_round b (Height n) of
       None \<Rightarrow> None
     | Some b' \<Rightarrow> Some ((GetBits (Data n), Collateral (Data n), None), b'))"
proof (cases "reset_round b (Height n)")
  case (Some b')
  note f = reset_round_fields [OF Some]
  show ?thesis
  proof (cases "RelativeAncestor n (blocksPerRetarget b' - 1)")
    case (Some m)
    then have "Height m = Height n - (blocksPerRetarget b' - 1)"
      using Ancestor_in_path [OF assms(1)] by (simp add: RelativeAncestor_def)
    then have "prefetch env b' (Height n) 5 (Some m) (collaterals b') = Some (collaterals b')"
      using assms(2,3) f by (intro prefetch_stops [OF _ refl]) auto
    then show ?thesis using Some \<open>reset_round b (Height n) = Some b'\<close>
      by (simp add: between_retargets_def Let_def)
  qed (simp add: between_retargets_def Some Let_def)
qed (simp add: between_retargets_def)

lemma collect_zero:
  assumes "\<forall>c \<in> set (collaterals b). c = 0" "0 < blocksPerRetarget b"
    and "collect_collateral env b pb (bcoll, hasnz) = Some (bcoll', hasnz')"
  shows "hasnz' = hasnz"
proof -
  let ?j = "Height pb mod blocksPerRetarget b"
  have j: "0 \<le> ?j" using assms(2) by simp
  show ?thesis
  proof (cases "?j \<ge> int (length (collaterals b))")
    case True
    then show ?thesis using assms(3) by (simp add: collect_collateral_def)
  next
    case False
    then have "collaterals b ! nat ?j = 0" using assms(1) j by (simp add: nat_less_iff)
    then show ?thesis using assms(3)
      by (auto simp: collect_collateral_def Let_def split: option.splits if_splits)
  qed
qed

text \<open>One round of the loop, when it goes on.\<close>

lemma normalized_step:
  assumes "normalized_timespan env b (Suc i) (Some pb) t acc = Some (Span t' c' h')"
  obtains acc' nb dt where "collect_collateral env b pb acc = Some acc'"
    "normalized_timespan env b i (Some nb) (i64 (t + dt)) acc' = Some (Span t' c' h')"
  using assms by (auto simp: Let_def split: option.splits sum.splits prod.splits)

lemma normalized_zero:
  assumes "\<forall>c \<in> set (collaterals b). c = 0" "0 < blocksPerRetarget b"
  shows "normalized_timespan env b i pb t acc = Some (Span t' c' h') \<Longrightarrow> h' = snd acc"
proof (induction i arbitrary: pb t acc)
  case 0
  then show ?case by (cases acc) simp
next
  case (Suc i)
  then obtain n where n: "pb = Some n" by (cases pb) auto
  obtain acc' nb dt where s: "collect_collateral env b n acc = Some acc'"
    "normalized_timespan env b i (Some nb) (i64 (t + dt)) acc' = Some (Span t' c' h')"
    using Suc.prems unfolding n by (rule normalized_step)
  have "snd acc' = snd acc"
    using collect_zero [OF assms, of env n "fst acc" "snd acc" "fst acc'" "snd acc'"] s(1) by simp
  then show ?case using Suc.IH [OF s(2)] by simp
qed

text \<open>
  The minimum collateral of the miner chain is never sampled from the blocks. The prefetch
  between retargets starts one round too early, so its index is always negative and it stores
  nothing: on a linked node, with a table of zeros (the initial value), a call leaves a table of
  zeros behind, and the collateral it returns is zero, that of the last block, or at a retarget
  seven eighths of it. The branch that takes the minimum over the round is never reached.
\<close>

theorem collateral_only_decays:
  assumes "linked n" "0 < blocksPerRetarget b" "\<forall>c \<in> set (collaterals b). c = 0"
    and "calcNextRequiredDifficulty env b (Some n) = Some ((bits, coll, err), b')"
  shows "(\<forall>c \<in> set (collaterals b'). c = 0)
    \<and> coll \<in> {0, Collateral (Data n), drop_bit 3 (Collateral (Data n) * 7)}"
proof (cases "Height n < blocksPerRetarget b + 10")
  case True
  then show ?thesis using assms by (auto simp: calcNextRequiredDifficulty_def)
next
  case high: False
  show ?thesis
  proof (cases "(Height n + 1) mod blocksPerRetarget b = 0")
    case False
    then show ?thesis
      using assms high between_retargets_eq [OF assms(1,2) False] reset_round_fields [of b "Height n" b']
      by (auto simp: calcNextRequiredDifficulty_def split: option.splits)
  next
    case True
    then show ?thesis
      using assms high
      by (auto simp: calcNextRequiredDifficulty_def Let_def dest: normalized_zero [rotated 2]
          split: option.splits span_result.splits if_splits)
  qed
qed

definition sample_miner_data :: "unit MinerData_ext NodeData_scheme" where
  "sample_miner_data = \<lparr> TimeStamp = 1600000000, GetNonce = 1, GetBits = 0x1d00ffff, GetVersion = 0x10000,
     GetContractExec = 0, Collateral = 800, Utxos = None, BestBlock = zero_hash \<rparr>"

text \<open>A miner chain of a given height whose blocks all carry the sample data.\<close>

fun sample_miner_chain :: "nat \<Rightarrow> miner_node" where
  "sample_miner_chain 0 = BlockNode None zero_hash 0 sample_miner_data"
| "sample_miner_chain (Suc h) =
     BlockNode (Some (sample_miner_chain h)) zero_hash (int (Suc h)) sample_miner_data"

definition sample_miner :: MinerChain where
  "sample_miner = \<lparr> PowLimitBits = 0x1e000ff0, PowLimit = 2 ^ 240 - 1, TargetTimespan = 720,
     minRetargetTimespan = 180, maxRetargetTimespan = 2880, blocksPerRetarget = 12,
     nextAdjustHeight = - 1, collaterals = replicate 20160 0 \<rparr>"

definition sample_env :: ChainEnv where
  "sample_env = \<lparr> NodeByHash = (\<lambda>_. Some sample_genesis), NodeByHeight = (\<lambda>h. if h = 0 then Some sample_genesis else None),
     TxOutValue = (\<lambda>_. None) \<rparr>"

lemma linked_sample_miner_chain: "linked (sample_miner_chain h) \<and> Height (sample_miner_chain h) = int h"
  by (induction h) auto

lemma Data_sample_miner_chain [simp]: "Data (sample_miner_chain h) = sample_miner_data"
  by (cases h) auto

theorem collateral_only_decays_witness:
  "\<exists>r b'. calcNextRequiredDifficulty sample_env sample_miner (Some (sample_miner_chain 24)) = Some (r, b')
     \<and> set (collaterals b') \<subseteq> {0} \<and> fst (snd r) \<in> {0, 800, 700}"
proof -
  let ?n = "sample_miner_chain 24"
  have l: "linked ?n" "Height ?n = 24" using linked_sample_miner_chain [of 24] by auto
  have z: "0 < blocksPerRetarget sample_miner" "\<forall>c \<in> set (collaterals sample_miner). c = 0"
    by (simp_all add: sample_miner_def)
  have "\<exists>b'. reset_round sample_miner 24 = Some b'"
    by (simp add: reset_round_def sample_miner_def)
  then obtain b' where b': "reset_round sample_miner (Height ?n) = Some b'" using l by auto
  have m: "(Height ?n + 1) mod blocksPerRetarget sample_miner \<noteq> 0" using l by (simp add: sample_miner_def)
  have "calcNextRequiredDifficulty sample_env sample_miner (Some ?n)
      = between_retargets sample_env sample_miner ?n"
    using l m by (simp add: calcNextRequiredDifficulty_def sample_miner_def)
  also have "\<dots> = Some ((GetBits (Data ?n), Collateral (Data ?n), None), b')"
    using between_retargets_eq [OF l(1) z(1) m] b' by simp
  finally have c: "calcNextRequiredDifficulty sample_env sample_miner (Some ?n)
    = Some ((GetBits (Data ?n), Collateral (Data ?n), None), b')" .
  from collateral_only_decays [OF l(1) z this] show ?thesis
    unfolding c by (auto simp: sample_miner_data_def)
qed

section \<open>Time spans wrap around\<close>

text \<open>
  The scaling of block times overflows. With 52 or fewer waiting miners the time between two
  blocks is shifted left by 48 bits in an \<open>int64\<close>: this is right up to 32767 seconds, but a
  gap of 32768 seconds (about nine hours) counts as the most negative time and one of 65536 seconds
  as no time at all, so a stalled chain can get a harder target instead of an easier one.
\<close>

theorem scale_dt_overflow:
  assumes "d \<le> 52"
  shows "(\<forall>dt. 0 \<le> dt \<and> dt < 32768 \<longrightarrow> scale_dt d dt = dt * 2 ^ 48)
    \<and> scale_dt d 32768 = - (2 ^ 63) \<and> scale_dt d 65536 = 0"
proof -
  have m: "\<not> d - DESIRABLE_MINER_CANDIDATES > SCALEFACTORCAP" "d < DESIRABLE_MINER_CANDIDATES"
    "(if DESIRABLE_MINER_CANDIDATES - d > SCALEFACTORCAP then SCALEFACTORCAP else DESIRABLE_MINER_CANDIDATES - d) = 48"
    using assms by (auto simp: DESIRABLE_MINER_CANDIDATES_def SCALEFACTORCAP_def)
  have s: "scale_dt d dt = i64 (dt * 2 ^ 48)" for dt
    unfolding scale_dt_def Let_def m(3) using m(1,2) by (simp add: push_bit_eq_mult)
  have "i64 (dt * 2 ^ 48) = dt * 2 ^ 48" if "0 \<le> dt" "dt < 32768" for dt
    using that by (simp add: i64_def signed_take_bit_int_eq_self)
  moreover have "i64 (32768 * 2 ^ 48) = - (2 ^ 63)" "i64 (65536 * 2 ^ 48) = 0"
    by (simp_all add: i64_def signed_take_bit_eq_take_bit_minus take_bit_eq_mod bit_iff_odd)
  ultimately show ?thesis unfolding s by blast
qed

theorem scale_dt_overflow_witness: "scale_dt 3 65536 = 0 \<and> scale_dt 3 32768 = - (2 ^ 63)"
  using scale_dt_overflow [of 3] by simp

section \<open>The retarget returns a bounded target\<close>

definition env_ok :: "ChainEnv \<Rightarrow> int \<Rightarrow> bool" where
  "env_ok env H \<longleftrightarrow>
     (\<forall>h n. NodeByHeight env h = Some n \<longrightarrow> Height n = h \<and> linked n)
     \<and> (\<forall>h. 0 \<le> h \<and> h \<le> H \<longrightarrow> NodeByHeight env h \<noteq> None)"

text \<open>What the retarget needs of a block of the round: its references can be resolved.\<close>

definition resolvable :: "ChainEnv \<Rightarrow> int \<Rightarrow> miner_node \<Rightarrow> bool" where
  "resolvable env H n \<longleftrightarrow>
     (case NodeByHash env (BestBlock (Data n)) of None \<Rightarrow> False | Some bb \<Rightarrow> linked bb \<and> Height bb \<le> H)
     \<and> (case Utxos (Data n) of None \<Rightarrow> True | Some op \<Rightarrow> TxOutValue env op \<noteq> None)"

lemma waiting_list_returns:
  assumes "env_ok env H"
  shows "linked mb \<Longrightarrow> Height mb \<le> H \<Longrightarrow> nat (Height mb) + 2 \<le> fuel \<Longrightarrow>
    \<exists>r. waiting_list fuel env (Some mb) dh = Some (Inr r)"
proof (induction "nat (Height mb)" arbitrary: mb fuel dh rule: less_induct)
  case less
  obtain f where f: "fuel = Suc (Suc f)" "nat (Height mb) \<le> f"
    using less.prems(3) by (metis Suc_le_D Suc_le_mono add_2_eq_Suc')
  have h0: "0 \<le> Height mb" using linked_Height [OF less.prems(1)] .
  have rec: "\<exists>r. waiting_list (Suc f) env (Some n) dh' = Some (Inr r)"
    if "linked n" "Height n < Height mb" for n dh'
    using less.hyps [of n "Suc f" dh'] that less.prems(2) f(2) linked_Height [OF that(1)]
    by (auto simp: nat_less_iff)
  have nb: "Height n = h \<and> linked n" if "NodeByHeight env h = Some n" for h n
    using assms that by (auto simp: env_ok_def)
  show ?case
  proof (cases "GetNonce (Data mb) > - MINER_RORATE_FREQ")
    case True
    show ?thesis
    proof (cases "GetNonce (Data mb) < 0")
      case neg: True
      then show ?thesis using True f nb rec
        by (cases "NodeByHeight env (Height mb + GetNonce (Data mb))") auto
    next
      case pos: False
      show ?thesis
      proof (cases "ParentNode env mb")
        case None
        have "Height mb = 0"
        proof (rule ccontr)
          assume "Height mb \<noteq> 0"
          then have "NodeByHeight env (Height mb - 1) = None"
            using None by (auto simp: ParentNode_def split: if_splits)
          moreover have "0 \<le> Height mb - 1" "Height mb - 1 \<le> H"
            using h0 \<open>Height mb \<noteq> 0\<close> less.prems(2) by auto
          ultimately show False using assms unfolding env_ok_def by blast
        qed
        then show ?thesis using True pos f None by simp
      next
        case (Some p)
        have "linked p \<and> Height p < Height mb"
          using Some nb linked_Parent [OF less.prems(1)] by (auto simp: ParentNode_def split: if_splits)
        then show ?thesis using True pos f Some rec by auto
      qed
    qed
  qed (simp add: f)
qed

lemma collect_returns:
  assumes "resolvable env H n" "0 < blocksPerRetarget b" "blocksPerRetarget b \<le> int (length (collaterals b))"
  shows "\<exists>acc'. collect_collateral env b n acc = Some acc'"
proof -
  have "Height n mod blocksPerRetarget b < int (length (collaterals b))"
    using assms(2,3) pos_mod_bound [of "blocksPerRetarget b" "Height n"] by linarith
  then show ?thesis using assms(1)
    by (auto simp: collect_collateral_def resolvable_def Let_def split: option.splits prod.splits)
qed

lemma normalized_returns:
  assumes "env_ok env H" "0 < blocksPerRetarget b" "blocksPerRetarget b \<le> int (length (collaterals b))"
  shows "i < length (path n) \<Longrightarrow> \<forall>m \<in> set (path n). resolvable env H m \<Longrightarrow>
    \<exists>t' c h. normalized_timespan env b i (Some n) t acc = Some (Span t' c h)"
proof (induction i arbitrary: n t acc)
  case 0
  then show ?case by (cases acc) simp
next
  case (Suc i)
  have rn: "resolvable env H n" using Suc.prems(2) by auto
  obtain acc' where c: "collect_collateral env b n acc = Some acc'"
    using collect_returns [OF rn assms(2,3)] by blast
  obtain bb where bb: "NodeByHash env (BestBlock (Data n)) = Some bb" "linked bb" "Height bb \<le> H"
    using rn by (auto simp: resolvable_def split: option.splits)
  obtain mb dh where w: "waiting_list (waiting_fuel bb) env (Some bb) 0 = Some (Inr (mb, dh))"
    using waiting_list_returns [OF assms(1) bb(2,3), of "waiting_fuel bb" 0]
    by (auto simp: waiting_fuel_def simp del: waiting_list.simps)
  obtain p where p: "Parent n = Some p" using Suc.prems(1) path_no_Parent [of n] by (cases "Parent n") auto
  then have "i < length (path p)" "\<forall>m \<in> set (path p). resolvable env H m"
    using Suc.prems path_Parent [OF p] by auto
  then show ?case using Suc.IH [of p] c bb w p by (simp add: Let_def)
qed

lemma compact_le:
  assumes "0 \<le> n" "n < 2 ^ 256"
  shows "0 \<le> CompactToBig (BigToCompact n) \<and> CompactToBig (BigToCompact n) \<le> n"
proof (cases "n = 0")
  case True
  then show ?thesis by (simp add: BigToCompact_def CompactToBig_def Let_def)
next
  case False
  then obtain N where N: "n = int N" "0 < N" using assms(1) by (metis order_le_less pos_int_cases)
  have "N < 2 ^ 256" using assms(2) unfolding N(1) by (metis of_nat_less_iff of_nat_numeral of_nat_power)
  from compact_value [OF N(2) this] show ?thesis unfolding N(1) by (auto simp: of_nat_diff)
qed

lemma adjust_target_bounds:
  assumes "0 < TargetTimespan b" "0 \<le> minRetargetTimespan b" "minRetargetTimespan b \<le> maxRetargetTimespan b"
    and "0 \<le> CompactToBig bits" "PowLimit b < 2 ^ 256"
    and "0 \<le> CompactToBig (PowLimitBits b)" "CompactToBig (PowLimitBits b) \<le> PowLimit b"
  shows "0 \<le> CompactToBig (adjust_target b bits t) \<and> CompactToBig (adjust_target b bits t) \<le> PowLimit b
    \<and> CompactToBig (adjust_target b bits t) \<le> CompactToBig bits * maxRetargetTimespan b div TargetTimespan b"
proof -
  define a where "a = (if t < minRetargetTimespan b then minRetargetTimespan b
    else if t > maxRetargetTimespan b then maxRetargetTimespan b else t)"
  have a: "0 \<le> a" "a \<le> maxRetargetTimespan b" using assms(2,3) by (auto simp: a_def)
  let ?n = "CompactToBig bits * a div TargetTimespan b"
  have n: "0 \<le> ?n" using a assms(1,4) by (simp add: div_int_pos_iff)
  have le: "?n \<le> CompactToBig bits * maxRetargetTimespan b div TargetTimespan b"
    using a assms(1,4) by (intro zdiv_mono1 mult_left_mono) auto
  have t: "adjust_target b bits t = (if ?n \<le> PowLimit b then BigToCompact ?n else PowLimitBits b)"
    unfolding adjust_target_def Let_def a_def ..
  show ?thesis
  proof (cases "?n \<le> PowLimit b")
    case True
    then show ?thesis using compact_le [OF n] assms(5) le t by auto
  next
    case False
    then show ?thesis using assms(6,7) le t by auto
  qed
qed

text \<open>
  C15: A retarget returns, and within its limits. At the last block of a round, on a chain loaded
  down to its genesis block whose references can be resolved in the transaction chain, the code
  neither panics nor fails: it returns a target that is not negative, at most the proof of work
  limit, and at most \<open>maxRetargetTimespan / TargetTimespan\<close> times the old one; the state of
  the chain is unchanged.
\<close>

theorem retarget_bounded:
  assumes "linked n" "rooted n" "\<forall>m \<in> set (path n). resolvable env H m" "env_ok env H"
    and "1 < blocksPerRetarget b" "blocksPerRetarget b \<le> int (length (collaterals b))"
    and "blocksPerRetarget b + 10 \<le> Height n" "(Height n + 1) mod blocksPerRetarget b = 0"
    and "0 < TargetTimespan b" "0 \<le> minRetargetTimespan b" "minRetargetTimespan b \<le> maxRetargetTimespan b"
    and "0 \<le> CompactToBig (GetBits (Data n))" "PowLimit b < 2 ^ 256"
    and "0 \<le> CompactToBig (PowLimitBits b)" "CompactToBig (PowLimitBits b) \<le> PowLimit b"
  shows "\<exists>bits coll. calcNextRequiredDifficulty env b (Some n) = Some ((bits, coll, None), b)
    \<and> 0 \<le> CompactToBig bits \<and> CompactToBig bits \<le> PowLimit b
    \<and> CompactToBig bits \<le> CompactToBig (GetBits (Data n)) * maxRetargetTimespan b div TargetTimespan b"
proof -
  let ?B = "blocksPerRetarget b" and ?old = "CompactToBig (GetBits (Data n))"
  obtain k where k: "Height n + 1 = ?B * k" using assms(8) by (auto simp: mod_eq_0_iff_dvd dvd_def)
  have "k \<ge> 2"
  proof (rule ccontr)
    assume "\<not> k \<ge> 2"
    then have "?B * k \<le> ?B * 1" using assms(5) by (intro mult_left_mono) auto
    then show False using k assms(7) by simp
  qed
  then have "?B * 2 \<le> ?B * k" using assms(5) by (intro mult_left_mono) auto
  then have H: "2 * ?B - 1 \<le> Height n" using k by simp
  obtain f where f: "RelativeAncestor n (?B - 1) = Some f" "f \<in> set (path n)" "Height f = Height n - (?B - 1)"
  proof -
    have ex: "length (path n) = nat (Height n) + 1" using assms(1,2) rooted_length by blast
    have "nat (Height n - (Height n - (?B - 1))) < length (path n)" using ex assms(5) H by simp
    then obtain f where "Ancestor n (Height n - (?B - 1)) = Some f"
      using assms(1,5) H by (auto simp: Ancestor_eq)
    then show ?thesis using that Ancestor_in_path [OF assms(1)] unfolding RelativeAncestor_def by blast
  qed
  have pf: "set (path f) \<subseteq> set (path n)" "nat (?B - 1) < length (path f)"
  proof -
    obtain i where i: "i < length (path n)" "f = path n ! i" using f(2) by (auto simp: in_set_conv_nth)
    show "set (path f) \<subseteq> set (path n)" unfolding i(2) path_suffix [OF i(1)] by (rule set_drop_subset)
    have "int i = ?B - 1" using path_nth_Height [OF assms(1) i(1)] f(3) i(2) by simp
    moreover have "length (path n) = nat (Height n) + 1" using assms(1,2) rooted_length by blast
    ultimately show "nat (?B - 1) < length (path f)"
      unfolding i(2) path_suffix [OF i(1)] using H assms(5) by simp
  qed
  obtain t c h where "normalized_timespan env b (nat (?B - 1)) (Some f) 0 (0x7FFFFFFF, False) = Some (Span t c h)"
    using normalized_returns [OF assms(4) _ assms(6) pf(2)] assms(3,5) pf(1) by fastforce
  then have r: "\<exists>coll. calcNextRequiredDifficulty env b (Some n) =
      Some ((adjust_target b (GetBits (Data n)) t, coll, None), b)"
    using assms(7,8) f(1) by (simp add: calcNextRequiredDifficulty_def Let_def)
  have "0 \<le> CompactToBig (adjust_target b (GetBits (Data n)) t)
    \<and> CompactToBig (adjust_target b (GetBits (Data n)) t) \<le> PowLimit b
    \<and> CompactToBig (adjust_target b (GetBits (Data n)) t) \<le> ?old * maxRetargetTimespan b div TargetTimespan b"
    by (rule adjust_target_bounds) (use assms in auto)
  then show ?thesis using r by blast
qed

lemma sample_miner_chain_ok:
  "rooted (sample_miner_chain h)" "\<forall>m \<in> set (path (sample_miner_chain h)). resolvable sample_env 0 m"
proof -
  have "Height (last (path (sample_miner_chain h))) = 0 \<and> (\<forall>m \<in> set (path (sample_miner_chain h)). Data m = sample_miner_data)"
    by (induction h) auto
  then show "rooted (sample_miner_chain h)" "\<forall>m \<in> set (path (sample_miner_chain h)). resolvable sample_env 0 m"
    by (auto simp: rooted_def resolvable_def sample_env_def sample_miner_data_def sample_genesis_def)
qed

theorem retarget_bounded_witness:
  "\<exists>bits coll. calcNextRequiredDifficulty sample_env sample_miner (Some (sample_miner_chain 23))
      = Some ((bits, coll, None), sample_miner)
    \<and> 0 \<le> CompactToBig bits \<and> CompactToBig bits \<le> 2 ^ 240 - 1"
proof -
  have l: "linked (sample_miner_chain 23)" "Height (sample_miner_chain 23) = 23"
    using linked_sample_miner_chain [of 23] by auto
  have e: "env_ok sample_env 0" by (auto simp: env_ok_def sample_env_def sample_genesis_def)
  have "CompactToBig 0x1d00ffff = 0xffff * 2 ^ 208" "CompactToBig 0x1e000ff0 = 0xff0 * 2 ^ 216"
    by (simp_all add: CompactToBig_def Let_def push_bit_eq_mult)
  then have c: "0 \<le> CompactToBig (GetBits (Data (sample_miner_chain 23)))"
    "0 \<le> CompactToBig (PowLimitBits sample_miner)"
    "CompactToBig (PowLimitBits sample_miner) \<le> PowLimit sample_miner"
    by (simp_all add: sample_miner_data_def sample_miner_def)
  have p: "1 < blocksPerRetarget sample_miner" "blocksPerRetarget sample_miner \<le> int (length (collaterals sample_miner))"
    "blocksPerRetarget sample_miner + 10 \<le> Height (sample_miner_chain 23)"
    "(Height (sample_miner_chain 23) + 1) mod blocksPerRetarget sample_miner = 0"
    "0 < TargetTimespan sample_miner" "0 \<le> minRetargetTimespan sample_miner"
    "minRetargetTimespan sample_miner \<le> maxRetargetTimespan sample_miner" "PowLimit sample_miner < 2 ^ 256"
    unfolding l(2) by (simp_all add: sample_miner_def)
  from retarget_bounded [OF l(1) sample_miner_chain_ok e p(1-7) c(1) p(8) c(2,3)]
  show ?thesis by (auto simp: sample_miner_def)
qed

end
