(* ===== verification/Treap.thy ===== *)
theory Treap
  imports Zent_Prelude "HOL-Library.List_Lexorder"
begin

text \<open>
  The ordered maps of \<^verbatim>\<open>btcd/database/internal/treap\<close>: the parent stack of
  \<^verbatim>\<open>common.go\<close>, the immutable treap of \<^verbatim>\<open>immutable.go\<close> and the mutable one of
  \<^verbatim>\<open>mutable.go\<close>. Keys are compared by \<open>bytes.Compare\<close>, the lexicographic order on byte
  lists. The pointers of a treap are owned by it, so a node is a tree; the parents that the code
  collects on its way down are frames, a parent without the child the walk went to, and relinking a
  parent to a new child is plugging the child into its frame. The random priority of a new node is an
  argument. Sizes are 64 bit words.
\<close>

section \<open>The parent stack\<close>

definition staticDepth :: nat where "staticDepth = 128"

record 'a parentStack =
  stk_index :: nat
  stk_items :: "'a option list"
  overflow :: "'a option list"

definition newParentStack :: "'a parentStack" where
  "newParentStack = \<lparr> stk_index = 0, stk_items = replicate staticDepth None, overflow = [] \<rparr>"

definition stk_Len :: "'a parentStack \<Rightarrow> nat" where
  "stk_Len s = stk_index s"

definition stk_At :: "'a parentStack \<Rightarrow> nat \<Rightarrow> 'a option" where
  "stk_At s n =
     (if stk_index s < n + 1 then None
      else let i = stk_index s - n - 1
           in if i < staticDepth then stk_items s ! i else overflow s ! (i - staticDepth))"

definition stk_Pop :: "'a parentStack \<Rightarrow> 'a option \<times> 'a parentStack" where
  "stk_Pop s =
     (if stk_index s = 0 then (None, s)
      else
        let i = stk_index s - 1
        in if i < staticDepth
           then (stk_items s ! i, s\<lparr> stk_index := i, stk_items := (stk_items s)[i := None] \<rparr>)
           else (overflow s ! (i - staticDepth),
                 s\<lparr> stk_index := i, overflow := (overflow s)[i - staticDepth := None] \<rparr>))"

text \<open>The overflow slice is used up to its capacity, so its length is the capacity.\<close>

definition stk_Push :: "'a \<Rightarrow> 'a parentStack \<Rightarrow> 'a parentStack" where
  "stk_Push node s =
     (if stk_index s < staticDepth
      then s\<lparr> stk_items := (stk_items s)[stk_index s := Some node], stk_index := stk_index s + 1 \<rparr>
      else
        let i = stk_index s - staticDepth;
            ov = (if i + 1 > length (overflow s)
                  then overflow s @ replicate (i + 1 - length (overflow s)) None else overflow s)
        in s\<lparr> overflow := ov[i := Some node], stk_index := stk_index s + 1 \<rparr>)"

section \<open>Nodes\<close>

datatype treapNode =
    Nil_node
  | Node (tleft: treapNode) (tkey: bytes) (tvalue: bytes) (priority: int) (tright: treapNode)

definition nodeFieldsSize :: u64 where "nodeFieldsSize = 72"

definition nodeSize :: "bytes \<Rightarrow> bytes \<Rightarrow> u64" where
  "nodeSize key val = nodeFieldsSize + of_nat (length key + length val)"

definition newTreapNode :: "bytes \<Rightarrow> bytes \<Rightarrow> int \<Rightarrow> treapNode" where
  "newTreapNode key val prio = Node Nil_node key val prio Nil_node"

fun get_node :: "treapNode \<Rightarrow> bytes \<Rightarrow> treapNode" where
  "get_node Nil_node key = Nil_node"
| "get_node (Node l k v p r) key =
     (if key < k then get_node l key
      else if key > k then get_node r key
      else Node l k v p r)"

text \<open>A parent on the stack: its child on the left or on the right is the one below it.\<close>

datatype frame =
    InLeft (fkey: bytes) (fvalue: bytes) (fprio: int) (sibling: treapNode)
  | InRight (sibling: treapNode) (fkey: bytes) (fvalue: bytes) (fprio: int)

fun relink :: "frame \<Rightarrow> treapNode \<Rightarrow> treapNode" where
  "relink (InLeft k v p r) node = Node node k v p r"
| "relink (InRight l k v p) node = Node l k v p node"

fun plug :: "frame list \<Rightarrow> treapNode \<Rightarrow> treapNode" where
  "plug [] node = node"
| "plug (parent # parents) node = plug parents (relink parent node)"

fun descend :: "treapNode \<Rightarrow> bytes \<Rightarrow> frame list \<Rightarrow> frame list \<times> treapNode" where
  "descend Nil_node key parents = (parents, Nil_node)"
| "descend (Node l k v p r) key parents =
     (if key < k then descend l key (InLeft k v p r # parents)
      else if key > k then descend r key (InRight l k v p # parents)
      else (parents, Node l k v p r))"

text \<open>One rotation of a node above its parent.\<close>

fun rotate_over :: "treapNode \<Rightarrow> frame \<Rightarrow> treapNode" where
  "rotate_over (Node l k v p r) (InLeft pk pv pp pr) = Node l k v p (Node r pk pv pp pr)"
| "rotate_over (Node l k v p r) (InRight pl pk pv pp) = Node (Node pl pk pv pp l) k v p r"
| "rotate_over Nil_node parent = relink parent Nil_node"

fun rotate_up :: "treapNode \<Rightarrow> frame list \<Rightarrow> treapNode" where
  "rotate_up node [] = node"
| "rotate_up node (parent # parents) =
     (if priority node \<ge> fprio parent then plug (parent # parents) node
      else rotate_up (rotate_over node parent) parents)"

text \<open>
  The rotations that move the node to delete down to a leaf, where it is disconnected. The result is
  the tree in its place.
\<close>

function sink :: "treapNode \<Rightarrow> bytes \<Rightarrow> bytes \<Rightarrow> int \<Rightarrow> treapNode \<Rightarrow> treapNode" where
  "sink Nil_node k v p Nil_node = Nil_node"
| "sink Nil_node k v p (Node cl ck cv cp cr) = Node (sink Nil_node k v p cl) ck cv cp cr"
| "sink (Node cl ck cv cp cr) k v p Nil_node = Node cl ck cv cp (sink cr k v p Nil_node)"
| "sink (Node ll lk lv lp lr) k v p (Node rl rk rv rp rr) =
     (if lp \<ge> rp
      then Node ll lk lv lp (sink lr k v p (Node rl rk rv rp rr))
      else Node (sink (Node ll lk lv lp lr) k v p rl) rk rv rp rr)"
  by pat_completeness auto
termination by (relation "measure (\<lambda>(l, _, _, _, r). size l + size r)") auto

section \<open>The immutable treap\<close>

record Immutable =
  root :: treapNode
  count :: int
  totalSize :: u64

definition newImmutable :: "treapNode \<Rightarrow> int \<Rightarrow> u64 \<Rightarrow> Immutable" where
  "newImmutable rt cnt sz = \<lparr> root = rt, count = cnt, totalSize = sz \<rparr>"

definition NewImmutable :: Immutable where
  "NewImmutable = newImmutable Nil_node 0 0"

definition Len :: "Immutable \<Rightarrow> int" where "Len t = count t"
definition Size :: "Immutable \<Rightarrow> u64" where "Size t = totalSize t"

definition Has :: "Immutable \<Rightarrow> bytes \<Rightarrow> bool" where
  "Has t key = (get_node (root t) key \<noteq> Nil_node)"

definition Get :: "Immutable \<Rightarrow> bytes \<Rightarrow> bytes option" where
  "Get t key =
     (case get_node (root t) key of Nil_node \<Rightarrow> None | Node l k v p r \<Rightarrow> Some v)"

text \<open>A nil value is stored as the empty slice.\<close>

definition value_or_empty :: "bytes option \<Rightarrow> bytes" where
  "value_or_empty val = (case val of None \<Rightarrow> [] | Some v \<Rightarrow> v)"

definition Put :: "int \<Rightarrow> Immutable \<Rightarrow> bytes \<Rightarrow> bytes option \<Rightarrow> Immutable" where
  "Put rand t key val =
     (let val = value_or_empty val
      in if root t = Nil_node
         then newImmutable (newTreapNode key val rand) 1 (nodeSize key val)
         else case descend (root t) key [] of
                (parents, Node l k v p r) \<Rightarrow>
                  newImmutable (plug parents (Node l k val p r)) (count t)
                    (totalSize t - of_nat (length v) + of_nat (length val))
              | (parents, Nil_node) \<Rightarrow>
                  newImmutable (rotate_up (newTreapNode key val rand) parents) (count t + 1)
                    (totalSize t + nodeSize key val))"

definition Delete :: "Immutable \<Rightarrow> bytes \<Rightarrow> Immutable" where
  "Delete t key =
     (case descend (root t) key [] of
        (parents, Nil_node) \<Rightarrow> t
      | (parents, Node l k v p r) \<Rightarrow>
          if parents = [] \<and> l = Nil_node \<and> r = Nil_node then newImmutable Nil_node 0 0
          else newImmutable (plug parents (sink l k v p r)) (count t - 1) (totalSize t - nodeSize k v))"

text \<open>
  \<open>ForEach\<close> with a callback that updates a state and says whether to go on. The stack holds the
  nodes still to visit, the next one first.
\<close>

fun push_left :: "treapNode \<Rightarrow> treapNode list \<Rightarrow> treapNode list" where
  "push_left Nil_node parents = parents"
| "push_left (Node l k v p r) parents = push_left l (Node l k v p r # parents)"

fun stack_size :: "treapNode list \<Rightarrow> nat" where
  "stack_size [] = 0"
| "stack_size (n # ns) = (case n of Nil_node \<Rightarrow> 1 | Node l k v p r \<Rightarrow> size r + 1) + stack_size ns"

lemma stack_size_push_left: "stack_size (push_left n ns) \<le> size n + stack_size ns"
  by (induction n ns rule: push_left.induct) auto

function each_loop :: "('s \<Rightarrow> bytes \<Rightarrow> bytes \<Rightarrow> 's \<times> bool) \<Rightarrow> 's \<Rightarrow> treapNode list \<Rightarrow> 's" where
  "each_loop fn s [] = s"
| "each_loop fn s (Nil_node # parents) = each_loop fn s parents"
| "each_loop fn s (Node l k v p r # parents) =
     (case fn s k v of
        (s', False) \<Rightarrow> s'
      | (s', True) \<Rightarrow> each_loop fn s' (push_left r parents))"
  by pat_completeness auto
termination
  by (relation "measure (\<lambda>(_, _, ns). stack_size ns)")
    (auto simp: le_imp_less_Suc [OF stack_size_push_left])

definition ForEach :: "('s \<Rightarrow> bytes \<Rightarrow> bytes \<Rightarrow> 's \<times> bool) \<Rightarrow> 's \<Rightarrow> Immutable \<Rightarrow> 's" where
  "ForEach fn s t = each_loop fn s (push_left (root t) [])"

section \<open>The mutable treap\<close>

record Mutable =
  mroot :: treapNode
  mcount :: int
  mtotalSize :: u64

definition NewMutable :: Mutable where
  "NewMutable = \<lparr> mroot = Nil_node, mcount = 0, mtotalSize = 0 \<rparr>"

definition Reset :: "Mutable \<Rightarrow> Mutable" where
  "Reset t = t\<lparr> mcount := 0, mtotalSize := 0, mroot := Nil_node \<rparr>"

text \<open>The node of a key and its parent (with the node cut out), as \<open>get\<close> returns them.\<close>

definition mget :: "Mutable \<Rightarrow> bytes \<Rightarrow> (treapNode \<times> frame option) option" where
  "mget t key =
     (case descend (mroot t) key [] of
        (parents, Nil_node) \<Rightarrow> None
      | (parents, node) \<Rightarrow> Some (node, case parents of [] \<Rightarrow> None | parent # _ \<Rightarrow> Some parent))"

definition mHas :: "Mutable \<Rightarrow> bytes \<Rightarrow> bool" where
  "mHas t key = (mget t key \<noteq> None)"

definition mGet :: "Mutable \<Rightarrow> bytes \<Rightarrow> bytes option" where
  "mGet t key = (case mget t key of None \<Rightarrow> None | Some (node, parent) \<Rightarrow> Some (tvalue node))"

definition mPut :: "int \<Rightarrow> bytes \<Rightarrow> bytes option \<Rightarrow> Mutable \<Rightarrow> Mutable" where
  "mPut rand key val t =
     (let val = value_or_empty val
      in if mroot t = Nil_node
         then t\<lparr> mcount := 1, mtotalSize := nodeSize key val, mroot := newTreapNode key val rand \<rparr>
         else case descend (mroot t) key [] of
                (parents, Node l k v p r) \<Rightarrow>
                  t\<lparr> mtotalSize := mtotalSize t - of_nat (length v) + of_nat (length val),
                     mroot := plug parents (Node l k val p r) \<rparr>
              | (parents, Nil_node) \<Rightarrow>
                  t\<lparr> mcount := mcount t + 1, mtotalSize := mtotalSize t + nodeSize key val,
                     mroot := rotate_up (newTreapNode key val rand) parents \<rparr>)"

definition mDelete :: "bytes \<Rightarrow> Mutable \<Rightarrow> Mutable" where
  "mDelete key t =
     (case mget t key of
        None \<Rightarrow> t
      | Some (Nil_node, parent) \<Rightarrow> t
      | Some (Node l k v p r, parent) \<Rightarrow>
          if parent = None \<and> l = Nil_node \<and> r = Nil_node
          then t\<lparr> mroot := Nil_node, mcount := 0, mtotalSize := 0 \<rparr>
          else t\<lparr> mroot := plug (fst (descend (mroot t) key [])) (sink l k v p r),
                  mcount := mcount t - 1, mtotalSize := mtotalSize t - nodeSize k v \<rparr>)"

definition mForEach :: "('s \<Rightarrow> bytes \<Rightarrow> bytes \<Rightarrow> 's \<times> bool) \<Rightarrow> 's \<Rightarrow> Mutable \<Rightarrow> 's" where
  "mForEach fn s t = each_loop fn s (push_left (mroot t) [])"

section \<open>Proofs: the parent stack is a stack\<close>

text \<open>The interface of a stack of parents: the contents, the top first.\<close>

locale lifo =
  fixes good :: "'s \<Rightarrow> bool" and contents :: "'s \<Rightarrow> 'a list"
    and push :: "'a \<Rightarrow> 's \<Rightarrow> 's" and pop :: "'s \<Rightarrow> 'a option \<times> 's"
    and at_top :: "'s \<Rightarrow> nat \<Rightarrow> 'a option" and len :: "'s \<Rightarrow> nat"
  assumes push_good: "good s \<Longrightarrow> good (push x s) \<and> contents (push x s) = x # contents s"
    and pop_good: "good s \<Longrightarrow> good (snd (pop s)) \<and> contents (snd (pop s)) = tl (contents s)
      \<and> fst (pop s) = (case contents s of [] \<Rightarrow> None | x # _ \<Rightarrow> Some x)"
    and at_contents: "good s \<Longrightarrow> at_top s n = (if n < length (contents s) then Some (contents s ! n) else None)"
    and len_contents: "good s \<Longrightarrow> len s = length (contents s)"
begin

lemma pushes: "good s \<Longrightarrow> good (fold push xs s) \<and> contents (fold push xs s) = rev xs @ contents s"
  by (induction xs arbitrary: s) (auto simp: push_good)

lemma bottom: "good s \<Longrightarrow> contents s \<noteq> [] \<Longrightarrow> at_top s (len s - 1) = Some (last (contents s))"
  by (simp add: at_contents len_contents last_conv_nth)

lemma pushes_pop:
  assumes "good s" "xs \<noteq> []"
  shows "fst (pop (fold push xs s)) = Some (last xs)"
    "contents (snd (pop (fold push xs s))) = rev (butlast xs) @ contents s"
  using pushes [OF assms(1), of xs] pop_good [of "fold push xs s"] assms(2)
  by (cases xs rule: rev_exhaust; simp)+

end

definition stk_cells :: "'a parentStack \<Rightarrow> 'a option list" where
  "stk_cells s = stk_items s @ overflow s"

definition stk_good :: "'a parentStack \<Rightarrow> bool" where
  "stk_good s \<longleftrightarrow> length (stk_items s) = staticDepth \<and> stk_index s \<le> length (stk_cells s)
     \<and> (\<forall>i < stk_index s. stk_cells s ! i \<noteq> None)"

definition stk_contents :: "'a parentStack \<Rightarrow> 'a list" where
  "stk_contents s = rev (map the (take (stk_index s) (stk_cells s)))"

lemma stk_cell:
  assumes "stk_good s" "i < stk_index s"
  shows "(if i < staticDepth then stk_items s ! i else overflow s ! (i - staticDepth)) = stk_cells s ! i"
  using assms by (simp add: stk_good_def stk_cells_def nth_append)

lemma stk_push_good:
  assumes "stk_good s"
  shows "stk_good (stk_Push x s) \<and> stk_contents (stk_Push x s) = x # stk_contents s"
proof -
  let ?n = "stk_index s" and ?s' = "stk_Push x s"
  have idx: "stk_index ?s' = ?n + 1" by (simp add: stk_Push_def Let_def)
  have items: "length (stk_items ?s') = staticDepth"
    using assms by (simp add: stk_Push_def stk_good_def Let_def)
  have cells: "take (?n + 1) (stk_cells ?s') = take ?n (stk_cells s) @ [Some x]"
    and len: "?n + 1 \<le> length (stk_cells ?s')"
  proof -
    have l: "length (stk_items s) = staticDepth" "?n \<le> length (stk_items s) + length (overflow s)"
      using assms by (auto simp: stk_good_def stk_cells_def)
    show "?n + 1 \<le> length (stk_cells ?s')"
      using l by (auto simp: stk_Push_def stk_cells_def Let_def)
    show "take (?n + 1) (stk_cells ?s') = take ?n (stk_cells s) @ [Some x]"
    proof (cases "?n < staticDepth")
      case True
      then show ?thesis using l
        by (simp add: stk_Push_def stk_cells_def take_Suc_conv_app_nth nth_append)
    next
      case False
      then obtain k where k: "?n = staticDepth + k" using le_Suc_ex not_less by blast
      have "k \<le> length (overflow s)" using l k by simp
      then show ?thesis using l k
        by (simp add: stk_Push_def stk_cells_def Let_def take_Suc_conv_app_nth)
    qed
  qed
  have "\<forall>i < ?n + 1. stk_cells ?s' ! i \<noteq> None"
  proof (intro allI impI)
    fix i assume i: "i < ?n + 1"
    have "stk_cells ?s' ! i = take (?n + 1) (stk_cells ?s') ! i" using i by simp
    also have "\<dots> = (take ?n (stk_cells s) @ [Some x]) ! i" by (simp only: cells)
    finally show "stk_cells ?s' ! i \<noteq> None"
      using assms i by (auto simp: stk_good_def nth_append less_Suc_eq)
  qed
  then have "stk_good ?s'" using items len by (simp add: stk_good_def idx)
  moreover have "stk_contents ?s' = x # stk_contents s" by (simp add: stk_contents_def idx cells [simplified])
  ultimately show ?thesis ..
qed

lemma stk_pop_good:
  assumes "stk_good s"
  shows "stk_good (snd (stk_Pop s)) \<and> stk_contents (snd (stk_Pop s)) = tl (stk_contents s)
    \<and> fst (stk_Pop s) = (case stk_contents s of [] \<Rightarrow> None | x # _ \<Rightarrow> Some x)"
proof (cases "stk_index s")
  case 0
  then show ?thesis using assms by (simp add: stk_Pop_def stk_contents_def)
next
  case (Suc n)
  have n: "n < length (stk_cells s)" and some: "stk_cells s ! n \<noteq> None" and len: "length (stk_items s) = staticDepth"
    using assms Suc by (auto simp: stk_good_def)
  have c: "stk_contents s = the (stk_cells s ! n) # rev (map the (take n (stk_cells s)))"
    using Suc n by (simp add: stk_contents_def take_Suc_conv_app_nth)
  let ?s' = "snd (stk_Pop s)"
  have cells: "stk_cells ?s' = (stk_cells s)[n := None]"
    using Suc len by (auto simp: stk_Pop_def stk_cells_def Let_def list_update_append)
  have idx: "stk_index ?s' = n" "length (stk_items ?s') = staticDepth"
    using Suc len by (auto simp: stk_Pop_def Let_def)
  have "fst (stk_Pop s) = stk_cells s ! n"
    using Suc stk_cell [OF assms, of n] by (auto simp: stk_Pop_def Let_def)
  moreover have "stk_good ?s'"
    using assms Suc n idx by (auto simp: stk_good_def cells nth_list_update)
  moreover have "stk_contents ?s' = rev (map the (take n (stk_cells s)))"
    by (simp add: stk_contents_def idx cells)
  ultimately show ?thesis using c some by auto
qed

lemma stk_at_contents:
  assumes "stk_good s"
  shows "stk_At s n = (if n < length (stk_contents s) then Some (stk_contents s ! n) else None)"
proof -
  have l: "length (stk_contents s) = stk_index s" using assms by (simp add: stk_contents_def stk_good_def)
  show ?thesis
  proof (cases "n < stk_index s")
    case True
    let ?i = "stk_index s - n - 1"
    have i: "?i < stk_index s" using True by simp
    have "stk_At s n = (if ?i < staticDepth then stk_items s ! ?i else overflow s ! (?i - staticDepth))"
      using True by (simp add: stk_At_def Let_def)
    then have "stk_At s n = stk_cells s ! ?i" using stk_cell [OF assms i] by (rule trans)
    moreover have "stk_contents s ! n = the (stk_cells s ! ?i)"
      using True assms by (simp add: stk_contents_def rev_nth stk_good_def)
    moreover have "stk_cells s ! ?i \<noteq> None" using assms i by (simp add: stk_good_def)
    ultimately show ?thesis using True l by auto
  qed (simp add: stk_At_def l)
qed

lemma stk_len_contents: "stk_good s \<Longrightarrow> stk_Len s = length (stk_contents s)"
  by (simp add: stk_Len_def stk_contents_def stk_good_def)

interpretation pstack: lifo stk_good stk_contents stk_Push stk_Pop stk_At stk_Len
  by unfold_locales (simp_all add: stk_push_good stk_pop_good stk_at_contents stk_len_contents)

lemma stk_new_good: "stk_good newParentStack" "stk_contents newParentStack = []"
  by (simp_all add: newParentStack_def stk_good_def stk_contents_def stk_cells_def)

text \<open>
  The parent stack behaves as a stack of unbounded depth, also where it grows past its static
  array of 128 entries into the overflow slice: after any pushes on a new stack, \<open>At 0\<close> is the
  last one, \<open>At (Len - 1)\<close> the first one, and popping returns the last one and leaves the
  others.
\<close>

theorem parent_stack_lifo:
  assumes "xs \<noteq> []"
  defines "s \<equiv> fold stk_Push xs newParentStack"
  shows "stk_Len s = length xs \<and> stk_At s 0 = Some (last xs) \<and> stk_At s (stk_Len s - 1) = Some (hd xs)
    \<and> fst (stk_Pop s) = Some (last xs) \<and> stk_contents (snd (stk_Pop s)) = rev (butlast xs)"
proof -
  note p = pstack.pushes [OF stk_new_good(1), of xs, folded s_def]
  have c: "stk_contents s = rev xs" "stk_good s" using p stk_new_good by auto
  show ?thesis
    using c assms(1) pstack.len_contents [OF c(2)] pstack.at_contents [OF c(2), of 0] pstack.bottom [OF c(2)]
      pstack.pushes_pop [OF stk_new_good(1) assms(1), folded s_def] stk_new_good(2)
    by (simp add: last_rev hd_conv_nth rev_nth last_conv_nth)
qed

theorem parent_stack_lifo_witness:
  "stk_At (fold stk_Push [1, 2, 3 :: nat] newParentStack) 0 = Some 3"
  using parent_stack_lifo [of "[1, 2, 3 :: nat]"] by simp

section \<open>Proofs: treaps are maps\<close>

fun entries :: "treapNode \<Rightarrow> (bytes \<times> bytes) list" where
  "entries Nil_node = []"
| "entries (Node l k v p r) = entries l @ (k, v) # entries r"

definition bst :: "treapNode \<Rightarrow> bool" where
  "bst t \<longleftrightarrow> sorted_wrt (<) (map fst (entries t))"

fun before :: "frame list \<Rightarrow> (bytes \<times> bytes) list" where
  "before [] = []"
| "before (InLeft k v p r # fs) = before fs"
| "before (InRight l k v p # fs) = before fs @ entries l @ [(k, v)]"

fun after :: "frame list \<Rightarrow> (bytes \<times> bytes) list" where
  "after [] = []"
| "after (InLeft k v p r # fs) = (k, v) # entries r @ after fs"
| "after (InRight l k v p # fs) = after fs"

lemma entries_plug: "entries (plug fs t) = before fs @ entries t @ after fs"
proof (induction fs arbitrary: t)
  case (Cons f fs)
  then show ?case by (cases f) auto
qed simp

lemma entries_rotate_over: "entries (rotate_over t f) = entries (relink f t)"
  by (cases t; cases f) auto

lemma entries_rotate_up: "entries (rotate_up t fs) = before fs @ entries t @ after fs"
proof (induction fs arbitrary: t)
  case (Cons f fs)
  then show ?case
    using entries_plug [of "f # fs" t] by (cases f) (auto simp: entries_rotate_over)
qed simp

lemma entries_sink: "entries (sink l k v p r) = entries l @ entries r"
  by (induction l k v p r rule: sink.induct) auto

lemma descend_plug:
  "descend t key fs = (fs', n) \<Longrightarrow> plug fs' n = plug fs t \<and> (n \<noteq> Nil_node \<longrightarrow> tkey n = key)"
  by (induction t key fs rule: descend.induct) (auto split: if_splits)

lemma descend_get: "snd (descend t key fs) = get_node t key"
  by (induction t key fs rule: descend.induct) auto

text \<open>Where the walk goes, everything to the left is smaller and everything to the right larger.\<close>

lemma descend_sides:
  assumes "descend t key fs = (fs', n)" "bst t"
    and "\<forall>k \<in> fst ` set (before fs). k < key" "\<forall>k \<in> fst ` set (after fs). key < k"
  shows "(\<forall>k \<in> fst ` (set (before fs') \<union> set (entries (case n of Nil_node \<Rightarrow> Nil_node | Node l k v p r \<Rightarrow> l))). k < key)
    \<and> (\<forall>k \<in> fst ` (set (after fs') \<union> set (entries (case n of Nil_node \<Rightarrow> Nil_node | Node l k v p r \<Rightarrow> r))). key < k)"
  using assms
proof (induction t key fs rule: descend.induct)
  case (2 l k v p r key parents)
  have b: "bst l" "bst r" "\<forall>x \<in> fst ` set (entries l). x < k" "\<forall>x \<in> fst ` set (entries r). k < x"
    using 2(4) by (auto simp: bst_def sorted_wrt_append)
  consider "key < k" | "k < key" | "key = k" by fastforce
  then show ?case
  proof cases
    case 1
    then have "\<forall>x \<in> fst ` set (after (InLeft k v p r # parents)). key < x"
      using b(4) 2(6) by auto
    then show ?thesis using 2(1) [OF 1] 2(3,5) b(1) 1 by simp
  next
    case c: 2
    then have "\<forall>x \<in> fst ` set (before (InRight l k v p # parents)). x < key"
      using b(3) 2(5) by auto
    moreover have "\<not> key < k" using c by (rule less_not_sym)
    ultimately show ?thesis using 2(2) [OF _ c] 2(3,6) b(2) c by simp
  next
    case 3
    then show ?thesis using 2(3,5,6) b by auto
  qed
qed auto

definition tmap :: "treapNode \<Rightarrow> bytes \<rightharpoonup> bytes" where
  "tmap t = map_of (entries t)"

text \<open>The tree of a good treap around a key.\<close>

lemma descend_split:
  assumes "bst t" "descend t key [] = (fs, n)"
  shows "entries t = before fs @ entries n @ after fs"
    and "\<forall>k \<in> fst ` set (before fs). k < key" "\<forall>k \<in> fst ` set (after fs). key < k"
    and "n = Node l k v p r \<Longrightarrow> k = key \<and> (\<forall>x \<in> fst ` set (entries l). x < key) \<and> (\<forall>x \<in> fst ` set (entries r). key < x)"
  using descend_plug [OF assms(2)] entries_plug [of fs n] descend_sides [OF assms(2,1)]
  by (auto split: treapNode.splits)

lemma sorted_insert:
  fixes key :: bytes
  assumes "sorted_wrt (<) (map fst (B @ M @ A))" "\<forall>k \<in> fst ` set B. k < key" "\<forall>k \<in> fst ` set A. key < k"
  shows "sorted_wrt (<) (map fst (B @ (key, val) # A))"
  using assms by (auto simp: sorted_wrt_append)

lemma map_of_insert:
  fixes key :: bytes
  assumes "\<forall>k \<in> fst ` set B. k < key" "\<forall>k \<in> fst ` set A. key < k" "\<forall>k \<in> fst ` set M. k = key"
  shows "map_of (B @ (key, val) # A) = (map_of (B @ M @ A))(key \<mapsto> val)"
    and "map_of (B @ A) = (map_of (B @ M @ A))(key := None)"
proof -
  have B: "map_of B key = None" and A: "map_of A key = None" using assms(1,2) by (auto simp: map_of_eq_None_iff)
  have M: "map_of M k = None" if "k \<noteq> key" for k using assms(3) that by (auto simp: map_of_eq_None_iff)
  show "map_of (B @ (key, val) # A) = (map_of (B @ M @ A))(key \<mapsto> val)"
    using B M by (auto simp: map_add_def fun_eq_iff split: option.split)
  show "map_of (B @ A) = (map_of (B @ M @ A))(key := None)"
    using B A M by (auto simp: map_add_def fun_eq_iff split: option.split)
qed

lemma get_node_tmap:
  "bst t \<Longrightarrow> (case get_node t key of Nil_node \<Rightarrow> None | Node l k v p r \<Rightarrow> Some v) = tmap t key"
proof (induction t)
  case (Node l k v p r)
  have b: "bst l" "bst r" "\<forall>x \<in> fst ` set (entries l). x < k" "\<forall>x \<in> fst ` set (entries r). k < x"
    using Node.prems by (auto simp: bst_def sorted_wrt_append)
  have L: "map_of (entries l) key = None" if "\<not> key < k" using b(3) that by (auto simp: map_of_eq_None_iff)
  have R: "map_of (entries r) key = None" if "\<not> k < key" using b(4) that by (auto simp: map_of_eq_None_iff)
  show ?case using Node.IH b(1,2) L R
    by (auto simp: tmap_def map_add_def not_less_iff_gr_or_eq split: option.split)
qed (simp add: tmap_def)

subsection \<open>The good states\<close>

definition entries_size :: "(bytes \<times> bytes) list \<Rightarrow> u64" where
  "entries_size es = (\<Sum>(k, v) \<leftarrow> es. nodeSize k v)"

definition treap_ok :: "Immutable \<Rightarrow> bool" where
  "treap_ok t \<longleftrightarrow> bst (root t) \<and> count t = int (length (entries (root t)))
     \<and> totalSize t = entries_size (entries (root t))"

lemma entries_size_simps [simp]:
  "entries_size [] = 0" "entries_size ((k, v) # es) = nodeSize k v + entries_size es"
  "entries_size (es @ fs) = entries_size es + entries_size fs"
  by (simp_all add: entries_size_def)

lemma Put_ok:
  assumes "treap_ok t"
  shows "treap_ok (Put rand t key val)
    \<and> tmap (root (Put rand t key val)) = (tmap (root t))(key \<mapsto> value_or_empty val)"
proof (cases "root t = Nil_node")
  case True
  then show ?thesis
    by (auto simp: Put_def Let_def newImmutable_def newTreapNode_def treap_ok_def bst_def tmap_def)
next
  case False
  let ?v = "value_or_empty val"
  obtain fs n where d: "descend (root t) key [] = (fs, n)" by (cases "descend (root t) key []")
  have b: "bst (root t)" using assms by (simp add: treap_ok_def)
  note s = descend_split [OF b d]
  show ?thesis
  proof (cases n)
    case Nil_node
    have e: "entries (root (Put rand t key val)) = before fs @ (key, ?v) # after fs"
      using False d Nil_node
      by (simp add: Put_def Let_def newImmutable_def entries_rotate_up newTreapNode_def)
    have "bst (root (Put rand t key val))"
      using sorted_insert [of "before fs" "[]" "after fs"] b s(1-3) Nil_node by (simp add: bst_def e)
    moreover have "tmap (root (Put rand t key val)) = (tmap (root t))(key \<mapsto> ?v)"
      using map_of_insert(1) [of "before fs" key "after fs" "[]"] s(1-3) Nil_node by (simp add: tmap_def e)
    ultimately show ?thesis using assms False d Nil_node s(1)
      by (simp add: treap_ok_def e) (simp add: Put_def Let_def newImmutable_def)
  next
    case (Node l k v p r)
    have k: "k = key" "\<forall>x \<in> fst ` set (entries l). x < key" "\<forall>x \<in> fst ` set (entries r). key < x"
      using s(4) [OF Node] by auto
    let ?B = "before fs @ entries l" and ?A = "entries r @ after fs"
    have o: "entries (root t) = ?B @ [(key, v)] @ ?A" using s(1) Node k by simp
    have e: "entries (root (Put rand t key val)) = ?B @ (key, ?v) # ?A"
      using False d Node k by (simp add: Put_def Let_def newImmutable_def entries_plug)
    have BA: "\<forall>x \<in> fst ` set ?B. x < key" "\<forall>x \<in> fst ` set ?A. key < x" using s(2,3) k by auto
    have "bst (root (Put rand t key val))"
      using sorted_insert [OF _ BA, of "[(key, v)]"] b o by (simp only: bst_def e)
    moreover have "tmap (root (Put rand t key val)) = (tmap (root t))(key \<mapsto> ?v)"
      using map_of_insert(1) [OF BA, of "[(key, v)]" ?v] by (simp add: tmap_def e o del: map_of_append)
    moreover have "totalSize t - of_nat (length v) + of_nat (length ?v) = entries_size (?B @ (key, ?v) # ?A)"
      using assms o by (simp add: treap_ok_def nodeSize_def algebra_simps)
    ultimately show ?thesis using assms False d Node o
      by (simp add: treap_ok_def e) (simp add: Put_def Let_def newImmutable_def)
  qed
qed

lemma Delete_ok:
  assumes "treap_ok t"
  shows "treap_ok (Delete t key) \<and> tmap (root (Delete t key)) = (tmap (root t))(key := None)"
proof -
  obtain fs n where d: "descend (root t) key [] = (fs, n)" by (cases "descend (root t) key []")
  have b: "bst (root t)" using assms by (simp add: treap_ok_def)
  note s = descend_split [OF b d]
  show ?thesis
  proof (cases n)
    case Nil_node
    then have "tmap (root t) = (tmap (root t))(key := None)"
      using map_of_insert(2) [OF s(2,3), of "[]"] s(1) by (simp add: tmap_def)
    then show ?thesis using assms d Nil_node by (simp add: Delete_def)
  next
    case (Node l k v p r)
    have k: "k = key" "\<forall>x \<in> fst ` set (entries l). x < key" "\<forall>x \<in> fst ` set (entries r). key < x"
      using s(4) [OF Node] by auto
    let ?B = "before fs @ entries l" and ?A = "entries r @ after fs"
    have o: "entries (root t) = ?B @ [(key, v)] @ ?A" using s(1) Node k by simp
    have BA: "\<forall>x \<in> fst ` set ?B. x < key" "\<forall>x \<in> fst ` set ?A. key < x" using s(2,3) k by auto
    have e: "entries (root (Delete t key)) = ?B @ ?A"
      using d Node by (auto simp: Delete_def newImmutable_def entries_plug entries_sink)
    have "bst (root (Delete t key))"
      using b by (simp add: bst_def e o sorted_wrt_append)
    moreover have "tmap (root (Delete t key)) = (tmap (root t))(key := None)"
      using map_of_insert(2) [OF BA, of "[(key, v)]"] by (simp add: tmap_def e o del: map_of_append)
    moreover have "count (Delete t key) = int (length (?B @ ?A)) \<and> totalSize (Delete t key) = entries_size (?B @ ?A)"
      using assms d Node k o
      by (auto simp: Delete_def newImmutable_def treap_ok_def algebra_simps)
    ultimately show ?thesis by (simp only: treap_ok_def e simp_thms)
  qed
qed

subsection \<open>The contract of an ordered map\<close>

datatype map_op = OpPut int bytes "bytes option" | OpDelete bytes

fun run_op :: "(int \<Rightarrow> 'm \<Rightarrow> bytes \<Rightarrow> bytes option \<Rightarrow> 'm) \<Rightarrow> ('m \<Rightarrow> bytes \<Rightarrow> 'm) \<Rightarrow> map_op \<Rightarrow> 'm \<Rightarrow> 'm" where
  "run_op put del (OpPut rand k v) m = put rand m k v"
| "run_op put del (OpDelete k) m = del m k"

fun spec_op :: "map_op \<Rightarrow> (bytes \<rightharpoonup> bytes) \<Rightarrow> (bytes \<rightharpoonup> bytes)" where
  "spec_op (OpPut rand k v) m = m(k \<mapsto> value_or_empty v)"
| "spec_op (OpDelete k) m = m(k := None)"

locale byte_map =
  fixes ok :: "'m \<Rightarrow> bool" and empty_map :: 'm and put :: "int \<Rightarrow> 'm \<Rightarrow> bytes \<Rightarrow> bytes option \<Rightarrow> 'm"
    and del :: "'m \<Rightarrow> bytes \<Rightarrow> 'm" and get :: "'m \<Rightarrow> bytes \<Rightarrow> bytes option"
  assumes ok_empty: "ok empty_map" and get_empty: "get empty_map k = None"
    and ok_put: "ok m \<Longrightarrow> ok (put rand m k v)"
    and ok_del: "ok m \<Longrightarrow> ok (del m k)"
    and get_put: "ok m \<Longrightarrow> get (put rand m k v) = (get m)(k \<mapsto> value_or_empty v)"
    and get_del: "ok m \<Longrightarrow> get (del m k) = (get m)(k := None)"
begin

lemma run_op_ok: "ok m \<Longrightarrow> ok (run_op put del opn m) \<and> get (run_op put del opn m) = spec_op opn (get m)"
  by (cases opn) (simp_all add: ok_put ok_del get_put get_del)

lemma run_from: "ok m \<Longrightarrow> ok (fold (run_op put del) ops m)
    \<and> get (fold (run_op put del) ops m) = fold spec_op ops (get m)"
  by (induction ops arbitrary: m) (simp_all add: run_op_ok)

lemma run_spec: "ok (fold (run_op put del) ops empty_map)
    \<and> get (fold (run_op put del) ops empty_map) = fold spec_op ops Map.empty"
proof -
  have "get empty_map = Map.empty" by (simp add: fun_eq_iff get_empty)
  then show ?thesis using run_from [OF ok_empty, of ops] by simp
qed

end

lemma Get_tmap: "treap_ok t \<Longrightarrow> Get t = tmap (root t)"
  by (simp add: fun_eq_iff Get_def get_node_tmap treap_ok_def)

lemma New_ok: "treap_ok NewImmutable" "Get NewImmutable k = None" "tmap (root NewImmutable) k = None"
  by (simp_all add: NewImmutable_def newImmutable_def treap_ok_def bst_def Get_def tmap_def)

interpretation imm: byte_map treap_ok NewImmutable Put Delete Get
  by unfold_locales (simp_all add: New_ok Put_ok Delete_ok Get_tmap)

text \<open>The mutable treap as an immutable one.\<close>

definition frozen :: "Mutable \<Rightarrow> Immutable" where
  "frozen t = newImmutable (mroot t) (mcount t) (mtotalSize t)"

lemma frozen_Put: "frozen (mPut rand k v t) = Put rand (frozen t) k v"
  by (auto simp: frozen_def mPut_def Put_def newImmutable_def Let_def split: prod.splits treapNode.splits)

lemma frozen_Delete: "frozen (mDelete k t) = Delete (frozen t) k"
  by (auto simp: frozen_def mDelete_def Delete_def mget_def newImmutable_def
      split: prod.splits treapNode.splits option.splits list.splits)

lemma frozen_Get: "mGet t k = Get (frozen t) k"
proof -
  obtain fs n where d: "descend (mroot t) k [] = (fs, n)" by (cases "descend (mroot t) k []")
  then have "n = get_node (mroot t) k" using descend_get [of "mroot t" k "[]"] by simp
  then show ?thesis using d
    by (cases n) (auto simp: mGet_def mget_def Get_def frozen_def newImmutable_def split: treapNode.splits)
qed

interpretation mut: byte_map "\<lambda>t. treap_ok (frozen t)" NewMutable "\<lambda>rand t k v. mPut rand k v t" "\<lambda>t k. mDelete k t" mGet
proof unfold_locales
  have f: "frozen NewMutable = NewImmutable" by (simp add: frozen_def NewMutable_def NewImmutable_def newImmutable_def)
  show "treap_ok (frozen NewMutable)" using f New_ok by simp
  show "mGet NewMutable k = None" for k using f New_ok by (simp add: frozen_Get)
  have g: "mGet t = Get (frozen t)" for t by (simp add: fun_eq_iff frozen_Get)
  fix m :: Mutable and rand k v assume "treap_ok (frozen m)"
  then show "treap_ok (frozen (mPut rand k v m))" "treap_ok (frozen (mDelete k m))"
    "mGet (mPut rand k v m) = (mGet m)(k \<mapsto> value_or_empty v)" "mGet (mDelete k m) = (mGet m)(k := None)"
    by (simp_all add: frozen_Put frozen_Delete g imm.ok_put imm.ok_del imm.get_put imm.get_del)
qed

subsection \<open>Iteration\<close>

text \<open>What a callback sees that is called on each entry in turn until it declines.\<close>

fun visit :: "('s \<Rightarrow> bytes \<Rightarrow> bytes \<Rightarrow> 's \<times> bool) \<Rightarrow> 's \<Rightarrow> (bytes \<times> bytes) list \<Rightarrow> 's" where
  "visit fn s [] = s"
| "visit fn s ((k, v) # es) =
     (case fn s k v of (s', False) \<Rightarrow> s' | (s', True) \<Rightarrow> visit fn s' es)"

fun stack_entries :: "treapNode list \<Rightarrow> (bytes \<times> bytes) list" where
  "stack_entries [] = []"
| "stack_entries (Nil_node # ns) = stack_entries ns"
| "stack_entries (Node l k v p r # ns) = (k, v) # entries r @ stack_entries ns"

lemma stack_entries_push_left: "stack_entries (push_left n ns) = entries n @ stack_entries ns"
  by (induction n ns rule: push_left.induct) auto

lemma each_loop_visit: "each_loop fn s ns = visit fn s (stack_entries ns)"
  by (induction fn s ns rule: each_loop.induct)
    (auto simp: stack_entries_push_left split: prod.split bool.split)

lemma ForEach_visit: "ForEach fn s t = visit fn s (entries (root t))"
  by (simp add: ForEach_def each_loop_visit stack_entries_push_left)

lemma visit_collect: "visit (\<lambda>s k v. (s @ [(k, v)], True)) s es = s @ es"
  by (induction es arbitrary: s) auto

text \<open>All the entries, as a caller collects them.\<close>

definition collect :: "Immutable \<Rightarrow> (bytes \<times> bytes) list" where
  "collect t = ForEach (\<lambda>s k v. (s @ [(k, v)], True)) [] t"

lemma collect_entries: "collect t = entries (root t)"
  by (simp add: collect_def ForEach_visit visit_collect)

text \<open>
  C2: Treaps refine finite maps. After any sequence of \<open>Put\<close> and \<open>Delete\<close> on a new
  treap, whatever the random priorities, \<open>Get\<close> and \<open>Has\<close> are those of the map after
  the same updates, \<open>Len\<close> is its number of keys, \<open>Size\<close> (as a 64 bit word) the sum of
  the sizes of its entries, and \<open>ForEach\<close> visits exactly its entries in ascending key order.
\<close>

theorem treap_refines_map:
  defines "run ops \<equiv> fold (run_op Put Delete) ops NewImmutable"
    and "spec ops \<equiv> fold spec_op ops Map.empty"
  shows "Get (run ops) = spec ops \<and> (\<forall>k. Has (run ops) k \<longleftrightarrow> spec ops k \<noteq> None)
    \<and> map_of (collect (run ops)) = spec ops \<and> sorted_wrt (<) (map fst (collect (run ops)))
    \<and> Len (run ops) = int (card (dom (spec ops)))
    \<and> Size (run ops) = (\<Sum>(k, v) \<leftarrow> collect (run ops). nodeSize k v)"
proof -
  let ?t = "run ops"
  have ok: "treap_ok ?t" and g: "Get ?t = spec ops" using imm.run_spec [of ops] by (simp_all add: run_def spec_def)
  have m: "map_of (collect ?t) = spec ops" using Get_tmap [OF ok] g by (simp add: tmap_def collect_entries)
  have s: "sorted_wrt (<) (map fst (collect ?t))" using ok by (simp add: treap_ok_def bst_def collect_entries)
  then have "distinct (map fst (collect ?t))" by (simp add: strict_sorted_iff)
  then have "card (dom (spec ops)) = length (collect ?t)"
    unfolding m [symmetric] dom_map_of_conv_image_fst by (metis distinct_card length_map set_map)
  moreover have "Has ?t k \<longleftrightarrow> Get ?t k \<noteq> None" for k
    by (simp add: Has_def Get_def split: treapNode.split)
  ultimately show ?thesis using ok g m s
    by (simp add: Len_def Size_def treap_ok_def collect_entries entries_size_def)
qed


subsection \<open>Heap order\<close>

fun heap_above :: "int \<Rightarrow> treapNode \<Rightarrow> bool" where
  "heap_above m Nil_node = True"
| "heap_above m (Node l k v p r) = (m \<le> p \<and> heap_above p l \<and> heap_above p r)"

fun heap :: "treapNode \<Rightarrow> bool" where
  "heap Nil_node = True"
| "heap (Node l k v p r) = (heap_above p l \<and> heap_above p r)"

fun frames_heap :: "frame list \<Rightarrow> bool" where
  "frames_heap [] = True"
| "frames_heap [f] = heap_above (fprio f) (sibling f)"
| "frames_heap (f # g # fs) = (heap_above (fprio f) (sibling f) \<and> fprio g \<le> fprio f \<and> frames_heap (g # fs))"

lemma heap_above_mono: "heap_above m t \<Longrightarrow> m' \<le> m \<Longrightarrow> heap_above m' t"
  by (cases t) auto

lemma heap_above_relink: "heap_above m (relink f t) \<longleftrightarrow> m \<le> fprio f \<and> heap_above (fprio f) (sibling f) \<and> heap_above (fprio f) t"
  by (cases f) auto

lemma heap_plug: "heap (plug (f # fs) t) \<longleftrightarrow> frames_heap (f # fs) \<and> heap_above (fprio f) t"
proof (induction fs arbitrary: f t)
  case Nil
  then show ?case by (cases f) auto
next
  case (Cons g fs)
  show ?case using Cons.IH [of g "relink f t"] by (auto simp: heap_above_relink)
qed

lemma rotate_up_heap:
  "frames_heap fs \<Longrightarrow> heap (Node l k v p r)
   \<Longrightarrow> (case fs of [] \<Rightarrow> True | f # _ \<Rightarrow> heap_above (fprio f) l \<and> heap_above (fprio f) r)
   \<Longrightarrow> heap (rotate_up (Node l k v p r) fs)"
proof (induction fs arbitrary: l k v p r)
  case (Cons f fs)
  show ?case
  proof (cases "p \<ge> fprio f")
    case True
    then show ?thesis using Cons.prems heap_plug [of f fs "Node l k v p r"] by simp
  next
    case False
    have fs: "frames_heap fs" "\<And>g gs. fs = g # gs \<Longrightarrow> fprio g \<le> fprio f" "heap_above (fprio f) (sibling f)"
      using Cons.prems(1) by (cases fs; simp)+
    show ?thesis
    proof (cases f)
      case (InLeft pk pv pp pr)
      have "heap (rotate_up (Node l k v p (Node r pk pv pp pr)) fs)"
        using fs Cons.prems(2,3) False InLeft
        by (intro Cons.IH) (auto split: list.split intro: heap_above_mono)
      then show ?thesis using False InLeft by simp
    next
      case (InRight pl pk pv pp)
      have "heap (rotate_up (Node (Node pl pk pv pp l) k v p r) fs)"
        using fs Cons.prems(2,3) False InRight
        by (intro Cons.IH) (auto split: list.split intro: heap_above_mono)
      then show ?thesis using False InRight by simp
    qed
  qed
qed simp

lemma plug_heap_same:
  assumes "heap (plug fs (Node l k v p r))"
  shows "heap (plug fs (Node l k v' p r))"
  using assms heap_plug by (cases fs) auto

text \<open>
  \<open>Put\<close> keeps the min-heap order of the priorities, on both of its branches, for any
  priority drawn for the new node.
\<close>

theorem Put_heap:
  assumes "heap (root t)"
  shows "heap (root (Put rand t key val))"
proof (cases "root t = Nil_node")
  case True
  then show ?thesis by (simp add: Put_def Let_def newImmutable_def newTreapNode_def)
next
  case False
  obtain fs n where d: "descend (root t) key [] = (fs, n)" by (cases "descend (root t) key []")
  have p: "plug fs n = root t" using descend_plug [OF d] by simp
  show ?thesis
  proof (cases n)
    case Nil_node
    then have "frames_heap fs" using assms p heap_plug [of "hd fs" "tl fs" n] by (cases fs) auto
    then have "heap (rotate_up (newTreapNode key (value_or_empty val) rand) fs)"
      unfolding newTreapNode_def by (intro rotate_up_heap) (auto split: list.split)
    then show ?thesis using False d Nil_node by (simp add: Put_def Let_def newImmutable_def)
  next
    case (Node l k v p' r)
    then show ?thesis using False d plug_heap_same [of fs l k v p' r] assms p
      by (simp add: Put_def Let_def newImmutable_def)
  qed
qed

theorem Put_heap_witness:
  "heap (root (Put 7 (Put 3 NewImmutable [1] None) [2] None))"
proof -
  have "heap (root (Put 3 NewImmutable [1] None))"
    by (simp add: Put_def NewImmutable_def newImmutable_def newTreapNode_def Let_def)
  then show ?thesis by (rule Put_heap)
qed

definition heap_sample :: Immutable where
  "heap_sample = Put 3 (Put 1 (Put 5 NewImmutable [1] None) [2] None) [3] None"

text \<open>
  \<open>Delete\<close> does not keep the min-heap order: it rotates the child with the larger priority
  up. The treap with keys 1, 2, 3 and priorities 5, 1, 3 is in heap order, and deleting key 2 leaves
  priority 5 above priority 3.
\<close>

theorem Delete_breaks_heap:
  "heap (root heap_sample) \<and> \<not> heap (root (Delete heap_sample [2]))"
  by (simp add: heap_sample_def Put_def Delete_def NewImmutable_def newImmutable_def newTreapNode_def
      Let_def)

end
