(* ===== verification/Treap_Iter.thy ===== *)
theory Treap_Iter
  imports Treap
begin

text \<open>
  The iterators of \<^verbatim>\<open>btcd/database/internal/treap/treapiter.go\<close>, over the parent stack and the nodes
  of the theory of treaps. A node is the tree below it: keys are distinct in a treap, so two nodes
  other than nil are the same pointer exactly when the trees are equal. An iterator of a mutable
  treap sees its changes when \<open>ForceReseek\<close> is called with the treap of that moment; moving it after a
  change without that call is outside of its contract and not modelled. Keys are not nil.
\<close>

record Iterator =
  it_mutable :: bool
  it_root :: treapNode
  it_node :: treapNode
  it_parents :: "treapNode parentStack"
  isNew :: bool
  seekKey :: "bytes option"
  startKey :: "bytes option"
  limitKey :: "bytes option"

definition newIterator :: "bool \<Rightarrow> treapNode \<Rightarrow> bytes option \<Rightarrow> bytes option \<Rightarrow> Iterator" where
  "newIterator mutbl rt start limit =
     \<lparr> it_mutable = mutbl, it_root = rt, it_node = Nil_node, it_parents = newParentStack, isNew = True,
       seekKey = None, startKey = start, limitKey = limit \<rparr>"

definition Mutable_Iterator :: "Mutable \<Rightarrow> bytes option \<Rightarrow> bytes option \<Rightarrow> Iterator" where
  "Mutable_Iterator t = newIterator True (mroot t)"

definition Immutable_Iterator :: "Immutable \<Rightarrow> bytes option \<Rightarrow> bytes option \<Rightarrow> Iterator" where
  "Immutable_Iterator t = newIterator False (root t)"

definition limitIterator :: "Iterator \<Rightarrow> bool \<times> Iterator" where
  "limitIterator iter =
     (if it_node iter = Nil_node then (False, iter)
      else if (case startKey iter of None \<Rightarrow> False | Some s \<Rightarrow> tkey (it_node iter) < s)
      then (False, iter\<lparr> it_node := Nil_node \<rparr>)
      else if (case limitKey iter of None \<Rightarrow> False | Some l \<Rightarrow> tkey (it_node iter) \<ge> l)
      then (False, iter\<lparr> it_node := Nil_node \<rparr>)
      else (True, iter))"

text \<open>The loop of \<open>seek\<close>: whether it stopped at an exact match, the node of the iterator, the depth of
  the selected node and the parents.\<close>

fun seek_loop ::
  "treapNode \<Rightarrow> bytes \<Rightarrow> bool \<Rightarrow> bool \<Rightarrow> treapNode \<Rightarrow> nat \<Rightarrow> treapNode parentStack
   \<Rightarrow> bool \<times> treapNode \<times> nat \<times> treapNode parentStack" where
  "seek_loop Nil_node key exactMatch upward sel depth parents = (False, sel, depth, parents)"
| "seek_loop (Node l k v p r) key exactMatch upward sel depth parents =
     (let node = Node l k v p r; parents = stk_Push node parents
      in if key < k
         then if upward then seek_loop l key exactMatch upward node (stk_Len parents - 1) parents
              else seek_loop l key exactMatch upward sel depth parents
         else if key > k
         then if \<not> upward then seek_loop r key exactMatch upward node (stk_Len parents - 1) parents
              else seek_loop r key exactMatch upward sel depth parents
         else if exactMatch then (True, node, depth, snd (stk_Pop parents))
         else if upward then seek_loop r key exactMatch upward sel depth parents
         else seek_loop l key exactMatch upward sel depth parents)"

fun pop_times :: "nat \<Rightarrow> 'a parentStack \<Rightarrow> 'a parentStack" where
  "pop_times 0 s = s"
| "pop_times (Suc n) s = pop_times n (snd (stk_Pop s))"

definition seek :: "bytes \<Rightarrow> bool \<Rightarrow> bool \<Rightarrow> Iterator \<Rightarrow> bool \<times> Iterator" where
  "seek key exactMatch upward iter =
     (case seek_loop (it_root iter) key exactMatch upward Nil_node 0 newParentStack of
        (matched, node, depth, parents) \<Rightarrow>
          limitIterator (iter\<lparr> it_node := node,
            it_parents := (if matched then parents else pop_times (stk_Len parents - depth) parents) \<rparr>))"

text \<open>The walk to the left-most node of a tree, or to the right-most one, pushing the nodes above it.\<close>

fun extreme :: "bool \<Rightarrow> treapNode \<Rightarrow> treapNode parentStack \<Rightarrow> treapNode \<times> treapNode parentStack" where
  "extreme leftmost Nil_node parents = (Nil_node, parents)"
| "extreme leftmost (Node l k v p r) parents =
     (if leftmost
      then if l = Nil_node then (Node l k v p r, parents) else extreme leftmost l (stk_Push (Node l k v p r) parents)
      else if r = Nil_node then (Node l k v p r, parents) else extreme leftmost r (stk_Push (Node l k v p r) parents))"

text \<open>\<open>First\<close> and \<open>Last\<close> leave the node of the iterator when the treap is empty.\<close>

definition to_end :: "bool \<Rightarrow> Iterator \<Rightarrow> bool \<times> Iterator" where
  "to_end leftmost iter =
     (if it_root iter = Nil_node then (False, iter\<lparr> it_parents := newParentStack \<rparr>)
      else case extreme leftmost (it_root iter) newParentStack of
             (node, parents) \<Rightarrow> (True, iter\<lparr> it_node := node, it_parents := parents \<rparr>))"

definition First :: "Iterator \<Rightarrow> bool \<times> Iterator" where
  "First iter =
     (let iter = iter\<lparr> isNew := False \<rparr>
      in case startKey iter of Some s \<Rightarrow> seek s True True iter | None \<Rightarrow> to_end True iter)"

definition Last :: "Iterator \<Rightarrow> bool \<times> Iterator" where
  "Last iter =
     (let iter = iter\<lparr> isNew := False \<rparr>
      in case limitKey iter of Some l \<Rightarrow> seek l False False iter | None \<Rightarrow> to_end False iter)"

text \<open>The walk up the parents: as long as the node is the child of its parent on the given side.\<close>

lemma stk_Pop_less: "(Some x, s') = stk_Pop s \<Longrightarrow> stk_index s' < stk_index s"
  by (auto simp: stk_Pop_def Let_def split: if_splits)

function climb :: "(treapNode \<Rightarrow> treapNode) \<Rightarrow> treapNode \<Rightarrow> treapNode parentStack \<Rightarrow> treapNode \<times> treapNode parentStack" where
  "climb child node parents =
     (case stk_Pop parents of
        (None, parents') \<Rightarrow> (Nil_node, parents')
      | (Some parent, parents') \<Rightarrow> if child parent = node then climb child parent parents' else (parent, parents'))"
  by pat_completeness auto
termination
  by (relation "measure (\<lambda>(_, _, s). stk_index s)") (auto dest: stk_Pop_less)

declare climb.simps [simp del]

text \<open>The common part of \<open>Next\<close> and \<open>Prev\<close> for an iterator that is positioned and has no key to reseek;
  \<open>child\<close> is the child in the direction of the move.\<close>

definition move :: "bool \<Rightarrow> (treapNode \<Rightarrow> treapNode) \<Rightarrow> Iterator \<Rightarrow> bool \<times> Iterator" where
  "move forward child iter =
     (case (if child (it_node iter) = Nil_node then climb child (it_node iter) (it_parents iter)
            else extreme forward (child (it_node iter)) (stk_Push (it_node iter) (it_parents iter))) of
        (node, parents) \<Rightarrow> limitIterator (iter\<lparr> it_node := node, it_parents := parents \<rparr>))"

definition Next :: "Iterator \<Rightarrow> bool \<times> Iterator" where
  "Next iter =
     (if isNew iter then First iter
      else if it_node iter = Nil_node then (False, iter)
      else case seekKey iter of
             Some key \<Rightarrow> seek key False True (iter\<lparr> seekKey := None \<rparr>)
           | None \<Rightarrow> move True tright iter)"

definition Prev :: "Iterator \<Rightarrow> bool \<times> Iterator" where
  "Prev iter =
     (if isNew iter then Last iter
      else if it_node iter = Nil_node then (False, iter)
      else case seekKey iter of
             Some key \<Rightarrow> seek key False False (iter\<lparr> seekKey := None \<rparr>)
           | None \<Rightarrow> move False tleft iter)"

definition Seek :: "bytes \<Rightarrow> Iterator \<Rightarrow> bool \<times> Iterator" where
  "Seek key iter = seek key True True (iter\<lparr> isNew := False \<rparr>)"

definition Key :: "Iterator \<Rightarrow> bytes option" where
  "Key iter = (if it_node iter = Nil_node then None else Some (tkey (it_node iter)))"

definition Iterator_Value :: "Iterator \<Rightarrow> bytes option" where
  "Iterator_Value iter = (if it_node iter = Nil_node then None else Some (tvalue (it_node iter)))"

definition Valid :: "Iterator \<Rightarrow> bool" where
  "Valid iter \<longleftrightarrow> it_node iter \<noteq> Nil_node"

definition ForceReseek :: "Mutable \<Rightarrow> Iterator \<Rightarrow> Iterator" where
  "ForceReseek t iter =
     (if \<not> it_mutable iter then iter else iter\<lparr> it_root := mroot t, seekKey := Key iter \<rparr>)"

section \<open>Proofs\<close>

text \<open>
  The position of an iterator is a zipper: the frames of the walk from the root to its node. The
  parents on the stack are the trees below the frames.
\<close>

fun nodes_of :: "frame list \<Rightarrow> treapNode \<Rightarrow> treapNode list" where
  "nodes_of [] n = []"
| "nodes_of (f # fs) n = relink f n # nodes_of fs (relink f n)"

definition placed :: "frame list \<Rightarrow> treapNode \<Rightarrow> treapNode parentStack \<Rightarrow> bool" where
  "placed fs n st \<longleftrightarrow> stk_good st \<and> stk_contents st = nodes_of fs n"

text \<open>Both directions at once: what lies ahead of a position, in the order of the move.\<close>

definition in_order :: "bool \<Rightarrow> treapNode \<Rightarrow> (bytes \<times> bytes) list" where
  "in_order fwd t = (if fwd then entries t else rev (entries t))"

definition ahead :: "bool \<Rightarrow> frame list \<Rightarrow> (bytes \<times> bytes) list" where
  "ahead fwd fs = (if fwd then after fs else rev (before fs))"

definition behind :: "bool \<Rightarrow> frame list \<Rightarrow> (bytes \<times> bytes) list" where
  "behind fwd fs = (if fwd then before fs else rev (after fs))"

definition child :: "bool \<Rightarrow> treapNode \<Rightarrow> treapNode" where
  "child fwd = (if fwd then tright else tleft)"

definition entry :: "treapNode \<Rightarrow> bytes \<times> bytes" where
  "entry n = (tkey n, tvalue n)"

definition todo :: "bool \<Rightarrow> frame list \<Rightarrow> treapNode \<Rightarrow> (bytes \<times> bytes) list" where
  "todo fwd fs n = in_order fwd (child fwd n) @ ahead fwd fs"

definition is_left :: "frame \<Rightarrow> bool" where
  "is_left f = (case f of InLeft _ _ _ _ \<Rightarrow> True | InRight _ _ _ _ \<Rightarrow> False)"

fun above :: "bool \<Rightarrow> frame list \<Rightarrow> treapNode \<Rightarrow> frame list \<times> treapNode" where
  "above fwd [] n = ([], Nil_node)"
| "above fwd (f # fs) n = (if is_left f = fwd then (fs, relink f n) else above fwd fs (relink f n))"

lemma relink_not_nil [simp]: "relink f n \<noteq> Nil_node"
  by (cases f) auto

lemma length_nodes_of [simp]: "length (nodes_of fs n) = length fs"
  by (induction fs arbitrary: n) auto

lemma placed_push: "placed fs n st \<Longrightarrow> n = relink f m \<Longrightarrow> placed (f # fs) m (stk_Push n st)"
  by (simp add: placed_def pstack.push_good)

lemma placed_new: "placed [] n newParentStack"
  by (simp add: placed_def stk_new_good)

lemma ahead_above:
  "ahead fwd fs = (case above fwd fs n of (fs', m) \<Rightarrow> if m = Nil_node then [] else entry m # todo fwd fs' m)"
proof (induction fs arbitrary: n)
  case (Cons f fs)
  then show ?case
    by (cases f) (auto simp: ahead_def is_left_def todo_def in_order_def child_def entry_def)
qed (simp add: ahead_def)

lemma plug_above: "above fwd fs n = (fs', m) \<Longrightarrow> m \<noteq> Nil_node \<Longrightarrow> plug fs' m = plug fs n"
  by (induction fs arbitrary: n) (auto split: if_splits)

lemma nodes_above:
  "above fwd fs n = (fs', m) \<Longrightarrow> nodes_of fs' m = drop (length fs - length fs') (nodes_of fs n) \<and> length fs' \<le> length fs"
proof (induction fs arbitrary: n)
  case (Cons f fs)
  show ?case
  proof (cases "is_left f = fwd")
    case True
    then show ?thesis using Cons.prems by (auto simp: Suc_diff_le)
  next
    case False
    then have "above fwd fs (relink f n) = (fs', m)" using Cons.prems by simp
    from Cons.IH [OF this] show ?thesis by (simp add: Suc_diff_le)
  qed
qed simp

subsection \<open>Distinct keys\<close>

lemma entries_nil [simp]: "entries t = [] \<longleftrightarrow> t = Nil_node"
  by (cases t) auto

lemma bst_plug: "bst (plug fs t) \<Longrightarrow> bst t"
  by (simp add: bst_def entries_plug sorted_wrt_append)

lemma siblings_differ: "bst (relink f n) \<Longrightarrow> n \<noteq> Nil_node \<Longrightarrow> sibling f \<noteq> n"
proof (cases f)
  case (InLeft k v p r)
  assume b: "bst (relink f n)" and n: "n \<noteq> Nil_node"
  have "\<forall>x \<in> fst ` set (entries n). \<forall>y \<in> fst ` set (entries r). x < y"
    using b InLeft by (auto simp: bst_def sorted_wrt_append)
  moreover obtain e where "e \<in> set (entries n)" using n by (cases n) auto
  ultimately show ?thesis using InLeft by fastforce
next
  case (InRight l k v p)
  assume b: "bst (relink f n)" and n: "n \<noteq> Nil_node"
  have "\<forall>x \<in> fst ` set (entries l). \<forall>y \<in> fst ` set (entries n). x < y"
    using b InRight by (auto simp: bst_def sorted_wrt_append)
  moreover obtain e where "e \<in> set (entries n)" using n by (cases n) auto
  ultimately show ?thesis using InRight by fastforce
qed

lemma child_test: "bst (relink f n) \<Longrightarrow> n \<noteq> Nil_node \<Longrightarrow> child fwd (relink f n) = n \<longleftrightarrow> is_left f \<noteq> fwd"
  using siblings_differ [of f n] by (cases f; cases fwd) (auto simp: child_def is_left_def)

subsection \<open>The walks\<close>

lemma climb_above:
  assumes "placed fs n st" "n \<noteq> Nil_node" "bst (plug fs n)"
  shows "fst (climb (child fwd) n st) = snd (above fwd fs n)
    \<and> (snd (above fwd fs n) \<noteq> Nil_node \<longrightarrow> placed (fst (above fwd fs n)) (snd (above fwd fs n)) (snd (climb (child fwd) n st)))"
  using assms
proof (induction fs arbitrary: n st)
  case Nil
  then have "fst (stk_Pop st) = None" using pstack.pop_good [of st] by (simp add: placed_def)
  then show ?case by (cases "stk_Pop st") (simp add: climb.simps)
next
  case (Cons f fs)
  have pop: "fst (stk_Pop st) = Some (relink f n)" "placed fs (relink f n) (snd (stk_Pop st))"
    using Cons.prems(1) pstack.pop_good [of st] by (auto simp: placed_def)
  have "bst (relink f n)" using Cons.prems(3) bst_plug [of fs "relink f n"] by simp
  note t = child_test [OF this Cons.prems(2), of fwd]
  obtain st' where st': "stk_Pop st = (Some (relink f n), st')" using pop(1) by (cases "stk_Pop st") auto
  show ?case
  proof (cases "is_left f = fwd")
    case True
    then show ?thesis using pop(2) st' t by (subst (1 2) climb.simps) simp
  next
    case False
    then show ?thesis using Cons.IH [of "relink f n" st'] Cons.prems(3) pop(2) st' t by (subst (1 2) climb.simps) simp
  qed
qed

lemma extreme_placed:
  assumes "placed fs n st" "n \<noteq> Nil_node"
  shows "\<exists>fs' m st'. extreme fwd n st = (m, st') \<and> placed fs' m st' \<and> m \<noteq> Nil_node \<and> plug fs' m = plug fs n
    \<and> in_order fwd n @ ahead fwd fs = entry m # todo fwd fs' m"
  using assms
proof (induction n arbitrary: fs st)
  case (Node l k v p r)
  let ?n = "Node l k v p r"
  show ?case
  proof (cases "(if fwd then l else r) = Nil_node")
    case True
    then show ?thesis using Node.prems
      by (intro exI [of _ fs] exI [of _ ?n] exI [of _ st]) (cases fwd; simp add: in_order_def todo_def entry_def child_def)
  next
    case False
    let ?f = "if fwd then InLeft k v p r else InRight l k v p" and ?c = "if fwd then l else r"
    have pl: "placed (?f # fs) ?c (stk_Push ?n st)" using Node.prems by (intro placed_push) (simp_all split: if_splits)
    have "\<exists>fs' m st'. extreme fwd ?c (stk_Push ?n st) = (m, st') \<and> placed fs' m st' \<and> m \<noteq> Nil_node \<and> plug fs' m = plug (?f # fs) ?c
      \<and> in_order fwd ?c @ ahead fwd (?f # fs) = entry m # todo fwd fs' m"
      using Node.IH(1) [of "?f # fs" "stk_Push ?n st"] Node.IH(2) [of "?f # fs" "stk_Push ?n st"] pl False by (cases fwd) simp_all
    moreover have "extreme fwd ?n st = extreme fwd ?c (stk_Push ?n st)" using False by (cases fwd) simp_all
    moreover have "plug (?f # fs) ?c = plug fs ?n" by (cases fwd) simp_all
    moreover have "in_order fwd ?c @ ahead fwd (?f # fs) = in_order fwd ?n @ ahead fwd fs"
      by (cases fwd) (simp_all add: in_order_def ahead_def)
    ultimately show ?thesis by simp
  qed
qed simp

subsection \<open>Order in the direction of the move\<close>

definition beyond :: "bool \<Rightarrow> bytes \<Rightarrow> bytes \<Rightarrow> bool" where
  "beyond fwd a b = (if fwd then a < b else b < a)"

definition reach :: "bool \<Rightarrow> bool \<Rightarrow> bytes \<Rightarrow> bytes \<Rightarrow> bool" where
  "reach fwd exact a b \<longleftrightarrow> beyond fwd a b \<or> (exact \<and> a = b)"

abbreviation ordered :: "bool \<Rightarrow> (bytes \<times> bytes) list \<Rightarrow> bool" where
  "ordered fwd \<equiv> sorted_wrt (\<lambda>a b. beyond fwd (fst a) (fst b))"

lemma ordered_bst: "bst t \<Longrightarrow> ordered fwd (in_order fwd t)"
  by (cases fwd) (simp_all add: bst_def in_order_def beyond_def sorted_wrt_map sorted_wrt_rev)

lemma in_order_plug: "in_order fwd (plug fs t) = behind fwd fs @ in_order fwd t @ ahead fwd fs"
  by (cases fwd) (simp_all add: in_order_def behind_def ahead_def entries_plug)

lemma in_order_node: "n \<noteq> Nil_node \<Longrightarrow> in_order fwd n = in_order fwd (child (\<not> fwd) n) @ entry n # in_order fwd (child fwd n)"
  by (cases n; cases fwd) (simp_all add: in_order_def child_def entry_def)

lemma in_order_split:
  "n \<noteq> Nil_node \<Longrightarrow> in_order fwd (plug fs n) = (behind fwd fs @ in_order fwd (child (\<not> fwd) n)) @ entry n # todo fwd fs n"
  by (simp add: in_order_plug in_order_node todo_def)

lemma beyond_irrefl: "beyond fwd a b \<Longrightarrow> \<not> beyond fwd b a" "\<not> beyond fwd a a"
  by (auto simp: beyond_def split: if_splits)

lemma beyond_neg: "\<not> beyond fwd a b \<longleftrightarrow> a = b \<or> beyond (\<not> fwd) a b"
  by (auto simp: beyond_def)

lemma filter_beyond:
  assumes "ordered fwd (xs @ e # ys)"
  shows "filter (\<lambda>x. beyond fwd (fst e) (fst x)) (xs @ e # ys) = ys"
    "filter (\<lambda>x. reach fwd True (fst e) (fst x)) (xs @ e # ys) = e # ys"
proof -
  have "filter (\<lambda>x. beyond fwd (fst e) (fst x)) xs = []" "filter (\<lambda>x. reach fwd True (fst e) (fst x)) xs = []"
    using assms by (auto simp: filter_empty_conv sorted_wrt_append reach_def dest: beyond_irrefl(1)) (auto simp: beyond_irrefl)
  moreover have "filter (\<lambda>x. beyond fwd (fst e) (fst x)) ys = ys" "filter (\<lambda>x. reach fwd True (fst e) (fst x)) ys = ys"
    using assms by (auto simp: filter_id_conv sorted_wrt_append reach_def)
  ultimately show "filter (\<lambda>x. beyond fwd (fst e) (fst x)) (xs @ e # ys) = ys"
    "filter (\<lambda>x. reach fwd True (fst e) (fst x)) (xs @ e # ys) = e # ys"
    by (simp_all add: beyond_irrefl reach_def)
qed

lemma filter_next:
  assumes "ordered fwd zs" "filter (\<lambda>x. P (fst x)) zs = e # ys" "\<And>a b. P a \<Longrightarrow> beyond fwd a b \<Longrightarrow> P b"
  shows "filter (\<lambda>x. beyond fwd (fst e) (fst x)) zs = ys"
proof -
  obtain us vs where z: "zs = us @ e # vs" "\<forall>u \<in> set us. \<not> P (fst u)" "P (fst e)" "ys = filter (\<lambda>x. P (fst x)) vs"
    using assms(2) by (auto simp: filter_eq_Cons_iff)
  have "filter (\<lambda>x. P (fst x)) vs = vs"
    using assms(1,3) z(1,3) by (auto simp: filter_id_conv sorted_wrt_append)
  then show ?thesis using filter_beyond(1) [of fwd us e vs] assms(1) z by simp
qed

lemma reach_mono: "reach fwd ex key a \<Longrightarrow> beyond fwd a b \<Longrightarrow> reach fwd ex key b"
  by (auto simp: reach_def beyond_def split: if_splits)

lemma beyond_trans: "beyond fwd key a \<Longrightarrow> beyond fwd a b \<Longrightarrow> beyond fwd key b"
  by (auto simp: beyond_def split: if_splits)

subsection \<open>Positions\<close>

definition positioned :: "Iterator \<Rightarrow> bool" where
  "positioned iter \<longleftrightarrow> it_node iter \<noteq> Nil_node \<and> bst (it_root iter)
     \<and> (\<exists>fs. placed fs (it_node iter) (it_parents iter) \<and> plug fs (it_node iter) = it_root iter)"

definition remaining :: "bool \<Rightarrow> Iterator \<Rightarrow> (bytes \<times> bytes) list" where
  "remaining fwd iter = filter (\<lambda>x. beyond fwd (tkey (it_node iter)) (fst x)) (in_order fwd (it_root iter))"

lemma todo_remaining:
  assumes "bst (plug fs n)" "n \<noteq> Nil_node"
  shows "todo fwd fs n = filter (\<lambda>x. beyond fwd (tkey n) (fst x)) (in_order fwd (plug fs n))"
    "entry n # todo fwd fs n = filter (\<lambda>x. reach fwd True (tkey n) (fst x)) (in_order fwd (plug fs n))"
  using filter_beyond [of fwd "behind fwd fs @ in_order fwd (child (\<not> fwd) n)" "entry n" "todo fwd fs n"]
    ordered_bst [OF assms(1), of fwd] in_order_split [OF assms(2), of fwd fs]
  by (simp_all add: entry_def)

definition in_range :: "Iterator \<Rightarrow> bytes \<Rightarrow> bool" where
  "in_range iter k \<longleftrightarrow> (case startKey iter of None \<Rightarrow> True | Some s \<Rightarrow> s \<le> k) \<and> (case limitKey iter of None \<Rightarrow> True | Some l \<Rightarrow> k < l)"

text \<open>Where a move ends: at the first of the given entries when it is in the range, and exhausted
  otherwise. Everything but the position is as in the second iterator.\<close>

definition same_range :: "Iterator \<Rightarrow> Iterator \<Rightarrow> bool" where
  "same_range a b \<longleftrightarrow> it_root a = it_root b \<and> startKey a = startKey b \<and> limitKey a = limitKey b
     \<and> isNew a = isNew b \<and> seekKey a = seekKey b \<and> it_mutable a = it_mutable b"

definition lands :: "(bytes \<times> bytes) list \<Rightarrow> Iterator \<Rightarrow> bool \<times> Iterator \<Rightarrow> bool" where
  "lands xs iter res \<longleftrightarrow> same_range (snd res) iter
     \<and> (case xs of
          [] \<Rightarrow> \<not> fst res \<and> it_node (snd res) = Nil_node
        | e # _ \<Rightarrow> if in_range iter (fst e) then fst res \<and> positioned (snd res) \<and> entry (it_node (snd res)) = e
                  else \<not> fst res \<and> it_node (snd res) = Nil_node)"

lemma limit_lands:
  assumes "bst (it_root iter)" "n \<noteq> Nil_node \<Longrightarrow> placed fs n st \<and> plug fs n = it_root iter"
    "xs = (if n = Nil_node then [] else entry n # ys)"
  shows "lands xs iter (limitIterator (iter\<lparr> it_node := n, it_parents := st \<rparr>))"
  using assms
  by (cases "n = Nil_node"; cases "startKey iter"; cases "limitKey iter")
    (auto simp: lands_def same_range_def limitIterator_def in_range_def positioned_def entry_def not_le not_less)

lemma move_lands:
  assumes "positioned iter"
  shows "lands (remaining fwd iter) iter (move fwd (child fwd) iter)"
proof -
  let ?n = "it_node iter"
  obtain fs where fs: "placed fs ?n (it_parents iter)" "plug fs ?n = it_root iter" and n: "?n \<noteq> Nil_node" and b: "bst (it_root iter)"
    using assms by (auto simp: positioned_def)
  have rem: "remaining fwd iter = todo fwd fs ?n"
    using todo_remaining(1) [of fs ?n fwd] fs b n by (simp add: remaining_def)
  show ?thesis
  proof (cases "child fwd ?n = Nil_node")
    case True
    obtain m st where c: "climb (child fwd) ?n (it_parents iter) = (m, st)" by fastforce
    obtain fs' m' where a: "above fwd fs ?n = (fs', m')" by fastforce
    have m: "m = m'" "m \<noteq> Nil_node \<longrightarrow> placed fs' m st"
      using climb_above [OF fs(1) n, of fwd] fs(2) b c a by auto
    have "remaining fwd iter = (if m = Nil_node then [] else entry m # todo fwd fs' m)"
      using True ahead_above [of fwd fs ?n] a m(1) by (simp add: rem todo_def in_order_def)
    then have "lands (remaining fwd iter) iter (limitIterator (iter\<lparr> it_node := m, it_parents := st \<rparr>))"
      using b m plug_above [OF a] fs(2) by (intro limit_lands [where fs = fs']) auto
    then show ?thesis using True c by (simp add: move_def)
  next
    case False
    obtain l k v p r where nd: "?n = Node l k v p r" using n by (cases ?n) auto
    let ?f = "if fwd then InRight l k v p else InLeft k v p r"
    have re: "?n = relink ?f (child fwd ?n)" by (cases fwd) (simp_all add: nd child_def)
    obtain fs' m st where e: "extreme fwd (child fwd ?n) (stk_Push ?n (it_parents iter)) = (m, st)" "placed fs' m st" "m \<noteq> Nil_node"
      "plug fs' m = plug (?f # fs) (child fwd ?n)" "in_order fwd (child fwd ?n) @ ahead fwd (?f # fs) = entry m # todo fwd fs' m"
      using extreme_placed [OF placed_push [OF fs(1) re] False, of fwd] by blast
    have "ahead fwd (?f # fs) = ahead fwd fs" by (cases fwd) (simp_all add: ahead_def)
    then have "remaining fwd iter = entry m # todo fwd fs' m" using e(5) by (simp add: rem todo_def)
    moreover have "plug fs' m = it_root iter" using e(4) fs(2) re by simp
    ultimately have "lands (remaining fwd iter) iter (limitIterator (iter\<lparr> it_node := m, it_parents := st \<rparr>))"
      using b e(2,3) by (intro limit_lands [where fs = fs']) auto
    then show ?thesis using False e(1) by (simp add: move_def)
  qed
qed

subsection \<open>Seeking\<close>

lemma pop_times_drop: "stk_good st \<Longrightarrow> stk_good (pop_times n st) \<and> stk_contents (pop_times n st) = drop n (stk_contents st)"
  by (induction n arbitrary: st) (simp_all add: pstack.pop_good drop_Suc)

text \<open>The loop ends at the place of the key or at the key itself; the selected node is the first parent
  in the direction.\<close>

definition sides :: "bool \<Rightarrow> bool \<Rightarrow> bytes \<Rightarrow> frame list \<Rightarrow> bool" where
  "sides fwd ex key fs \<longleftrightarrow> (\<forall>x \<in> set (ahead fwd fs). beyond fwd key (fst x))
     \<and> (\<forall>x \<in> set (behind fwd fs). \<not> reach fwd ex key (fst x))"

definition stops :: "bool \<Rightarrow> bool \<Rightarrow> bytes \<Rightarrow> treapNode \<Rightarrow> bool \<times> treapNode \<times> nat \<times> treapNode parentStack \<Rightarrow> bool" where
  "stops fwd ex key rt res \<longleftrightarrow>
     (case res of (matched, sel, depth, st) \<Rightarrow>
        \<exists>fs. if matched then ex \<and> placed fs sel st \<and> plug fs sel = rt \<and> sel \<noteq> Nil_node \<and> tkey sel = key
             else placed fs Nil_node st \<and> plug fs Nil_node = rt \<and> sides fwd ex key fs
               \<and> sel = snd (above fwd fs Nil_node) \<and> depth = length (fst (above fwd fs Nil_node)))"

lemma bst_node: "bst (Node l k v p r) \<longleftrightarrow> bst l \<and> bst r \<and> (\<forall>x \<in> set (entries l). fst x < k) \<and> (\<forall>x \<in> set (entries r). k < fst x)"
  by (fastforce simp: bst_def sorted_wrt_append)

lemma sides_left:
  "sides fwd ex key fs \<Longrightarrow> bst (Node l k v p r) \<Longrightarrow> key < k \<or> (key = k \<and> \<not> ex \<and> \<not> fwd) \<Longrightarrow> sides fwd ex key (InLeft k v p r # fs)"
  by (cases fwd) (auto simp: sides_def ahead_def behind_def beyond_def reach_def bst_node dest: less_trans)

lemma sides_right:
  "sides fwd ex key fs \<Longrightarrow> bst (Node l k v p r) \<Longrightarrow> k < key \<or> (key = k \<and> \<not> ex \<and> fwd) \<Longrightarrow> sides fwd ex key (InRight l k v p # fs)"
  by (cases fwd) (auto simp: sides_def ahead_def behind_def beyond_def reach_def bst_node dest: less_trans)

lemma seek_loop_stops:
  assumes "placed fs n st" "sel = snd (above fwd fs n)" "depth = length (fst (above fwd fs n))" "bst n" "sides fwd ex key fs"
  shows "stops fwd ex key (plug fs n) (seek_loop n key ex fwd sel depth st)"
  using assms
proof (induction n arbitrary: fs st sel depth)
  case Nil_node
  then show ?case by (auto simp: stops_def)
next
  case (Node l k v p r)
  let ?n = "Node l k v p r" and ?L = "InLeft k v p r" and ?R = "InRight l k v p"
  have b: "bst l" "bst r" using Node.prems(4) by (simp_all add: bst_node)
  have pl: "placed (?L # fs) l (stk_Push ?n st)" "placed (?R # fs) r (stk_Push ?n st)"
    using Node.prems(1) by (simp_all add: placed_push)
  have len: "stk_Len (stk_Push ?n st) - 1 = length fs"
    using pl(1) pstack.len_contents [of "stk_Push ?n st"] by (simp add: placed_def)
  have left: "stops fwd ex key (plug fs ?n) (seek_loop l key ex fwd sel' d' (stk_Push ?n st))"
    if "key < k \<or> (key = k \<and> \<not> ex \<and> \<not> fwd)" "(sel', d') = (if fwd then (?n, length fs) else (sel, depth))" for sel' d'
    using Node.IH(1) [OF pl(1) _ _ b(1) sides_left [OF Node.prems(5,4) that(1)], of sel' d'] that(2) Node.prems(2,3)
    by (cases fwd) (simp_all add: is_left_def)
  have right: "stops fwd ex key (plug fs ?n) (seek_loop r key ex fwd sel' d' (stk_Push ?n st))"
    if "k < key \<or> (key = k \<and> \<not> ex \<and> fwd)" "(sel', d') = (if fwd then (sel, depth) else (?n, length fs))" for sel' d'
    using Node.IH(2) [OF pl(2) _ _ b(2) sides_right [OF Node.prems(5,4) that(1)], of sel' d'] that(2) Node.prems(2,3)
    by (cases fwd) (simp_all add: is_left_def)
  consider "key < k" | "k < key" | "key = k" "ex" | "key = k" "\<not> ex" using less_linear by blast
  then show ?case
  proof cases
    case 1
    then show ?thesis using left len by (cases fwd) (simp_all add: Let_def)
  next
    case 2
    then show ?thesis using right len by (cases fwd) (auto simp: Let_def)
  next
    case 3
    have "placed fs ?n (snd (stk_Pop (stk_Push ?n st)))"
      using pl(1) pstack.pop_good [of "stk_Push ?n st"] by (simp add: placed_def)
    then show ?thesis using 3 by (auto simp: stops_def Let_def)
  next
    case 4
    then show ?thesis using left right by (cases fwd) (simp_all add: Let_def)
  qed
qed

lemma seek_lands:
  assumes "bst (it_root iter)"
  shows "lands (filter (\<lambda>x. reach fwd ex key (fst x)) (in_order fwd (it_root iter))) iter (seek key ex fwd iter)"
proof -
  obtain matched sel depth st where s: "seek_loop (it_root iter) key ex fwd Nil_node 0 newParentStack = (matched, sel, depth, st)"
    using prod_cases4 by blast
  have "sides fwd ex key []" by (cases fwd) (simp_all add: sides_def ahead_def behind_def)
  then have "stops fwd ex key (it_root iter) (matched, sel, depth, st)"
    using seek_loop_stops [where fs = "[]" and n = "it_root iter" and st = newParentStack and sel = Nil_node and depth = 0 and fwd = fwd and ex = ex and key = key] placed_new [of "it_root iter"] assms s by simp
  then obtain fs where fs: "if matched then ex \<and> placed fs sel st \<and> plug fs sel = it_root iter \<and> sel \<noteq> Nil_node \<and> tkey sel = key
       else placed fs Nil_node st \<and> plug fs Nil_node = it_root iter \<and> sides fwd ex key fs
         \<and> sel = snd (above fwd fs Nil_node) \<and> depth = length (fst (above fwd fs Nil_node))"
    by (auto simp: stops_def)
  have sk: "seek key ex fwd iter = limitIterator (iter\<lparr> it_node := sel,
      it_parents := (if matched then st else pop_times (stk_Len st - depth) st) \<rparr>)"
    by (simp add: seek_def s)
  show ?thesis
  proof (cases matched)
    case True
    then have "filter (\<lambda>x. reach fwd ex key (fst x)) (in_order fwd (it_root iter)) = entry sel # todo fwd fs sel"
      using todo_remaining(2) [of fs sel fwd] fs assms by auto
    then show ?thesis
      unfolding sk using True fs assms by (intro limit_lands [where fs = fs and ys = "todo fwd fs sel"]) auto
  next
    case False
    obtain fs' where a: "above fwd fs Nil_node = (fs', sel)" "depth = length fs'" using fs False by (cases "above fwd fs Nil_node") auto
    have st: "stk_good st" "stk_contents st = nodes_of fs Nil_node" "stk_Len st = length fs"
      using fs False pstack.len_contents [of st] by (auto simp: placed_def)
    have pl: "placed fs' sel (pop_times (stk_Len st - depth) st)"
      using pop_times_drop [OF st(1)] st nodes_above [OF a(1)] a(2) by (simp add: placed_def)
    have "in_order fwd (it_root iter) = behind fwd fs @ ahead fwd fs"
      using in_order_plug [of fwd fs Nil_node] fs False by (simp add: in_order_def)
    moreover have "filter (\<lambda>x. reach fwd ex key (fst x)) (behind fwd fs) = []" "filter (\<lambda>x. reach fwd ex key (fst x)) (ahead fwd fs) = ahead fwd fs"
      using fs False by (auto simp: sides_def filter_empty_conv filter_id_conv reach_def)
    ultimately have "filter (\<lambda>x. reach fwd ex key (fst x)) (in_order fwd (it_root iter)) = ahead fwd fs" by simp
    also have "\<dots> = (if sel = Nil_node then [] else entry sel # todo fwd fs' sel)" using ahead_above [of fwd fs Nil_node] a(1) by simp
    finally have xs: "filter (\<lambda>x. reach fwd ex key (fst x)) (in_order fwd (it_root iter)) = (if sel = Nil_node then [] else entry sel # todo fwd fs' sel)" .
    show ?thesis
      unfolding sk by (rule limit_lands [OF assms _ xs, where fs = fs']) (use False pl plug_above [OF a(1)] fs in simp)
  qed
qed

lemma to_end_lands:
  assumes "bst (it_root iter)" "it_root iter \<noteq> Nil_node"
  shows "fst (to_end fwd iter) \<and> positioned (snd (to_end fwd iter)) \<and> same_range (snd (to_end fwd iter)) iter
    \<and> entry (it_node (snd (to_end fwd iter))) = hd (in_order fwd (it_root iter))"
proof -
  obtain fs m st where e: "extreme fwd (it_root iter) newParentStack = (m, st)" "placed fs m st" "m \<noteq> Nil_node"
    "plug fs m = it_root iter" "in_order fwd (it_root iter) @ ahead fwd [] = entry m # todo fwd fs m"
    using extreme_placed [OF placed_new assms(2), of fwd] by auto
  have "hd (in_order fwd (it_root iter)) = entry m" using e(5) by (cases fwd) (simp_all add: ahead_def)
  then show ?thesis using e assms by (auto simp: to_end_def positioned_def same_range_def)
qed

subsection \<open>Iterations\<close>

text \<open>The entries a loop over an iterator sees in at most \<open>n\<close> rounds.\<close>

fun loop :: "nat \<Rightarrow> (Iterator \<Rightarrow> bool \<times> Iterator) \<Rightarrow> Iterator \<Rightarrow> (bytes \<times> bytes) list" where
  "loop 0 mv iter = []"
| "loop (Suc n) mv iter = (case mv iter of (True, iter') \<Rightarrow> entry (it_node iter') # loop n mv iter' | (False, _) \<Rightarrow> [])"

definition step :: "bool \<Rightarrow> Iterator \<Rightarrow> bool \<times> Iterator" where
  "step fwd = (if fwd then Next else Prev)"

lemma step_move: "\<not> isNew iter \<Longrightarrow> it_node iter \<noteq> Nil_node \<Longrightarrow> seekKey iter = None \<Longrightarrow> step fwd iter = move fwd (child fwd) iter"
  by (cases fwd) (simp_all add: step_def Next_def Prev_def child_def)

lemma same_in_range: "same_range a b \<Longrightarrow> in_range a = in_range b"
  by (intro ext) (simp add: same_range_def in_range_def)

text \<open>The bound in the direction the loop comes from: with it, or without any, the loop begins in the range.\<close>

definition near_bound :: "bool \<Rightarrow> Iterator \<Rightarrow> bytes option" where
  "near_bound fwd iter = (if fwd then startKey iter else limitKey iter)"

definition within_far :: "bool \<Rightarrow> Iterator \<Rightarrow> bytes \<Rightarrow> bool" where
  "within_far fwd iter k = (if fwd then (case limitKey iter of None \<Rightarrow> True | Some l \<Rightarrow> k < l)
     else (case startKey iter of None \<Rightarrow> True | Some s \<Rightarrow> s \<le> k))"

lemma far_prefix:
  assumes "ordered fwd zs"
  shows "takeWhile (\<lambda>x. within_far fwd iter (fst x)) zs = filter (\<lambda>x. within_far fwd iter (fst x)) zs"
  using assms
proof (induction zs)
  case (Cons z zs)
  show ?case
  proof (cases "within_far fwd iter (fst z)")
    case False
    have "\<forall>x \<in> set zs. \<not> within_far fwd iter (fst x)"
    proof
      fix x assume "x \<in> set zs"
      then have "beyond fwd (fst z) (fst x)" using Cons.prems by simp
      then show "\<not> within_far fwd iter (fst x)"
        using False by (cases fwd) (auto simp: within_far_def beyond_def split: option.splits)
    qed
    then show ?thesis using False by (simp add: filter_empty_conv [THEN iffD2])
  qed (use Cons in simp)
qed simp

text \<open>What a loop begins with.\<close>

definition upcoming :: "bool \<Rightarrow> Iterator \<Rightarrow> (bytes \<times> bytes) list" where
  "upcoming fwd iter =
     (if isNew iter then case near_bound fwd iter of
          None \<Rightarrow> in_order fwd (it_root iter)
        | Some b \<Rightarrow> filter (\<lambda>x. reach fwd fwd b (fst x)) (in_order fwd (it_root iter))
      else case seekKey iter of
          None \<Rightarrow> remaining fwd iter
        | Some k \<Rightarrow> filter (\<lambda>x. beyond fwd k (fst x)) (in_order fwd (it_root iter)))"

text \<open>An iterator that can be moved: a new one whose first entry is in the range when only the far bound
  is given, one that has to seek again, or one at a position.\<close>

definition ready :: "bool \<Rightarrow> Iterator \<Rightarrow> bool" where
  "ready fwd iter \<longleftrightarrow> bst (it_root iter) \<and>
     (if isNew iter then it_node iter = Nil_node \<and> seekKey iter = None
        \<and> (near_bound fwd iter = None \<longrightarrow> it_root iter \<noteq> Nil_node \<longrightarrow> in_range iter (fst (hd (in_order fwd (it_root iter)))))
      else it_node iter \<noteq> Nil_node \<and> (seekKey iter = None \<longrightarrow> positioned iter))"

definition settled :: "Iterator \<Rightarrow> Iterator" where
  "settled iter = iter\<lparr> isNew := False, seekKey := None \<rparr>"

lemma lands_cong: "same_range a b \<Longrightarrow> lands xs a res \<longleftrightarrow> lands xs b res"
  using same_in_range [of a b] by (auto simp: lands_def same_range_def split: list.splits)

lemma in_order_nil [simp]: "in_order fwd t = [] \<longleftrightarrow> t = Nil_node"
  by (simp add: in_order_def)

lemma step_new: "isNew iter \<Longrightarrow> step fwd iter = (case near_bound fwd iter of
     Some b \<Rightarrow> seek b fwd fwd (iter\<lparr> isNew := False \<rparr>) | None \<Rightarrow> to_end fwd (iter\<lparr> isNew := False \<rparr>))"
  by (cases fwd) (simp_all add: step_def Next_def Prev_def First_def Last_def near_bound_def Let_def split: option.split)

lemma step_reseek: "\<not> isNew iter \<Longrightarrow> it_node iter \<noteq> Nil_node \<Longrightarrow> seekKey iter = Some k \<Longrightarrow>
    step fwd iter = seek k False fwd (iter\<lparr> seekKey := None \<rparr>)"
  by (cases fwd) (simp_all add: step_def Next_def Prev_def)

lemma step_lands:
  assumes "ready fwd iter"
  shows "lands (upcoming fwd iter) (settled iter) (step fwd iter)"
proof (cases "isNew iter")
  case True
  then have r: "bst (it_root iter)" "seekKey iter = None" "it_node iter = Nil_node" using assms by (auto simp: ready_def)
  have s: "settled iter = iter\<lparr> isNew := False \<rparr>" using r(2) by (cases iter) (simp add: settled_def)
  show ?thesis
  proof (cases "near_bound fwd iter")
    case (Some b)
    then show ?thesis
      using True r seek_lands [of "iter\<lparr> isNew := False \<rparr>" fwd fwd b] by (simp add: step_new s upcoming_def)
  next
    case None
    show ?thesis
    proof (cases "it_root iter = Nil_node")
      case False
      obtain e ys where e: "in_order fwd (it_root iter) = e # ys" using False by (cases "in_order fwd (it_root iter)") auto
      have "in_range (settled iter) (fst e)" using assms True None False e by (simp add: ready_def in_range_def settled_def)
      then show ?thesis
        using True r None e to_end_lands [of "iter\<lparr> isNew := False \<rparr>" fwd] False by (simp add: step_new s upcoming_def lands_def)
    qed (use True r None in \<open>simp add: step_new s upcoming_def lands_def to_end_def same_range_def in_order_def\<close>)
  qed
next
  case False
  then have r: "bst (it_root iter)" "it_node iter \<noteq> Nil_node" using assms by (auto simp: ready_def)
  have s: "same_range (settled iter) (iter\<lparr> seekKey := None \<rparr>)" using False by (simp add: settled_def same_range_def)
  show ?thesis
  proof (cases "seekKey iter")
    case (Some k)
    then show ?thesis
      using False r seek_lands [of "iter\<lparr> seekKey := None \<rparr>" fwd False k] lands_cong [OF s]
      by (simp add: step_reseek upcoming_def reach_def)
  next
    case None
    then have "same_range (settled iter) iter" using s by (simp add: same_range_def)
    then show ?thesis
      using None False assms move_lands [of iter fwd] lands_cong [of "settled iter" iter] r(2) by (simp add: step_move upcoming_def ready_def)
  qed
qed

lemma upcoming_next:
  assumes "bst (it_root iter)" "upcoming fwd iter = e # ys"
  shows "filter (\<lambda>x. beyond fwd (fst e) (fst x)) (in_order fwd (it_root iter)) = ys"
proof -
  note nxt = filter_next [OF ordered_bst [OF assms(1), of fwd], of _ e ys]
  consider b where "isNew iter" "near_bound fwd iter = Some b" | "isNew iter" "near_bound fwd iter = None"
    | k where "\<not> isNew iter" "seekKey iter = Some k" | "\<not> isNew iter" "seekKey iter = None" by fastforce
  then show ?thesis
  proof cases
    case (1 b)
    then show ?thesis using assms(2) by (intro nxt [of "reach fwd fwd b"]) (auto simp: upcoming_def intro: reach_mono)
  next
    case 2
    then show ?thesis using assms(2) by (intro nxt [of "\<lambda>_. True"]) (auto simp: upcoming_def)
  next
    case (3 k)
    then show ?thesis using assms(2) by (intro nxt [of "beyond fwd k"]) (auto simp: upcoming_def intro: beyond_trans)
  next
    case 4
    then show ?thesis using assms(2)
      by (intro nxt [of "beyond fwd (tkey (it_node iter))"]) (auto simp: upcoming_def remaining_def intro: beyond_trans)
  qed
qed

lemma in_range_settled [simp]: "in_range (settled iter) = in_range iter"
  by (intro ext) (simp add: in_range_def settled_def)

text \<open>A step of a loop: at the first of the upcoming entries, or at the end.\<close>

lemma step_cases:
  assumes "ready fwd iter"
  obtains (finished) iter' where "step fwd iter = (False, iter')" "takeWhile (\<lambda>x. in_range iter (fst x)) (upcoming fwd iter) = []"
  | (at_entry) iter' e ys where "step fwd iter = (True, iter')" "upcoming fwd iter = e # ys" "in_range iter (fst e)"
      "entry (it_node iter') = e" "positioned iter'" "same_range iter' (settled iter)" "ready fwd iter'" "upcoming fwd iter' = ys"
proof -
  obtain ok iter' where st: "step fwd iter = (ok, iter')" by fastforce
  have l: "lands (upcoming fwd iter) (settled iter) (ok, iter')" using step_lands [OF assms] st by simp
  show ?thesis
  proof (cases "\<exists>e ys. upcoming fwd iter = e # ys \<and> in_range iter (fst e)")
    case True
    then obtain e ys where e: "upcoming fwd iter = e # ys" "in_range iter (fst e)" by blast
    then have i: "ok" "positioned iter'" "entry (it_node iter') = e" "same_range iter' (settled iter)" using l by (auto simp: lands_def)
    have f: "\<not> isNew iter'" "seekKey iter' = None" "it_root iter' = it_root iter" "tkey (it_node iter') = fst e"
      using i(3,4) by (auto simp: same_range_def settled_def entry_def)
    have "ready fwd iter'" using i(2) f by (simp add: ready_def positioned_def)
    moreover have "upcoming fwd iter' = ys"
      using upcoming_next [OF _ e(1)] assms f by (simp add: upcoming_def remaining_def ready_def)
    ultimately show ?thesis using at_entry st i e by simp
  next
    case False
    have "\<not> ok" "takeWhile (\<lambda>x. in_range iter (fst x)) (upcoming fwd iter) = []"
      using False l by (cases "upcoming fwd iter"; simp add: lands_def)+
    then show ?thesis using finished st by simp
  qed
qed

lemma loop_upcoming:
  "ready fwd iter \<Longrightarrow> loop n (step fwd) iter = take n (takeWhile (\<lambda>x. in_range iter (fst x)) (upcoming fwd iter))"
proof (induction n arbitrary: iter)
  case (Suc n)
  from Suc.prems show ?case
  proof (cases rule: step_cases)
    case (at_entry iter' e ys)
    then show ?thesis using Suc.IH [OF at_entry(7)] same_in_range [OF at_entry(6)] by simp
  qed simp
qed simp

lemma upcoming_new:
  assumes "bst (it_root iter)" "isNew iter"
  shows "takeWhile (\<lambda>x. in_range iter (fst x)) (upcoming fwd iter) = filter (\<lambda>x. in_range iter (fst x)) (in_order fwd (it_root iter))"
proof -
  have near: "in_range iter k \<longleftrightarrow> (case near_bound fwd iter of None \<Rightarrow> True | Some b \<Rightarrow> reach fwd fwd b k) \<and> within_far fwd iter k" for k
    by (cases fwd) (auto simp: in_range_def near_bound_def within_far_def reach_def beyond_def split: option.splits)
  define nr where "nr x \<longleftrightarrow> (case near_bound fwd iter of None \<Rightarrow> True | Some b \<Rightarrow> reach fwd fwd b (fst x))" for x :: "bytes \<times> bytes"
  have up: "upcoming fwd iter = filter nr (in_order fwd (it_root iter))"
    using assms(2) by (cases "near_bound fwd iter") (simp_all add: upcoming_def nr_def [abs_def])
  have rng: "in_range iter (fst x) \<longleftrightarrow> nr x \<and> within_far fwd iter (fst x)" for x by (simp add: near nr_def)
  have "takeWhile (\<lambda>x. in_range iter (fst x)) (upcoming fwd iter) = takeWhile (\<lambda>x. within_far fwd iter (fst x)) (upcoming fwd iter)"
    by (rule takeWhile_cong) (auto simp: up rng)
  also have "\<dots> = filter (\<lambda>x. within_far fwd iter (fst x)) (upcoming fwd iter)"
    using ordered_bst [OF assms(1), of fwd] by (intro far_prefix) (simp add: up sorted_wrt_filter)
  finally show ?thesis by (simp add: up rng conj_commute)
qed


text \<open>
  C3: Iterators visit exactly their range, in order. A loop over \<open>Next\<close> from a new iterator sees the
  entries whose keys are in the range, ascending, and a loop over \<open>Prev\<close> the same ones descending; in
  \<open>n\<close> rounds the first \<open>n\<close> of them. Where the bound the loop starts from is missing, the first entry
  of the treap in that direction has to be in the range.
\<close>

theorem iterator_visits_range:
  assumes "bst rt" "iter = newIterator m rt s l"
    and "s = None \<longrightarrow> rt \<noteq> Nil_node \<longrightarrow> in_range iter (fst (hd (entries rt)))"
    and "l = None \<longrightarrow> rt \<noteq> Nil_node \<longrightarrow> in_range iter (fst (last (entries rt)))"
  shows "loop n Next iter = take n (filter (\<lambda>x. in_range iter (fst x)) (entries rt))
    \<and> loop n Prev iter = take n (filter (\<lambda>x. in_range iter (fst x)) (rev (entries rt)))"
proof -
  have "ready True iter" "ready False iter"
    using assms by (simp_all add: ready_def newIterator_def near_bound_def in_order_def hd_rev)
  then show ?thesis
    using loop_upcoming [of True iter n] loop_upcoming [of False iter n] upcoming_new [of iter True] upcoming_new [of iter False] assms(1,2)
    by (simp add: newIterator_def step_def in_order_def)
qed

definition sample_treap :: treapNode where
  "sample_treap = Node (Node Nil_node [1] [11] 5 Nil_node) [2] [12] 3 (Node Nil_node [4] [14] 7 Nil_node)"

lemma sample_bst: "bst sample_treap"
  by (simp add: sample_treap_def bst_def)

theorem iterator_visits_range_witness:
  "loop 5 Next (newIterator False sample_treap (Some [2]) (Some [4])) = [([2], [12])]"
  using iterator_visits_range [OF sample_bst, of _ False "Some [2]" "Some [4]" 5]
  by (simp add: sample_treap_def in_range_def newIterator_def)

text \<open>Deleting while iterating, the use the documentation of \<open>Iterator\<close> shows: the loop over \<open>Next\<close>
  deletes the keys with a property and calls \<open>ForceReseek\<close> after each.\<close>

fun purge :: "nat \<Rightarrow> (bytes \<Rightarrow> bool) \<Rightarrow> Mutable \<Rightarrow> Iterator \<Rightarrow> (bytes \<times> bytes) list \<times> Mutable" where
  "purge 0 P t iter = ([], t)"
| "purge (Suc n) P t iter =
     (case Next iter of
        (False, _) \<Rightarrow> ([], t)
      | (True, iter') \<Rightarrow>
          let k = tkey (it_node iter');
              t' = (if P k then mDelete k t else t);
              iter'' = (if P k then ForceReseek t' iter' else iter')
          in case purge n P t' iter'' of (vs, t'') \<Rightarrow> (entry (it_node iter') # vs, t''))"

lemma sorted_entries_unique:
  assumes "sorted_wrt (<) (map fst xs)" "sorted_wrt (<) (map fst ys)" "map_of xs = (map_of ys :: bytes \<rightharpoonup> bytes)"
  shows "xs = ys"
proof (rule map_sorted_distinct_set_unique [where f = fst])
  have d: "distinct (map fst xs)" "distinct (map fst ys)" using assms by (simp_all add: strict_sorted_iff)
  show s: "set xs = set ys" using assms(3) d by (metis map_of_inject_set)
  show "inj_on fst (set xs \<union> set ys)" using d s by (simp add: distinct_map)
qed (use assms in \<open>simp_all add: strict_sorted_iff\<close>)

lemma map_of_filter_key: "map_of (filter (\<lambda>x. fst x \<noteq> k) xs) = (map_of xs)(k := None)"
  by (induction xs) (auto simp: fun_eq_iff)

lemma entries_mDelete:
  assumes "treap_ok (frozen t)"
  shows "entries (mroot (mDelete k t)) = filter (\<lambda>x. fst x \<noteq> k) (entries (mroot t))" "treap_ok (frozen (mDelete k t))"
proof -
  have r: "root (frozen u) = mroot u" for u by (simp add: frozen_def newImmutable_def)
  have d: "treap_ok (frozen (mDelete k t))" "tmap (mroot (mDelete k t)) = (tmap (mroot t))(k := None)"
    using Delete_ok [OF assms, of k] by (simp_all add: frozen_Delete [symmetric] r)
  then show "treap_ok (frozen (mDelete k t))" by simp
  show "entries (mroot (mDelete k t)) = filter (\<lambda>x. fst x \<noteq> k) (entries (mroot t))"
  proof (rule sorted_entries_unique)
    show "sorted_wrt (<) (map fst (entries (mroot (mDelete k t))))" using d(1) by (simp add: treap_ok_def bst_def r)
    have "sorted_wrt (<) (map fst (entries (mroot t)))" using assms by (simp add: treap_ok_def bst_def r)
    then show "sorted_wrt (<) (map fst (filter (\<lambda>x. fst x \<noteq> k) (entries (mroot t))))"
      by (simp add: sorted_wrt_map sorted_wrt_filter)
    show "map_of (entries (mroot (mDelete k t))) = map_of (filter (\<lambda>x. fst x \<noteq> k) (entries (mroot t)))"
      using d(2) by (simp add: tmap_def map_of_filter_key)
  qed
qed

lemma maybe_deleted:
  assumes "treap_ok (frozen t)" "e \<in> set (entries (mroot t))"
  shows "entries (mroot (if P (fst e) then mDelete (fst e) t else t)) = filter (\<lambda>x. \<not> (x = e \<and> P (fst x))) (entries (mroot t))"
    "treap_ok (frozen (if P (fst e) then mDelete (fst e) t else t))"
proof -
  have "sorted_wrt (<) (map fst (entries (mroot t)))" using assms(1) by (simp add: treap_ok_def bst_def frozen_def newImmutable_def)
  then have "distinct (map fst (entries (mroot t)))" by (simp add: strict_sorted_iff)
  then have "fst x = fst e \<longleftrightarrow> x = e" if "x \<in> set (entries (mroot t))" for x
    using assms(2) that by (auto simp: distinct_map inj_on_def)
  then show "entries (mroot (if P (fst e) then mDelete (fst e) t else t)) = filter (\<lambda>x. \<not> (x = e \<and> P (fst x))) (entries (mroot t))"
    using entries_mDelete(1) [OF assms(1), of "fst e"] by (auto intro!: filter_cong simp: filter_id_conv [symmetric, THEN iffD1])
  show "treap_ok (frozen (if P (fst e) then mDelete (fst e) t else t))" using entries_mDelete(2) [OF assms(1)] assms(1) by simp
qed

lemma purge_spec:
  assumes "ready True iter" "it_mutable iter" "it_root iter = mroot t" "treap_ok (frozen t)" "purge n P t iter = (vs, t')"
  shows "vs = take n (takeWhile (\<lambda>x. in_range iter (fst x)) (upcoming True iter))
    \<and> entries (mroot t') = filter (\<lambda>x. \<not> (x \<in> set vs \<and> P (fst x))) (entries (mroot t))"
  using assms
proof (induction n arbitrary: iter t vs)
  case (Suc n)
  from Suc.prems(1) show ?case
  proof (cases rule: step_cases)
    case (finished iter')
    then show ?thesis using Suc.prems(5) by (simp add: step_def)
  next
    case (at_entry iter' e ys)
    define k where "k = tkey (it_node iter')"
    define u where "u = (if P k then mDelete k t else t)"
    define iter2 where "iter2 = (if P k then ForceReseek u iter' else iter')"
    have "purge (Suc n) P t iter = (case purge n P u iter2 of (ws, t'') \<Rightarrow> (e # ws, t''))"
      unfolding iter2_def u_def k_def using at_entry(1,4) by (simp add: step_def Let_def)
    then obtain ws where ws: "purge n P u iter2 = (ws, t')" "vs = e # ws"
      using Suc.prems(5) by (cases "purge n P u iter2") auto
    have ke: "k = fst e" using at_entry(4) by (auto simp: k_def entry_def)
    have flags: "\<not> isNew iter'" "seekKey iter' = None" "it_mutable iter'" "it_root iter' = mroot t"
      using at_entry(6) Suc.prems(2,3) by (auto simp: same_range_def settled_def)
    have nn: "it_node iter' \<noteq> Nil_node" using at_entry(5) by (simp add: positioned_def)
    have "e \<in> set (upcoming True iter)" using at_entry(2) by simp
    then have "e \<in> set (entries (mroot t))"
      using Suc.prems(3) by (auto simp: upcoming_def remaining_def in_order_def split: if_splits option.splits)
    note eu = maybe_deleted [OF Suc.prems(4) this, of P, folded ke, folded u_def]
    have root2: "it_root iter2 = mroot u" using flags by (simp add: iter2_def u_def ForceReseek_def)
    have bu: "bst (mroot u)" using eu(2) by (simp add: treap_ok_def frozen_def newImmutable_def)
    have rdy: "ready True iter2" using at_entry(5,7) flags nn bu by (auto simp: iter2_def ForceReseek_def ready_def Key_def)
    have up2: "upcoming True iter2 = ys"
    proof (cases "P k")
      case True
      have "upcoming True iter2 = filter (\<lambda>x. beyond True k (fst x)) (entries (mroot u))"
        using True flags nn by (simp add: upcoming_def iter2_def ForceReseek_def Key_def k_def in_order_def)
      also have "\<dots> = filter (\<lambda>x. beyond True (fst e) (fst x)) (entries (mroot t))"
        unfolding eu(1) ke filter_filter by (rule filter_cong) (auto simp: beyond_irrefl)
      also have "\<dots> = ys" using upcoming_next [OF _ at_entry(2)] Suc.prems(1,3) by (simp add: in_order_def ready_def)
      finally show ?thesis .
    qed (use at_entry(8) in \<open>simp add: iter2_def\<close>)
    have rng: "in_range iter2 = in_range iter"
      using same_in_range [OF at_entry(6)] by (auto simp: iter2_def ForceReseek_def in_range_def fun_eq_iff)
    note ih = Suc.IH [OF rdy _ root2 eu(2) ws(1)]
    have "it_mutable iter2" using flags by (simp add: iter2_def ForceReseek_def)
    then show ?thesis using ih ws(2) at_entry(2,3) eu(1) rng up2 by (auto intro: filter_cong)
  qed
qed simp

text \<open>
  C16: Deleting during an iteration is safe with \<open>ForceReseek\<close>. The loop the documentation shows, over
  \<open>Next\<close> of a mutable treap, deleting every key with a property and reseeking, visits every entry of
  the range once and in order although the tree is rebuilt under it, and leaves exactly the entries
  that are out of the range or do not have the property.
\<close>

theorem purge_exact:
  assumes "treap_ok (frozen t)" "iter = Mutable_Iterator t s l"
    and "s = None \<longrightarrow> mroot t \<noteq> Nil_node \<longrightarrow> in_range iter (fst (hd (entries (mroot t))))"
    and "length (entries (mroot t)) \<le> n" "purge n P t iter = (vs, t')"
  shows "vs = filter (\<lambda>x. in_range iter (fst x)) (entries (mroot t))
    \<and> entries (mroot t') = filter (\<lambda>x. \<not> (in_range iter (fst x) \<and> P (fst x))) (entries (mroot t))"
proof -
  have b: "bst (mroot t)" using assms(1) by (simp add: treap_ok_def frozen_def newImmutable_def)
  have "ready True iter" "it_mutable iter" "it_root iter = mroot t" "isNew iter"
    using assms(2,3) b by (simp_all add: ready_def Mutable_Iterator_def newIterator_def near_bound_def in_order_def)
  then have p: "vs = take n (filter (\<lambda>x. in_range iter (fst x)) (entries (mroot t)))"
      "entries (mroot t') = filter (\<lambda>x. \<not> (x \<in> set vs \<and> P (fst x))) (entries (mroot t))"
    using purge_spec [OF _ _ _ assms(1,5)] upcoming_new [of iter True] b by (simp_all add: in_order_def)
  have "length (filter (\<lambda>x. in_range iter (fst x)) (entries (mroot t))) \<le> n"
    using assms(4) length_filter_le le_trans by blast
  then have vs: "vs = filter (\<lambda>x. in_range iter (fst x)) (entries (mroot t))" using p(1) by simp
  show ?thesis unfolding p(2) vs by (auto intro: filter_cong)
qed

definition sample_mutable :: Mutable where
  "sample_mutable = mPut 7 [4] (Some [14]) (mPut 5 [1] (Some [11]) (mPut 3 [2] (Some [12]) NewMutable))"

lemma sample_mutable_ok: "treap_ok (frozen sample_mutable)"
  by (simp add: sample_mutable_def mut.ok_put mut.ok_empty)

lemma sample_mutable_entries: "entries (mroot sample_mutable) = [([1], [11]), ([2], [12]), ([4], [14])]"
  by (simp add: sample_mutable_def mPut_def NewMutable_def newTreapNode_def value_or_empty_def Let_def)

theorem purge_exact_witness:
  "entries (mroot (snd (purge 3 (\<lambda>k. k = [2]) sample_mutable (Mutable_Iterator sample_mutable None None)))) = [([1], [11]), ([4], [14])]"
  using purge_exact [OF sample_mutable_ok, of _ None None 3 "\<lambda>k. k = [2]"]
  by (cases "purge 3 (\<lambda>k. k = [2]) sample_mutable (Mutable_Iterator sample_mutable None None)")
    (simp add: sample_mutable_entries in_range_def Mutable_Iterator_def newIterator_def)

text \<open>
  C37: Three gaps of the iterator. With a limit and no start, \<open>First\<close> goes to the smallest key also when
  it is not below the limit, so a loop sees one entry out of the range. \<open>First\<close> does not clear the key
  to reseek: after \<open>ForceReseek\<close> and \<open>First\<close>, \<open>Next\<close> continues after the old key and skips what is before
  it. And on a treap that has become empty \<open>First\<close> returns false but stays at the old entry.
\<close>

theorem iterator_gaps:
  assumes "bst rt" "rt \<noteq> Nil_node"
  shows "fst (First (newIterator m rt None (Some l)))
      \<and> Key (snd (First (newIterator m rt None (Some l)))) = Some (fst (hd (entries rt)))
    \<and> (it_mutable iter \<and> startKey iter = None \<and> Key iter = Some k \<and> mroot t = rt
        \<longrightarrow> lands (filter (\<lambda>x. k < fst x) (entries rt)) (settled (ForceReseek t iter)) (Next (snd (First (ForceReseek t iter)))))
    \<and> (it_mutable iter \<and> startKey iter = None \<longrightarrow>
        (case First (ForceReseek NewMutable iter) of (ok, iter') \<Rightarrow> \<not> ok \<and> Key iter' = Key iter))"
proof (intro conjI impI)
  note e = to_end_lands [of "newIterator m rt None (Some l)\<lparr> isNew := False \<rparr>" True]
  show "fst (First (newIterator m rt None (Some l)))"
    "Key (snd (First (newIterator m rt None (Some l)))) = Some (fst (hd (entries rt)))"
    using e assms by (auto simp: First_def newIterator_def Key_def positioned_def entry_def in_order_def prod_eq_iff)
next
  assume h: "it_mutable iter \<and> startKey iter = None \<and> Key iter = Some k \<and> mroot t = rt"
  let ?i = "ForceReseek t iter\<lparr> isNew := False \<rparr>"
  have i: "it_root ?i = rt" "startKey ?i = None" "seekKey ?i = Some k" using h by (simp_all add: ForceReseek_def)
  obtain ok iter' where f: "to_end True ?i = (ok, iter')" by fastforce
  have e: "positioned iter'" "same_range iter' ?i" using to_end_lands [of ?i True] assms i(1) f by auto
  have F: "First (ForceReseek t iter) = (ok, iter')" using f i(2) by (simp add: First_def Let_def)
  have "ready True iter'" "upcoming True iter' = filter (\<lambda>x. k < fst x) (entries rt)" "same_range (settled iter') (settled (ForceReseek t iter))"
    using e i assms(1) by (auto simp: ready_def positioned_def same_range_def upcoming_def settled_def in_order_def beyond_def)
  then show "lands (filter (\<lambda>x. k < fst x) (entries rt)) (settled (ForceReseek t iter)) (Next (snd (First (ForceReseek t iter))))"
    using step_lands [of True iter'] lands_cong F by (simp add: step_def)
next
  assume "it_mutable iter \<and> startKey iter = None"
  then show "case First (ForceReseek NewMutable iter) of (ok, iter') \<Rightarrow> \<not> ok \<and> Key iter' = Key iter"
    by (simp add: First_def ForceReseek_def to_end_def NewMutable_def Key_def)
qed

theorem iterator_gaps_witness:
  "Key (snd (First (newIterator False sample_treap None (Some [1])))) = Some [1]
   \<and> \<not> in_range (newIterator False sample_treap None (Some [1])) [1]"
  using iterator_gaps [OF sample_bst, of False "[1]"] by (simp add: sample_treap_def in_range_def newIterator_def)

end
