(* ===== verification/OVM_Stack.thy ===== *)
theory OVM_Stack
  imports Difficulty
begin

text \<open>
  The memory of the contract virtual machine, \<^verbatim>\<open>omega/ovm/stack.go\<close>. A pointer is a 64 bit
  word: the area (a call frame or the global data of a library) in the upper half, the offset in the
  lower half. Each area is a frame with a byte space. Values of the Go types \<open>int16\<close>,
  \<open>int32\<close> and \<open>int64\<close> are words of that width. An operation ends with a value, with
  an error of the machine, or with a Go panic (\<open>Panic\<close>).
\<close>

unbundle bit_operations_syntax

datatype ovm_error = OutOfMemory | OutOfStack | ScriptError string

datatype 'a outcome = Panic | Fail ovm_error | Ok 'a

primrec bind_out :: "'a outcome \<Rightarrow> ('a \<Rightarrow> 'b outcome) \<Rightarrow> 'b outcome" where
  "bind_out Panic f = Panic"
| "bind_out (Fail e) f = Fail e"
| "bind_out (Ok x) f = f x"

record ovm_frame =
  space :: bytes
  inlib :: bytes
  gbase :: int
  frame_pc :: int
  pure :: byte

type_synonym pointer = u64

record Stack =
  callTop :: int
  libTop :: int
  data :: "int \<rightharpoonup> ovm_frame"

definition newFrame :: ovm_frame where
  "newFrame = \<lparr> space = [], inlib = replicate 20 0, gbase = 0, frame_pc = 0, pure = 0 \<rparr>"

definition Newstack :: Stack where
  "Newstack = \<lparr> callTop = 0, libTop = 0, data = [0 \<mapsto> newFrame\<lparr> space := replicate 4 0 \<rparr>] \<rparr>"

subsection \<open>Pointers\<close>

definition p_offset :: "pointer \<Rightarrow> nat" where
  "p_offset p = unat (p AND 0xFFFFFFFF)"

definition p_area :: "pointer \<Rightarrow> int" where
  "p_area p = sint (ucast (drop_bit 32 p) :: u32)"

definition set_space :: "int \<Rightarrow> bytes \<Rightarrow> Stack \<Rightarrow> Stack" where
  "set_space area sp s =
     (case data s area of
        None \<Rightarrow> s
      | Some f \<Rightarrow> s\<lparr> data := (data s)(area \<mapsto> f\<lparr> space := sp \<rparr>) \<rparr>)"

subsection \<open>Allocation\<close>

text \<open>\<open>(n + 63) &^ 63\<close> on an \<open>int\<close>; \<open>make\<close> panics for a negative length.\<close>

definition round64 :: "int \<Rightarrow> int" where
  "round64 n = (n + 63) AND NOT 63"

definition grow :: "int \<Rightarrow> int \<Rightarrow> Stack \<Rightarrow> ((pointer \<times> int) \<times> Stack) outcome" where
  "grow area n s =
     (case data s area of
        None \<Rightarrow> Panic
      | Some f \<Rightarrow>
          let p = of_nat (length (space f)) OR push_bit 32 (word_of_int area)
          in if n = 0 then Ok ((p, 0), s)
             else let m = round64 n
                  in if m < 0 then Panic
                     else Ok ((p, m), set_space area (space f @ replicate (nat m) 0) s))"

definition malloc :: "int \<Rightarrow> Stack \<Rightarrow> ((pointer \<times> int) \<times> Stack) outcome" where
  "malloc n s =
     (case data s (libTop s) of
        None \<Rightarrow> Panic
      | Some f \<Rightarrow> grow (gbase f) n s)"

definition alloc :: "int \<Rightarrow> Stack \<Rightarrow> ((pointer \<times> int) \<times> Stack) outcome" where
  "alloc n s = grow (callTop s) n s"

text \<open>Only called with what an allocation left unused, a positive number.\<close>

definition shrink :: "nat \<Rightarrow> Stack \<Rightarrow> Stack outcome" where
  "shrink n s =
     (if n = 0 then Ok s
      else case data s 0 of
             None \<Rightarrow> Panic
           | Some f \<Rightarrow>
               if length (space f) < n then Panic
               else Ok (set_space 0 (take (length (space f) - n) (space f)) s))"

subsection \<open>Reading\<close>

definition toByte :: "pointer \<Rightarrow> Stack \<Rightarrow> byte outcome" where
  "toByte p s =
     (case data s (p_area p) of
        None \<Rightarrow> Fail OutOfStack
      | Some f \<Rightarrow>
          if p_offset p < length (space f) then Ok (space f ! p_offset p) else Fail OutOfMemory)"

definition toBytesLen :: "pointer \<Rightarrow> int \<Rightarrow> Stack \<Rightarrow> bytes outcome" where
  "toBytesLen p n s =
     (case data s (p_area p) of
        None \<Rightarrow> Fail OutOfStack
      | Some f \<Rightarrow>
          if int (p_offset p) + n < int (length (space f))
          then if n < 0 then Panic else Ok (take (nat n) (drop (p_offset p) (space f)))
          else Fail OutOfMemory)"

definition toBytes :: "pointer \<Rightarrow> Stack \<Rightarrow> bytes outcome" where
  "toBytes p s =
     (case data s (p_area p) of
        None \<Rightarrow> Fail OutOfStack
      | Some f \<Rightarrow>
          if p_offset p < length (space f) then Ok (drop (p_offset p) (space f)) else Fail OutOfMemory)"

definition toInt16 :: "pointer \<Rightarrow> Stack \<Rightarrow> u16 outcome" where
  "toInt16 p s =
     (case data s (p_area p) of
        None \<Rightarrow> Fail OutOfStack
      | Some f \<Rightarrow>
          let offset = p_offset p
          in if offset + 1 < length (space f)
             then Ok (ucast (space f ! offset) OR push_bit 8 (ucast (space f ! (offset + 1))))
             else Fail OutOfMemory)"

definition toInt32 :: "pointer \<Rightarrow> Stack \<Rightarrow> u32 outcome" where
  "toInt32 p s =
     (case data s (p_area p) of
        None \<Rightarrow> Fail OutOfStack
      | Some f \<Rightarrow>
          let offset = p_offset p
          in if offset + 3 < length (space f)
             then Ok (ucast (space f ! offset)
                      OR push_bit 8 (ucast (space f ! (offset + 1)))
                      OR push_bit 16 (ucast (space f ! (offset + 2)))
                      OR push_bit 24 (ucast (space f ! (offset + 3))))
             else Fail OutOfMemory)"

definition toInt64 :: "pointer \<Rightarrow> Stack \<Rightarrow> u64 outcome" where
  "toInt64 p s =
     (case data s (p_area p) of
        None \<Rightarrow> Fail OutOfStack
      | Some f \<Rightarrow>
          let offset = p_offset p
          in if offset + 7 < length (space f)
             then Ok (ucast (space f ! offset)
                      OR push_bit 8 (ucast (space f ! (offset + 1)))
                      OR push_bit 16 (ucast (space f ! (offset + 2)))
                      OR push_bit 24 (ucast (space f ! (offset + 3)))
                      OR push_bit 32 (ucast (space f ! (offset + 4)))
                      OR push_bit 40 (ucast (space f ! (offset + 5)))
                      OR push_bit 48 (ucast (space f ! (offset + 6)))
                      OR push_bit 56 (ucast (space f ! (offset + 7))))
             else Fail OutOfMemory)"

definition toPointer :: "pointer \<Rightarrow> Stack \<Rightarrow> pointer outcome" where
  "toPointer p s = toInt64 p s"

definition toHash :: "pointer \<Rightarrow> Stack \<Rightarrow> hash outcome" where
  "toHash p s =
     (case data s (p_area p) of
        None \<Rightarrow> Fail OutOfStack
      | Some f \<Rightarrow>
          if p_offset p + 31 < length (space f)
          then Ok (take 32 (drop (p_offset p) (space f))) else Fail OutOfMemory)"

text \<open>The index below which the bytes are not all zero.\<close>

fun significant :: "bytes \<Rightarrow> nat \<Rightarrow> nat" where
  "significant h 0 = 0"
| "significant h (Suc i) = (if h ! i = 0 then significant h i else Suc i)"

definition toBig :: "pointer \<Rightarrow> Stack \<Rightarrow> int outcome" where
  "toBig p s =
     (case data s (p_area p) of
        None \<Rightarrow> Fail OutOfStack
      | Some f \<Rightarrow>
          if p_offset p + 32 > length (space f) then Fail OutOfStack
          else let h = take 32 (drop (p_offset p) (space f));
                   n = significant h 32
               in Ok (SetBytes (reverse_loop (take n h) 0)))"

subsection \<open>Writing\<close>

definition write_at :: "nat \<Rightarrow> bytes \<Rightarrow> bytes \<Rightarrow> bytes" where
  "write_at offset b sp =
     take offset sp @ take (length sp - offset) b @ drop (offset + length b) sp"

definition saveByte :: "pointer \<Rightarrow> byte \<Rightarrow> Stack \<Rightarrow> Stack outcome" where
  "saveByte p b s =
     (case data s (p_area p) of
        None \<Rightarrow> Fail OutOfStack
      | Some f \<Rightarrow>
          if p_offset p < length (space f)
          then Ok (set_space (p_area p) ((space f)[p_offset p := b]) s) else Fail OutOfMemory)"

text \<open>\<open>copy\<close> writes as much as fits.\<close>

definition saveBytes :: "pointer \<Rightarrow> bytes \<Rightarrow> Stack \<Rightarrow> Stack outcome" where
  "saveBytes p b s =
     (case data s (p_area p) of
        None \<Rightarrow> Fail OutOfStack
      | Some f \<Rightarrow>
          if p_offset p < length (space f)
          then Ok (set_space (p_area p) (write_at (p_offset p) b (space f)) s) else Fail OutOfMemory)"

definition saveInt16 :: "pointer \<Rightarrow> u16 \<Rightarrow> Stack \<Rightarrow> Stack outcome" where
  "saveInt16 p b s =
     (case data s (p_area p) of
        None \<Rightarrow> Fail OutOfStack
      | Some f \<Rightarrow>
          let offset = p_offset p
          in if offset + 1 < length (space f)
             then Ok (set_space (p_area p)
                    ((space f)[offset := ucast b, offset + 1 := ucast (drop_bit 8 b)]) s)
             else Fail OutOfMemory)"

fun store_loop :: "nat \<Rightarrow> nat \<Rightarrow> nat \<Rightarrow> 'a::len word \<Rightarrow> bytes \<Rightarrow> bytes" where
  "store_loop 0 i offset b sp = sp"
| "store_loop (Suc k) i offset b sp =
     store_loop k (i + 1) offset b (sp[offset + i := ucast (drop_bit (8 * i) b)])"

definition saveInt32 :: "pointer \<Rightarrow> u32 \<Rightarrow> Stack \<Rightarrow> Stack outcome" where
  "saveInt32 p b s =
     (case data s (p_area p) of
        None \<Rightarrow> Fail OutOfStack
      | Some f \<Rightarrow>
          if p_offset p + 3 < length (space f)
          then Ok (set_space (p_area p) (store_loop 4 0 (p_offset p) b (space f)) s)
          else Fail OutOfMemory)"

definition saveInt64 :: "pointer \<Rightarrow> u64 \<Rightarrow> Stack \<Rightarrow> Stack outcome" where
  "saveInt64 p b s =
     (case data s (p_area p) of
        None \<Rightarrow> Fail OutOfStack
      | Some f \<Rightarrow>
          if p_offset p + 7 < length (space f)
          then Ok (set_space (p_area p) (store_loop 8 0 (p_offset p) b (space f)) s)
          else Fail OutOfMemory)"

definition savePointer :: "pointer \<Rightarrow> pointer \<Rightarrow> Stack \<Rightarrow> Stack outcome" where
  "savePointer p d s = saveInt64 p d s"

definition saveHash :: "pointer \<Rightarrow> hash \<Rightarrow> Stack \<Rightarrow> Stack outcome" where
  "saveHash p h s =
     (case data s (p_area p) of
        None \<Rightarrow> Fail OutOfStack
      | Some f \<Rightarrow>
          if p_offset p + 31 < length (space f)
          then Ok (set_space (p_area p) (write_at (p_offset p) h (space f)) s) else Fail OutOfMemory)"

section \<open>Cells\<close>

lemma length_store_loop [simp]: "length (store_loop k i offset b sp) = length sp"
  by (induction k i offset b sp rule: store_loop.induct) auto

lemma nth_store_loop:
  "offset + i + k \<le> length sp \<Longrightarrow> x < length sp \<Longrightarrow>
   store_loop k i offset b sp ! x =
     (if offset + i \<le> x \<and> x < offset + i + k then ucast (drop_bit (8 * (x - offset)) b) else sp ! x)"
proof (induction k i offset b sp rule: store_loop.induct)
  case (2 k i offset b sp)
  then show ?case by (cases "x = offset + i") auto
qed auto

lemma store_loop_write:
  assumes "offset + k \<le> length sp"
  shows "store_loop k 0 offset b sp = write_at offset (le_bytes k b) sp"
  using assms
  by (intro nth_equalityI) (auto simp: nth_store_loop write_at_def nth_append le_bytes_def min_def)

lemma length_write_at [simp]: "offset + length b \<le> length sp \<Longrightarrow> length (write_at offset b sp) = length sp"
  by (simp add: write_at_def)

lemma nth_write_at:
  assumes "offset + length b \<le> length sp" "x < length sp"
  shows "write_at offset b sp ! x = (if offset \<le> x \<and> x < offset + length b then b ! (x - offset) else sp ! x)"
  using assms by (auto simp: write_at_def nth_append)

lemma read_write_at:
  assumes "offset + length b \<le> length sp"
  shows "take (length b) (drop offset (write_at offset b sp)) = b"
  using assms by (simp add: write_at_def)

text \<open>The interface of a typed cell of the memory: loads and saves of values of a fixed width.\<close>

locale memory_cell =
  fixes width :: nat and dec :: "bytes \<Rightarrow> 'v" and enc :: "'v \<Rightarrow> bytes" and good :: "'v \<Rightarrow> bool"
    and load :: "pointer \<Rightarrow> Stack \<Rightarrow> 'v outcome" and save :: "pointer \<Rightarrow> 'v \<Rightarrow> Stack \<Rightarrow> Stack outcome"
  assumes load_eq: "load p s =
      (case data s (p_area p) of
         None \<Rightarrow> Fail OutOfStack
       | Some f \<Rightarrow> if p_offset p + width \<le> length (space f)
                   then Ok (dec (take width (drop (p_offset p) (space f)))) else Fail OutOfMemory)"
    and save_eq: "good v \<Longrightarrow> save p v s =
      (case data s (p_area p) of
         None \<Rightarrow> Fail OutOfStack
       | Some f \<Rightarrow> if p_offset p + width \<le> length (space f)
                   then Ok (set_space (p_area p) (write_at (p_offset p) (enc v) (space f)) s)
                   else Fail OutOfMemory)"
    and enc_length: "good v \<Longrightarrow> length (enc v) = width"
    and dec_enc: "good v \<Longrightarrow> dec (enc v) = v"
begin

lemma load_save:
  assumes "good v" "save p v s = Ok s'"
  shows "load p s' = Ok v"
  using assms enc_length [OF assms(1)] dec_enc [OF assms(1)] read_write_at [of "p_offset p" "enc v"]
  by (auto simp: save_eq load_eq set_space_def split: option.splits if_splits)

lemma save_ok_iff: "good v \<Longrightarrow> (\<exists>s'. save p v s = Ok s') \<longleftrightarrow> (\<exists>v. load p s = Ok v)"
  by (auto simp: save_eq load_eq split: option.splits)

lemma save_other_bytes:
  assumes "good v" "save p v s = Ok s'"
    and "p_area q \<noteq> p_area p \<or> p_offset q < p_offset p \<or> p_offset p + width \<le> p_offset q"
  shows "toByte q s' = toByte q s"
  using assms enc_length [OF assms(1)]
  by (auto simp: save_eq toByte_def set_space_def nth_write_at split: option.splits if_splits)

lemma save_shape:
  assumes "good v" "save p v s = Ok s'"
  shows "callTop s' = callTop s \<and> libTop s' = libTop s
    \<and> map_option (\<lambda>f. (length (space f), inlib f, gbase f, frame_pc f, pure f)) (data s' a)
      = map_option (\<lambda>f. (length (space f), inlib f, gbase f, frame_pc f, pure f)) (data s a)"
  using assms enc_length [OF assms(1)]
  by (auto simp: save_eq set_space_def split: option.splits if_splits)

end

lemma take_drop_cells: "o1 + n \<le> length sp \<Longrightarrow> take n (drop o1 sp) = map (\<lambda>i. sp ! (o1 + i)) [0..<n]"
  by (intro nth_equalityI) auto

lemma word_cells:
  "ucast a OR push_bit 8 (ucast b) = (le_word [a, b] :: u16)"
  "ucast a OR push_bit 8 (ucast b) OR push_bit 16 (ucast c) OR push_bit 24 (ucast d) = (le_word [a, b, c, d] :: u32)"
  "ucast a OR push_bit 8 (ucast b) OR push_bit 16 (ucast c) OR push_bit 24 (ucast d)
     OR push_bit 32 (ucast e) OR push_bit 40 (ucast f) OR push_bit 48 (ucast g) OR push_bit 56 (ucast h)
     = (le_word [a, b, c, d, e, f, g, h] :: u64)"
  by (simp_all add: push_bit_or or.assoc)

interpretation byte_cell: memory_cell 1 "\<lambda>bs. hd bs" "\<lambda>b. [b]" "\<lambda>_. True" toByte saveByte
  by unfold_locales
    (auto simp: toByte_def saveByte_def write_at_def hd_drop_conv_nth upd_conv_take_nth_drop
      hd_take split: option.splits)

interpretation int16_cell: memory_cell 2 le_word "le_bytes 2" "\<lambda>_. True" toInt16 saveInt16
proof unfold_locales
  fix p s show "toInt16 p s = (case data s (p_area p) of
         None \<Rightarrow> Fail OutOfStack
       | Some f \<Rightarrow> if p_offset p + 2 \<le> length (space f)
                   then Ok (le_word (take 2 (drop (p_offset p) (space f)))) else Fail OutOfMemory)"
    by (auto simp: toInt16_def word_cells take_drop_cells numeral_eq_Suc Let_def split: option.split)
next
  fix v :: u16 and p s
  have "(sp :: bytes)[k := ucast v, k + 1 := ucast (drop_bit 8 v)] = write_at k (le_bytes 2 v) sp"
    if "k + 2 \<le> length sp" for sp k
    using store_loop_write [OF that, of v] by (simp add: numeral_2_eq_2)
  then show "saveInt16 p v s = (case data s (p_area p) of
         None \<Rightarrow> Fail OutOfStack
       | Some f \<Rightarrow> if p_offset p + 2 \<le> length (space f)
                   then Ok (set_space (p_area p) (write_at (p_offset p) (le_bytes 2 v) (space f)) s)
                   else Fail OutOfMemory)"
    by (auto simp: saveInt16_def Let_def split: option.split)
qed simp_all

interpretation int32_cell: memory_cell 4 le_word "le_bytes 4" "\<lambda>_. True" toInt32 saveInt32
proof unfold_locales
  fix p s show "toInt32 p s = (case data s (p_area p) of
         None \<Rightarrow> Fail OutOfStack
       | Some f \<Rightarrow> if p_offset p + 4 \<le> length (space f)
                   then Ok (le_word (take 4 (drop (p_offset p) (space f)))) else Fail OutOfMemory)"
    by (auto simp: toInt32_def word_cells take_drop_cells numeral_eq_Suc Let_def split: option.split)
qed (auto simp: saveInt32_def store_loop_write split: option.split)

interpretation int64_cell: memory_cell 8 le_word "le_bytes 8" "\<lambda>_. True" toInt64 saveInt64
proof unfold_locales
  fix p s show "toInt64 p s = (case data s (p_area p) of
         None \<Rightarrow> Fail OutOfStack
       | Some f \<Rightarrow> if p_offset p + 8 \<le> length (space f)
                   then Ok (le_word (take 8 (drop (p_offset p) (space f)))) else Fail OutOfMemory)"
    by (auto simp: toInt64_def word_cells take_drop_cells numeral_eq_Suc Let_def split: option.split)
qed (auto simp: saveInt64_def store_loop_write split: option.split)

interpretation hash_cell: memory_cell 32 "\<lambda>bs. bs" "\<lambda>h. h" "\<lambda>h. length h = 32" toHash saveHash
  by unfold_locales (auto simp: toHash_def saveHash_def split: option.split)


definition sample_stack :: Stack where
  "sample_stack = Newstack\<lparr> data := [0 \<mapsto> newFrame\<lparr> space := replicate 64 0 \<rparr>] \<rparr>"


section \<open>Big numbers\<close>

lemma HashToBig_append_zero: "HashToBig (h @ replicate k 0) = HashToBig h"
proof (induction h)
  case Nil
  show ?case by (induction k) (simp_all add: HashToBig_Cons)
qed (simp add: HashToBig_Cons)

lemma significant_zeros:
  "n \<le> length h \<Longrightarrow> take n h = take (significant h n) h @ replicate (n - significant h n) 0 \<and> significant h n \<le> n"
proof (induction n)
  case (Suc n)
  then have IH: "take n h = take (significant h n) h @ replicate (n - significant h n) 0" "significant h n \<le> n" by auto
  show ?case
  proof (cases "h ! n = 0")
    case True
    have "take (Suc n) h = take n h @ [0]" using Suc.prems True by (simp add: take_Suc_conv_app_nth)
    also have "\<dots> = take (significant h n) h @ replicate (Suc n - significant h n) 0"
      using IH by (simp add: Suc_diff_le replicate_append_same)
    finally show ?thesis using True IH by simp
  qed simp
qed simp

text \<open>
  \<open>toBig\<close> reads a 256 bit little endian number: it fails only outside of the memory, and
  otherwise gives the value of the 32 bytes, between 0 and \<open>2 ^ 256\<close>; stripping the leading
  zeros and reversing the rest is the same as reversing all the bytes.
\<close>

theorem toBig_value:
  "toBig p s =
     (case toHash p s of
        Ok h \<Rightarrow> Ok (HashToBig h)
      | _ \<Rightarrow> Fail OutOfStack)
   \<and> (case toBig p s of Ok n \<Rightarrow> 0 \<le> n \<and> n < 2 ^ 256 | _ \<Rightarrow> True)"
proof -
  have sig: "SetBytes (reverse_loop (take (significant h 32) h) 0) = HashToBig h" if "length h = 32" for h
  proof -
    have "take 32 h = take (significant h 32) h @ replicate (32 - significant h 32) 0"
      using significant_zeros [of 32 h] that by simp
    then have "h = take (significant h 32) h @ replicate (32 - significant h 32) 0" using that by simp
    then have "HashToBig h = HashToBig (take (significant h 32) h)" by (metis HashToBig_append_zero)
    then show ?thesis by (simp add: HashToBig_def)
  qed
  have "toBig p s = (case toHash p s of Ok h \<Rightarrow> Ok (HashToBig h) | _ \<Rightarrow> Fail OutOfStack)"
    by (auto simp: toBig_def toHash_def sig Let_def simp del: take_take split: option.split)
  moreover have "0 \<le> n \<and> n < 2 ^ 256" if "toHash p s = Ok h" "n = HashToBig h" for n h
  proof -
    have "length h = 32" using that(1) by (auto simp: toHash_def split: option.splits if_splits)
    then show ?thesis using HashToBig_bounds [of h] that(2) by simp
  qed
  ultimately show ?thesis by (auto split: outcome.splits)
qed

end
