(* ===== verification/OVM_Operand.thy ===== *)
theory OVM_Operand
  imports OVM_Stack
begin

text \<open>
  Operands of contract instructions, the functions \<open>getNum\<close> and \<open>addressing\<close> of
  \<^verbatim>\<open>omega/ovm/instructions.go\<close>. Instructions carry their operands as text: decimal or
  hexadecimal digits, with letters for the sign, for indirection, for global data and for offsets,
  ended by a comma. The characters are their codes, as in the source: \<^verbatim>\<open>0-9\<close> are
  \<open>0x30 .. 0x39\<close>, \<^verbatim>\<open>a-f\<close> \<open>0x61 .. 0x66\<close>, \<^verbatim>\<open>x\<close> \<open>0x78\<close>,
  \<^verbatim>\<open>n\<close> \<open>0x6e\<close>, \<^verbatim>\<open>i\<close> \<open>0x69\<close>, \<^verbatim>\<open>g\<close> \<open>0x67\<close>, the head
  offset \<open>0x27\<close>, the tail offset \<open>0x22\<close>, the comma \<open>0x2c\<close>; the data types
  \<^verbatim>\<open>B W D Q\<close> are \<open>0x42 0x57 0x44 0x51\<close> and \<open>0xFF\<close> is a pointer. An
  \<open>int64\<close> is a 64 bit word.
\<close>

unbundle bit_operations_syntax

subsection \<open>Addressing\<close>

text \<open>The base area of an operand; it panics without a current frame.\<close>

definition base_area :: "bool \<Rightarrow> Stack \<Rightarrow> int outcome" where
  "base_area global s =
     (if \<not> global then Ok (callTop s)
      else case data s (callTop s) of None \<Rightarrow> Panic | Some f \<Rightarrow> Ok (gbase f))"

definition add_offset :: "pointer \<Rightarrow> u64 \<Rightarrow> pointer" where
  "add_offset p off = (p AND NOT 0xFFFFFFFF) OR ((p + off) AND 0xFFFFFFFF)"

text \<open>The head offset is used in the first indirection only.\<close>

fun indirections :: "nat \<Rightarrow> u64 \<Rightarrow> pointer \<Rightarrow> Stack \<Rightarrow> pointer outcome" where
  "indirections 0 off p s = Ok p"
| "indirections (Suc k) off p s =
     bind_out (toPointer p s) (\<lambda>q. indirections k 0 (add_offset q off) s)"

definition address_fault :: ovm_error where
  "address_fault = ScriptError ''Memory address fault''"

definition addressing :: "nat \<Rightarrow> bool \<Rightarrow> bool \<Rightarrow> u64 list \<Rightarrow> bool \<Rightarrow> Stack \<Rightarrow> pointer outcome" where
  "addressing indirect global tail offsets notaddr s =
     (if indirect = 0 then Ok 0
      else
        bind_out (base_area global s) (\<lambda>t.
        bind_out (indirections (indirect - 1) (offsets ! 1)
                    (push_bit 32 (word_of_int t) OR offsets ! 0) s) (\<lambda>p.
          let p = (if tail then add_offset p (offsets ! 2) else p)
          in case data s (p_area p) of
               None \<Rightarrow> Fail address_fault
             | Some f \<Rightarrow>
                 if notaddr \<and> p_offset p \<ge> length (space f) then Fail address_fault else Ok p)))"

subsection \<open>Numbers\<close>

record num_state =
  num_hex :: bool
  nums :: "u64 list"
  num_tmp :: u64
  num_global :: bool
  num_sign :: int
  num_offset :: nat
  num_tail :: bool
  num_indirect :: nat

definition num_init :: num_state where
  "num_init = \<lparr> num_hex = False, nums = [0, 0, 0], num_tmp = 0, num_global = False, num_sign = 1,
     num_offset = 0, num_tail = False, num_indirect = 0 \<rparr>"

definition malformed_operand :: ovm_error where
  "malformed_operand = ScriptError ''Malformed operand''"

definition is_digit :: "byte \<Rightarrow> bool" where
  "is_digit c \<longleftrightarrow> 0x30 \<le> c \<and> c \<le> 0x39"

definition is_hex_letter :: "byte \<Rightarrow> bool" where
  "is_hex_letter c \<longleftrightarrow> 0x61 \<le> c \<and> c \<le> 0x66"

definition put_num :: "u64 \<Rightarrow> num_state \<Rightarrow> num_state" where
  "put_num v st = st\<lparr> num_tmp := v, nums := (nums st)[num_offset st := v] \<rparr>"

text \<open>The value at the end of the operand, when the comma is reached.\<close>

definition num_value :: "Stack \<Rightarrow> byte \<Rightarrow> num_state \<Rightarrow> u64 outcome" where
  "num_value s dataType st =
     bind_out (base_area (num_global st) s) (\<lambda>_.
       if num_indirect st > 0 then
         bind_out (addressing (num_indirect st) (num_global st) (num_tail st) (nums st) (dataType \<noteq> 0xFF) s) (\<lambda>p.
           if dataType = 0x42 then
             bind_out (toByte p s) (\<lambda>b. Ok (word_of_int (uint b * num_sign st)))
           else if dataType = 0x57 then
             bind_out (toInt16 p s) (\<lambda>b. Ok (word_of_int (sint b * num_sign st)))
           else if dataType = 0x44 then
             bind_out (toInt32 p s) (\<lambda>b. Ok (word_of_int (sint b * num_sign st)))
           else if dataType = 0x51 then
             bind_out (toInt64 p s) (\<lambda>b. Ok (b * word_of_int (num_sign st)))
           else if dataType = 0xFF then Ok p
           else Ok 0)
       else Ok (nums st ! 0 * word_of_int (num_sign st)))"

fun getNum_loop :: "Stack \<Rightarrow> byte \<Rightarrow> num_state \<Rightarrow> nat \<Rightarrow> bytes \<Rightarrow> (u64 \<times> nat) outcome" where
  "getNum_loop s dataType st j [] = Fail malformed_operand"
| "getNum_loop s dataType st j (c # param) =
     (if is_digit c then
        getNum_loop s dataType
          (put_num (num_tmp st * (if num_hex st then 16 else 10) + ucast (c - 0x30)) st) (j + 1) param
      else if is_hex_letter c then
        getNum_loop s dataType
          (put_num (num_tmp st * 16 + ucast (c - 0x61) + 10) st\<lparr> num_hex := True \<rparr>) (j + 1) param
      else if c = 0x78 then getNum_loop s dataType (st\<lparr> num_hex := True \<rparr>) (j + 1) param
      else if c = 0x6e then getNum_loop s dataType (st\<lparr> num_sign := - 1 \<rparr>) (j + 1) param
      else if c = 0x69 then
        if num_indirect st + 1 > 6 then Fail malformed_operand
        else getNum_loop s dataType (st\<lparr> num_indirect := num_indirect st + 1 \<rparr>) (j + 1) param
      else if c = 0x67 then getNum_loop s dataType (st\<lparr> num_global := True \<rparr>) (j + 1) param
      else if c = 0x27 then
        getNum_loop s dataType (st\<lparr> num_offset := 1, num_tmp := 0 \<rparr>) (j + 1) param
      else if c = 0x22 then
        getNum_loop s dataType (st\<lparr> num_tail := True, num_offset := 2, num_tmp := 0 \<rparr>) (j + 1) param
      else if c = 0x2c then bind_out (num_value s dataType st) (\<lambda>num. Ok (num, j))
      else Fail malformed_operand)"

definition getNum :: "bytes \<Rightarrow> byte \<Rightarrow> Stack \<Rightarrow> (u64 \<times> nat) outcome" where
  "getNum param dataType s = getNum_loop s dataType num_init 0 param"

section \<open>Proofs\<close>

lemma bind_out_Ok: "bind_out m f = Ok y \<longleftrightarrow> (\<exists>x. m = Ok x \<and> f x = Ok y)"
  by (cases m) auto

lemma bind_out_Panic: "bind_out m f = Panic \<longleftrightarrow> m = Panic \<or> (\<exists>x. m = Ok x \<and> f x = Panic)"
  by (cases m) auto

lemma bind_out_cong [fundef_cong]:
  "m = m' \<Longrightarrow> (\<And>x. m' = Ok x \<Longrightarrow> f x = g x) \<Longrightarrow> bind_out m f = bind_out m' g"
  by (cases m') auto

text \<open>A stack whose current frame exists, as the interpreter keeps it.\<close>

definition stack_ok :: "Stack \<Rightarrow> bool" where
  "stack_ok s \<longleftrightarrow> data s (callTop s) \<noteq> None"

lemma load_no_panic: "toByte p s \<noteq> Panic" "toInt16 p s \<noteq> Panic" "toInt32 p s \<noteq> Panic"
  "toInt64 p s \<noteq> Panic" "toHash p s \<noteq> Panic"
  by (auto simp: toByte_def toInt16_def toInt32_def toInt64_def toHash_def Let_def split: option.splits)

lemma save_no_panic: "saveByte p b s \<noteq> Panic" "saveInt16 p w s \<noteq> Panic" "saveInt32 p x s \<noteq> Panic"
  "saveInt64 p y s \<noteq> Panic"
  by (auto simp: saveByte_def saveInt16_def saveInt32_def saveInt64_def Let_def split: option.splits)

lemma base_area_no_panic: "stack_ok s \<Longrightarrow> base_area g s \<noteq> Panic"
  by (auto simp: base_area_def stack_ok_def split: option.splits)

lemma indirections_no_panic: "indirections k off p s \<noteq> Panic"
  by (induction k off p s rule: indirections.induct)
    (auto simp: bind_out_Panic toPointer_def load_no_panic)

lemma addressing_no_panic: "stack_ok s \<Longrightarrow> addressing n g t offs na s \<noteq> Panic"
  by (auto simp: addressing_def bind_out_Panic base_area_no_panic indirections_no_panic Let_def split: option.splits)

text \<open>An address that is returned lies in an area, and inside of it unless only the address is wanted.\<close>

lemma addressing_valid:
  "addressing n g t offs na s = Ok p \<Longrightarrow> 0 < n \<Longrightarrow>
   \<exists>f. data s (p_area p) = Some f \<and> (na \<longrightarrow> p_offset p < length (space f))"
  by (auto simp: addressing_def bind_out_Ok Let_def split: option.splits if_splits)

lemma num_value_no_panic: "stack_ok s \<Longrightarrow> num_value s dt st \<noteq> Panic"
  by (auto simp: num_value_def bind_out_Panic base_area_no_panic addressing_no_panic load_no_panic split: if_splits)

lemma getNum_loop_no_panic: "stack_ok s \<Longrightarrow> getNum_loop s dt st j param \<noteq> Panic"
  by (induction s dt st j param rule: getNum_loop.induct)
    (auto simp: bind_out_Panic num_value_no_panic split: if_splits)

lemma getNum_loop_consumed:
  "getNum_loop s dt st j param = Ok (n, k) \<Longrightarrow> j \<le> k \<and> k < j + length param"
proof (induction s dt st j param rule: getNum_loop.induct)
  case (2 s dt st j c param)
  show ?case
  proof (cases "c = 0x2c")
    case True
    then show ?thesis using 2(9) by (auto simp: bind_out_Ok is_digit_def is_hex_letter_def split: if_splits)
  next
    case False
    then have "j + 1 \<le> k \<and> k < j + 1 + length param"
      using 2 by (simp split: if_splits)
    then show ?thesis by simp
  qed
qed simp

text \<open>A decimal literal, most significant digit first.\<close>

fun decimal :: "nat \<Rightarrow> bytes" where
  "decimal n = (if n < 10 then [0x30 + of_nat n] else decimal (n div 10) @ [0x30 + of_nat (n mod 10)])"

declare decimal.simps [simp del]

lemma digit_code: "d < 10 \<Longrightarrow> is_digit (0x30 + of_nat d) \<and> (ucast ((0x30 + of_nat d) - 0x30 :: byte) :: u64) = of_nat d"
proof -
  assume d: "d < 10"
  then have "unat (0x30 + of_nat d :: byte) = 48 + d" by (simp add: unat_word_ariths unat_of_nat)
  moreover have "(ucast (of_nat d :: byte) :: u64) = of_nat d"
    using d by (intro word_unat_eq_iff [THEN iffD2]) (simp add: unat_of_nat unsigned_ucast_eq take_bit_nat_eq_self take_bit_nat_def)
  ultimately show ?thesis using d by (simp add: is_digit_def word_le_nat_alt)
qed

lemma getNum_loop_digit:
  "d < 10 \<Longrightarrow> getNum_loop s dt st j ((0x30 + of_nat d) # rest) =
   getNum_loop s dt (put_num (num_tmp st * (if num_hex st then 16 else 10) + of_nat d) st) (j + 1) rest"
  using digit_code [of d] by simp

lemma put_num_simps [simp]:
  "num_tmp (put_num v st) = v" "num_hex (put_num v st) = num_hex st" "put_num w (put_num v st) = put_num w st"
  by (simp_all add: put_num_def)

lemma getNum_loop_decimal:
  "num_tmp st = 0 \<Longrightarrow> \<not> num_hex st \<Longrightarrow>
   getNum_loop s dt st j (decimal n @ rest) = getNum_loop s dt (put_num (of_nat n) st) (j + length (decimal n)) rest"
proof (induction n arbitrary: j rest rule: decimal.induct)
  case (1 n)
  show ?case
  proof (cases "n < 10")
    case True
    then show ?thesis
      using getNum_loop_digit [of n s dt st j rest] 1(2,3) by (simp add: decimal.simps [of n])
  next
    case False
    have "(of_nat (n div 10) * 10 + of_nat (n mod 10) :: u64) = of_nat n"
      by (metis div_mult_mod_eq of_nat_add of_nat_mult of_nat_numeral)
    then show ?thesis
      using 1 False getNum_loop_digit [of "n mod 10"]
      by (simp add: decimal.simps [of n])
  qed
qed

lemma getNum_decimal: "getNum (decimal n @ 0x2c # rest) dt s = Ok (of_nat n, length (decimal n))"
  by (simp add: getNum_def getNum_loop_decimal num_init_def put_num_def num_value_def base_area_def
      is_digit_def is_hex_letter_def)

lemma pointer_parts:
  assumes "- (2 ^ 31) \<le> a" "a < 2 ^ 31" "n < 2 ^ 32"
  shows "p_area (push_bit 32 (word_of_int a) OR of_nat n) = a"
    and "p_offset (push_bit 32 (word_of_int a) OR of_nat n) = n"
proof -
  have msk: "x AND 0xFFFFFFFF = take_bit 32 x" for x :: u64
    by (simp add: take_bit_eq_mask mask_eq_exp_minus_1)
  have N: "unat (of_nat n :: u64) = n" using assms(3) by (simp add: unat_of_nat)
  have hi: "drop_bit 32 (of_nat n :: u64) = 0"
    using assms(3) by (intro word_unat_eq_iff [THEN iffD2]) (simp add: unat_drop_bit N)
  have lo: "take_bit 32 (of_nat n :: u64) = of_nat n"
    using assms(3) by (simp add: take_bit_of_nat take_bit_nat_eq_self)
  show "p_offset (push_bit 32 (word_of_int a) OR of_nat n) = n"
    by (simp add: p_offset_def msk lo N take_bit_push_bit)
  have "(ucast (drop_bit 32 (push_bit 32 (word_of_int a :: u64))) :: u32) = word_of_int a"
    by (rule bit_word_eqI) (auto simp: bit_simps)
  moreover have "sint (word_of_int a :: u32) = a"
    using assms(1,2) by (simp add: signed_of_int signed_take_bit_int_eq_self)
  ultimately show "p_area (push_bit 32 (word_of_int a) OR of_nat n) = a"
    by (simp add: p_area_def drop_bit_or hi)
qed

lemma getNum_indirect:
  assumes "data s (callTop s) = Some f" "0 \<le> callTop s" "callTop s < 2 ^ 31" "n < 2 ^ 32" "n + 8 \<le> length (space f)"
  shows "getNum (0x69 # decimal n @ 0x2c # rest) 0x51 s = Ok (le_word (take 8 (drop n (space f))), Suc (length (decimal n)))"
proof -
  let ?p = "push_bit 32 (word_of_int (callTop s)) OR of_nat n :: pointer"
  have parts: "p_area ?p = callTop s" "p_offset ?p = n" using pointer_parts [of "callTop s" n] assms by simp_all
  have "toInt64 ?p s = Ok (le_word (take 8 (drop n (space f))))"
    using assms by (simp add: int64_cell.load_eq parts)
  moreover have "addressing 1 False False [of_nat n, 0, 0] True s = Ok ?p"
    using assms by (simp add: addressing_def base_area_def parts)
  ultimately show ?thesis
    by (simp add: getNum_def getNum_loop_decimal num_init_def put_num_def num_value_def base_area_def
        is_digit_def is_hex_letter_def)
qed

lemma getNum_negative:
  "getNum (0x6e # decimal n @ 0x2c # rest) dt s = Ok (- of_nat n, Suc (length (decimal n)))"
  by (simp add: getNum_def getNum_loop_decimal num_init_def put_num_def num_value_def base_area_def
      is_digit_def is_hex_letter_def)

text \<open>
  What an operand means. A decimal literal is its value modulo \<open>2^64\<close>, whatever the data
  type and the memory, and the index of its comma is returned; \<open>n\<close> negates it; and with
  \<open>i\<close> the little endian 64 bit integer that the current frame holds at that offset is loaded,
  wherever the offset is inside of the frame.
\<close>

theorem operand_meaning:
  assumes "data s (callTop s) = Some f" "0 \<le> callTop s" "callTop s < 2 ^ 31" "n < 2 ^ 32" "n + 8 \<le> length (space f)"
  shows "getNum (decimal m @ 0x2c # rest) dt s = Ok (of_nat m, length (decimal m))
    \<and> getNum (0x6e # decimal m @ 0x2c # rest) dt s = Ok (- of_nat m, Suc (length (decimal m)))
    \<and> getNum (0x69 # decimal n @ 0x2c # rest) 0x51 s
        = Ok (le_word (take 8 (drop n (space f))), Suc (length (decimal n)))"
  using getNum_indirect [OF assms] getNum_decimal getNum_negative by blast

theorem operand_meaning_witness:
  "getNum (0x69 # decimal 4 @ 0x2c # []) 0x51
     \<lparr> callTop = 0, libTop = 0, data = [0 \<mapsto> newFrame\<lparr> space := [9, 9, 9, 9, 7, 1, 0, 0, 0, 0, 0, 0] \<rparr>] \<rparr>
   = Ok (263, 2)"
  using operand_meaning [of "\<lparr> callTop = 0, libTop = 0, data = [0 \<mapsto> newFrame\<lparr> space := [9, 9, 9, 9, 7, 1, 0, 0, 0, 0, 0, 0] \<rparr>] \<rparr>"
      "newFrame\<lparr> space := [9, 9, 9, 9, 7, 1, 0, 0, 0, 0, 0, 0] \<rparr>" 4 0 "[]" 0]
  by (simp add: decimal.simps)

text \<open>
  C35: Operands are memory safe. While the current frame exists no operand makes the machine
  panic: malformed text and addresses outside of the memory are errors. When a number is returned
  its comma is inside of the text, so the caller continues behind it; and an address that is
  returned lies in an existing area, inside of it when the value there is wanted.
\<close>

theorem operand_safe:
  assumes "data s (callTop s) = Some f"
  shows "getNum param dt s \<noteq> Panic
    \<and> (\<forall>n k. getNum param dt s = Ok (n, k) \<longrightarrow> k < length param)
    \<and> addressing d g t offs notaddr s \<noteq> Panic
    \<and> (0 < d \<longrightarrow> (\<forall>p. addressing d g t offs notaddr s = Ok p
          \<longrightarrow> (\<exists>f. data s (p_area p) = Some f \<and> (notaddr \<longrightarrow> p_offset p < length (space f)))))"
proof -
  have ok: "stack_ok s" using assms by (simp add: stack_ok_def)
  have "k < length param" if "getNum param dt s = Ok (n, k)" for n k
    using getNum_loop_consumed [of s dt num_init 0 param n k] that by (simp add: getNum_def)
  then show ?thesis
    using getNum_loop_no_panic [OF ok] addressing_no_panic [OF ok] addressing_valid
    unfolding getNum_def by blast
qed

theorem operand_safe_witness:
  "getNum [0x69, 0x67, 0x39, 0x2c] 0x51 Newstack \<noteq> Panic
   \<and> addressing 1 False False [3, 0, 0] True Newstack \<noteq> Panic"
  using operand_safe [of Newstack "newFrame\<lparr> space := replicate 4 0 \<rparr>" "[0x69, 0x67, 0x39, 0x2c]" "0x51"]
  by (simp add: Newstack_def)

end
