(* ===== verification/OVM_Eval.thy ===== *)
theory OVM_Eval
  imports OVM_Operand "HOL-Library.Signed_Division"
begin

text \<open>
  The arithmetic instructions \<open>opEval8\<close>, \<open>opEval16\<close>, \<open>opEval32\<close> and
  \<open>opEval64\<close> of \<^verbatim>\<open>omega/ovm/instructions.go\<close>. The parameter of an instruction is
  an expression in postfix notation: operands push a value on a scratch stack, an operator replaces
  the topmost values by its result, and at the end the result is saved in the memory. The four
  functions have the same loop and the same operators at different widths: \<open>eval_loop\<close> is
  the loop, \<open>binop\<close> the binary operators, and for each width there are what a number does
  (\<open>eval8_num\<close>) and what another character does (\<open>eval8_char\<close>). Characters are their
  codes, as in the theory of operands. Go's slices panic outside of their bounds, so do
  \<open>slot\<close> and \<open>set_slot\<close>. The power operator goes through floating point numbers, whose
  conversion to integers depends on the platform out of range; it is the parameter \<open>powf\<close>
  of the evaluation, the result of the power of two integers at the width.
\<close>

unbundle bit_operations_syntax

record 'a eval_state =
  scratch :: "'a list"
  ev_top :: nat
  ev_type :: byte
  ev_unsigned :: bool
  ev_store :: pointer

subsection \<open>Operators\<close>

text \<open>The operators that take values from the stack, with the number of values they remove.\<close>

definition checkTop :: "byte \<Rightarrow> nat option" where
  "checkTop c =
     (if c \<in> set [0x2b, 0x2d, 0x2a, 0x2f, 0x25, 0x23, 0x26, 0x5b, 0x5d, 0x7c, 0x5e, 0x3e, 0x3c, 0x3d, 0x29, 0x28, 0x21]
      then Some 1
      else if c = 0x3f then Some 2 else None)"

definition underflow :: ovm_error where
  "underflow = ScriptError ''Malformed expression. Evaluation stack underflow.''"

definition malformed_expression :: ovm_error where
  "malformed_expression = ScriptError ''Malformed expression''"

definition malformed_target :: ovm_error where
  "malformed_target = ScriptError ''Malformed expression.''"

definition divided_by_0 :: ovm_error where
  "divided_by_0 = ScriptError ''Divided by 0''"

definition slot :: "'a list \<Rightarrow> int \<Rightarrow> 'a outcome" where
  "slot xs i = (if 0 \<le> i \<and> i < int (length xs) then Ok (xs ! nat i) else Panic)"

definition set_slot :: "'a list \<Rightarrow> int \<Rightarrow> 'a \<Rightarrow> 'a list outcome" where
  "set_slot xs i v = (if 0 \<le> i \<and> i < int (length xs) then Ok (xs[nat i := v]) else Panic)"

definition truth :: "bool \<Rightarrow> 'a::len word" where
  "truth r = (if r then 1 else 0)"

definition binop :: "(int \<Rightarrow> int \<Rightarrow> 'a::len word) \<Rightarrow> bool \<Rightarrow> byte \<Rightarrow> 'a word \<Rightarrow> 'a word \<Rightarrow> 'a word outcome" where
  "binop powf u c x y =
     (if c = 0x2b then Ok (x + y)
      else if c = 0x2d then Ok (x - y)
      else if c = 0x2a then Ok (x * y)
      else if c = 0x2f then
        if y = 0 then Fail divided_by_0
        else Ok (if u then x div y else word_of_int (sint x sdiv sint y))
      else if c = 0x25 then
        if y = 0 then Fail divided_by_0
        else Ok (if u then x mod y else word_of_int (sint x smod sint y))
      else if c = 0x23 then Ok (if u then powf (uint x) (uint y) else powf (sint x) (sint y))
      else if c = 0x5b then if sint y < 0 then Panic else Ok (push_bit (unat y) x)
      else if c = 0x5d then if sint y < 0 then Panic else Ok (signed_drop_bit (unat y) x)
      else if c = 0x7c then Ok (x OR y)
      else if c = 0x26 then Ok (x AND y)
      else if c = 0x5e then Ok (x XOR y)
      else if c = 0x3e then Ok (truth (if u then x > y else sint x > sint y))
      else if c = 0x3c then Ok (truth (if u then x < y else sint x < sint y))
      else if c = 0x3d then Ok (truth (x = y))
      else if c = 0x29 then Ok (truth (if u then x \<ge> y else sint x \<ge> sint y))
      else if c = 0x28 then Ok (truth (if u then x \<le> y else sint x \<le> sint y))
      else Ok (truth (x \<noteq> y)))"

text \<open>The operators, once the number of values on the stack has been reduced: a binary one at the
  two topmost values, the choice \<^verbatim>\<open>?\<close> at three, the complement \<^verbatim>\<open>~\<close> at one.\<close>

definition operate :: "(int \<Rightarrow> int \<Rightarrow> 'a::len word) \<Rightarrow> byte \<Rightarrow> 'a word eval_state \<Rightarrow> 'a word eval_state outcome" where
  "operate powf c st =
     (if c = 0x3f then
        bind_out (slot (scratch st) (int (ev_top st) + 1)) (\<lambda>cond.
          if cond = 0 then
            bind_out (slot (scratch st) (int (ev_top st))) (\<lambda>y.
            bind_out (set_slot (scratch st) (int (ev_top st) - 1) y) (\<lambda>xs. Ok (st\<lparr> scratch := xs \<rparr>)))
          else Ok st)
      else if c = 0x7e then
        bind_out (slot (scratch st) (int (ev_top st) - 1)) (\<lambda>x.
        bind_out (set_slot (scratch st) (int (ev_top st) - 1) (NOT x)) (\<lambda>xs. Ok (st\<lparr> scratch := xs \<rparr>)))
      else
        bind_out (slot (scratch st) (int (ev_top st) - 1)) (\<lambda>x.
        bind_out (slot (scratch st) (int (ev_top st))) (\<lambda>y.
        bind_out (binop powf (ev_unsigned st) c x y) (\<lambda>v.
        bind_out (set_slot (scratch st) (int (ev_top st) - 1) v) (\<lambda>xs. Ok (st\<lparr> scratch := xs \<rparr>))))))"

definition is_operator :: "byte \<Rightarrow> bool" where
  "is_operator c \<longleftrightarrow> checkTop c \<noteq> None \<or> c = 0x7e"

subsection \<open>The loop\<close>

definition starts_operand :: "byte \<Rightarrow> bool" where
  "starts_operand c \<longleftrightarrow> is_digit c \<or> is_hex_letter c \<or> c = 0x78 \<or> c = 0x6e \<or> c = 0x69 \<or> c = 0x67"

text \<open>A value is pushed and the slice extended when it is full.\<close>

definition push :: "'a::len word \<Rightarrow> 'a word eval_state \<Rightarrow> 'a word eval_state outcome" where
  "push v st =
     bind_out (set_slot (scratch st) (int (ev_top st)) v) (\<lambda>xs.
       Ok (st\<lparr> ev_top := ev_top st + 1, scratch := (if ev_top st + 1 = length xs then xs @ [0] else xs) \<rparr>))"

definition pop_check :: "byte \<Rightarrow> nat \<Rightarrow> nat outcome" where
  "pop_check c t =
     (case checkTop c of
        None \<Rightarrow> Ok t
      | Some d \<Rightarrow> if t \<le> d then Fail underflow else Ok (t - d))"

definition init_state :: "bytes \<Rightarrow> 'a::len word eval_state" where
  "init_state param = \<lparr> scratch = replicate ((length param + 7) div 4) 0, ev_top = 0, ev_type = 0xFF,
     ev_unsigned = False, ev_store = 0 \<rparr>"

function (sequential) eval_loop :: "(u64 \<Rightarrow> 'a::len word eval_state \<Rightarrow> 'a word eval_state outcome)
    \<Rightarrow> (byte \<Rightarrow> 'a word eval_state \<Rightarrow> 'a word eval_state outcome) \<Rightarrow> Stack
    \<Rightarrow> 'a word eval_state \<Rightarrow> bytes \<Rightarrow> 'a word eval_state outcome" where
  "eval_loop number chr s st [] = Ok st"
| "eval_loop number chr s st (c # param) =
     bind_out (pop_check c (ev_top st)) (\<lambda>t.
       if starts_operand c then
         bind_out (getNum (c # param) (ev_type st) s) (\<lambda>(num, tl).
         bind_out (number num (st\<lparr> ev_top := t \<rparr>)) (\<lambda>st'.
           eval_loop number chr s (st'\<lparr> ev_unsigned := False \<rparr>) (drop tl param)))
       else
         bind_out (chr c (st\<lparr> ev_top := t \<rparr>)) (\<lambda>st'.
           eval_loop number chr s (if c \<noteq> 0x75 then st'\<lparr> ev_unsigned := False \<rparr> else st') param))"
  by pat_completeness auto
termination by (relation "measure (\<lambda>(_, _, _, _, param). length param)") auto

subsection \<open>8 bits\<close>

definition eval8_num :: "u64 \<Rightarrow> u8 eval_state \<Rightarrow> u8 eval_state outcome" where
  "eval8_num num st =
     bind_out (if ev_type st = 0xFF then Ok (st\<lparr> ev_store := num \<rparr>) else push (ucast num) st) (\<lambda>st'.
       Ok (st'\<lparr> ev_type := 0x42 \<rparr>))"

definition eval8_char :: "(int \<Rightarrow> int \<Rightarrow> u8) \<Rightarrow> byte \<Rightarrow> u8 eval_state \<Rightarrow> u8 eval_state outcome" where
  "eval8_char powf c st =
     (if c = 0x75 then Ok (st\<lparr> ev_unsigned := True \<rparr>)
      else if c = 0x40 then if ev_top st \<noteq> 0 then Fail malformed_target else Ok st
      else if c \<in> set [0x42, 0x57, 0x44, 0x51, 0x48] then Ok (st\<lparr> ev_type := 0x42 \<rparr>)
      else if is_operator c then operate powf c st
      else Ok st)"

definition opEval8 :: "(int \<Rightarrow> int \<Rightarrow> u8) \<Rightarrow> bytes \<Rightarrow> Stack \<Rightarrow> Stack outcome" where
  "opEval8 powf param s =
     bind_out (eval_loop eval8_num (eval8_char powf) s (init_state param) param) (\<lambda>st.
     bind_out (slot (scratch st) 0) (\<lambda>v. saveByte (ev_store st) v s))"

subsection \<open>16 bits\<close>

definition eval16_num :: "u64 \<Rightarrow> u16 eval_state \<Rightarrow> u16 eval_state outcome" where
  "eval16_num num st =
     bind_out (if ev_type st = 0xFF then Ok (st\<lparr> ev_store := num \<rparr>) else push (ucast num) st) (\<lambda>st'.
       Ok (st'\<lparr> ev_type := 0x57 \<rparr>))"

definition eval16_char :: "(int \<Rightarrow> int \<Rightarrow> u16) \<Rightarrow> byte \<Rightarrow> u16 eval_state \<Rightarrow> u16 eval_state outcome" where
  "eval16_char powf c st =
     (if c = 0x40 then if ev_top st \<noteq> 0 then Fail malformed_target else Ok st
      else if c = 0x42 then Ok (st\<lparr> ev_type := c \<rparr>)
      else if c \<in> set [0x57, 0x44, 0x51, 0x48] then Ok (st\<lparr> ev_type := 0x57 \<rparr>)
      else if c = 0x75 then Ok (st\<lparr> ev_unsigned := True \<rparr>)
      else if is_operator c then operate powf c st
      else Fail malformed_expression)"

definition opEval16 :: "(int \<Rightarrow> int \<Rightarrow> u16) \<Rightarrow> bytes \<Rightarrow> Stack \<Rightarrow> Stack outcome" where
  "opEval16 powf param s =
     bind_out (eval_loop eval16_num (eval16_char powf) s (init_state param) param) (\<lambda>st.
     bind_out (slot (scratch st) 0) (\<lambda>v. saveInt16 (ev_store st) v s))"

subsection \<open>32 bits\<close>

definition eval32_num :: "u64 \<Rightarrow> u32 eval_state \<Rightarrow> u32 eval_state outcome" where
  "eval32_num num st =
     bind_out (if ev_type st = 0xFF then Ok (st\<lparr> ev_store := num \<rparr>) else push (ucast num) st) (\<lambda>st'.
       Ok (st'\<lparr> ev_type := 0x44 \<rparr>))"

definition eval32_char :: "(int \<Rightarrow> int \<Rightarrow> u32) \<Rightarrow> byte \<Rightarrow> u32 eval_state \<Rightarrow> u32 eval_state outcome" where
  "eval32_char powf c st =
     (if c = 0x40 then if ev_top st \<noteq> 0 then Fail malformed_target else Ok st
      else if c \<in> set [0x42, 0x57] then Ok (st\<lparr> ev_type := c \<rparr>)
      else if c \<in> set [0x44, 0x51, 0x48] then Ok (st\<lparr> ev_type := 0x44 \<rparr>)
      else if c = 0x75 then Ok (st\<lparr> ev_unsigned := True \<rparr>)
      else if is_operator c then operate powf c st
      else Fail malformed_expression)"

definition opEval32 :: "(int \<Rightarrow> int \<Rightarrow> u32) \<Rightarrow> bytes \<Rightarrow> Stack \<Rightarrow> Stack outcome" where
  "opEval32 powf param s =
     bind_out (eval_loop eval32_num (eval32_char powf) s (init_state param) param) (\<lambda>st.
     bind_out (slot (scratch st) 0) (\<lambda>v. saveInt32 (ev_store st) v s))"

subsection \<open>64 bits\<close>

text \<open>The address where the result is saved is the first value of the scratch stack, not a variable
  of its own, and \<^verbatim>\<open>P\<close> replaces an address by what the memory holds there.\<close>

definition eval64_num :: "u64 \<Rightarrow> u64 eval_state \<Rightarrow> u64 eval_state outcome" where
  "eval64_num num st = bind_out (push num st) (\<lambda>st'. Ok (st'\<lparr> ev_type := 0x51 \<rparr>))"

definition eval64_char :: "(int \<Rightarrow> int \<Rightarrow> u64) \<Rightarrow> Stack \<Rightarrow> byte \<Rightarrow> u64 eval_state \<Rightarrow> u64 eval_state outcome" where
  "eval64_char powf s c st =
     (if c = 0x40 then Ok (st\<lparr> ev_type := 0xFF \<rparr>)
      else if c \<in> set [0x42, 0x57, 0x44] then Ok (st\<lparr> ev_type := c \<rparr>)
      else if c \<in> set [0x51, 0x48] then Ok (st\<lparr> ev_type := 0x51 \<rparr>)
      else if c = 0x75 then Ok (st\<lparr> ev_unsigned := True \<rparr>)
      else if c = 0x50 then
        bind_out (slot (scratch st) (int (ev_top st) - 1)) (\<lambda>tp.
        bind_out (toInt64 tp s) (\<lambda>v.
        bind_out (set_slot (scratch st) (int (ev_top st) - 1) v) (\<lambda>xs. Ok (st\<lparr> scratch := xs \<rparr>))))
      else if is_operator c then operate powf c st
      else Fail malformed_expression)"

definition opEval64 :: "(int \<Rightarrow> int \<Rightarrow> u64) \<Rightarrow> bytes \<Rightarrow> Stack \<Rightarrow> Stack outcome" where
  "opEval64 powf param s =
     bind_out (eval_loop eval64_num (eval64_char powf s) s (init_state param) param) (\<lambda>st.
     bind_out (slot (scratch st) 0) (\<lambda>store.
     bind_out (slot (scratch st) 1) (\<lambda>v. saveInt64 store v s)))"

section \<open>Proofs\<close>

lemma bind_out_assoc: "bind_out (bind_out m f) g = bind_out m (\<lambda>x. bind_out (f x) g)"
  by (cases m) auto

lemma nat_index [simp]: "nat (1 + int n) = Suc n" "nat (2 + int n) = Suc (Suc n)"
  by auto

text \<open>The scratch stack always has room for one more value.\<close>

definition ev_ok :: "'a eval_state \<Rightarrow> bool" where
  "ev_ok st \<longleftrightarrow> ev_top st < length (scratch st)"

definition ev_grown :: "'a eval_state \<Rightarrow> 'a eval_state \<Rightarrow> bool" where
  "ev_grown st st' \<longleftrightarrow> ev_ok st' \<and> length (scratch st) \<le> length (scratch st')"

lemma ev_ok_update [simp]:
  "ev_ok (st\<lparr> ev_type := b \<rparr>) = ev_ok st" "ev_ok (st\<lparr> ev_unsigned := u \<rparr>) = ev_ok st" "ev_ok (st\<lparr> ev_store := p \<rparr>) = ev_ok st"
  by (simp_all add: ev_ok_def)

lemma ev_grown_update [simp]:
  "ev_grown (st\<lparr> ev_top := t \<rparr>) st' = ev_grown st st'"
  "ev_grown st (st'\<lparr> ev_type := b \<rparr>) = ev_grown st st'" "ev_grown st (st'\<lparr> ev_unsigned := u \<rparr>) = ev_grown st st'"
  "ev_grown st (st'\<lparr> ev_store := p \<rparr>) = ev_grown st st'" "ev_grown st st = ev_ok st"
  by (auto simp: ev_grown_def)

text \<open>The characters at which an evaluation may panic: the complement and the dereference, which
  are not guarded against an empty stack, and the shifts, whose count may be negative.\<close>

definition unguarded :: "byte set" where
  "unguarded = {0x7e, 0x5b, 0x5d, 0x50}"

text \<open>A state in which an operator has found enough values.\<close>

definition op_ready :: "byte \<Rightarrow> 'a eval_state \<Rightarrow> bool" where
  "op_ready c st \<longleftrightarrow> (case checkTop c of
      None \<Rightarrow> ev_ok st
    | Some d \<Rightarrow> 0 < ev_top st \<and> ev_top st + d < length (scratch st))"

lemma op_ready_pop: "pop_check c (ev_top st) = Ok t \<Longrightarrow> ev_ok st \<Longrightarrow> op_ready c (st\<lparr> ev_top := t \<rparr>)"
  by (auto simp: pop_check_def op_ready_def ev_ok_def split: option.splits if_splits)

lemma op_ready_ok: "op_ready c st \<Longrightarrow> ev_ok st"
  by (auto simp: op_ready_def ev_ok_def split: option.splits)

lemma binop_safe: "c \<notin> unguarded \<Longrightarrow> binop powf u c x y \<noteq> Panic"
  by (simp add: binop_def unguarded_def)

lemma checkTop_choice [simp]: "checkTop 0x3f = Some 2"
  by (simp add: checkTop_def)

lemma checkTop_other: "checkTop c = Some d \<Longrightarrow> c \<noteq> 0x3f \<Longrightarrow> d = 1"
  by (auto simp: checkTop_def split: if_splits)

lemma operate_safe:
  assumes "op_ready c st" "checkTop c \<noteq> None" "c \<notin> unguarded"
  shows "operate powf c st \<noteq> Panic"
proof (cases "c = 0x3f")
  case True
  then show ?thesis using assms(1)
    by (auto simp: operate_def op_ready_def slot_def set_slot_def)
next
  case False
  then have "checkTop c = Some 1" using assms(2) checkTop_other by blast
  then show ?thesis using assms False binop_safe [OF assms(3)]
    by (auto simp: operate_def op_ready_def slot_def set_slot_def unguarded_def bind_out_Panic)
qed

lemma operate_frame:
  "operate powf c st = Ok st' \<Longrightarrow> ev_top st' = ev_top st \<and> length (scratch st') = length (scratch st)"
  by (auto simp: operate_def bind_out_Ok set_slot_def split: if_splits)

lemma push_ok: "ev_ok st \<Longrightarrow> \<exists>st'. push v st = Ok st' \<and> ev_grown st st'"
  by (auto simp: push_def set_slot_def ev_ok_def ev_grown_def)

text \<open>The meaning of the operators in the integers: an operand is its unsigned or its signed value, a
  result is taken modulo the width, quotients are truncated towards zero.\<close>

definition op_meaning :: "(int \<Rightarrow> int \<Rightarrow> 'a::len word) \<Rightarrow> bool \<Rightarrow> byte \<Rightarrow> 'a word \<Rightarrow> 'a word \<Rightarrow> 'a word outcome" where
  "op_meaning powf u c x y =
     (let a = (if u then uint x else sint x); b = (if u then uint y else sint y);
          quot = sgn a * sgn b * (\<bar>a\<bar> div \<bar>b\<bar>)
      in if c = 0x2b then Ok (word_of_int (a + b))
         else if c = 0x2d then Ok (word_of_int (a - b))
         else if c = 0x2a then Ok (word_of_int (a * b))
         else if c = 0x2f then if b = 0 then Fail divided_by_0 else Ok (word_of_int quot)
         else if c = 0x25 then if b = 0 then Fail divided_by_0 else Ok (word_of_int (a - quot * b))
         else if c = 0x23 then Ok (powf a b)
         else if c = 0x5b then if sint y < 0 then Panic else Ok (word_of_int (sint x * 2 ^ nat (sint y)))
         else if c = 0x5d then if sint y < 0 then Panic else Ok (word_of_int (sint x div 2 ^ nat (sint y)))
         else if c = 0x7c then Ok (word_of_int (sint x OR sint y))
         else if c = 0x26 then Ok (word_of_int (sint x AND sint y))
         else if c = 0x5e then Ok (word_of_int (sint x XOR sint y))
         else if c = 0x3e then Ok (word_of_int (of_bool (a > b)))
         else if c = 0x3c then Ok (word_of_int (of_bool (a < b)))
         else if c = 0x3d then Ok (word_of_int (of_bool (a = b)))
         else if c = 0x29 then Ok (word_of_int (of_bool (a \<ge> b)))
         else if c = 0x28 then Ok (word_of_int (of_bool (a \<le> b)))
         else Ok (word_of_int (of_bool (a \<noteq> b))))"

lemma bitwise_sint:
  fixes x y :: "'a::len word"
  shows "word_of_int (sint x OR sint y) = x OR y" "word_of_int (sint x AND sint y) = x AND y"
    "word_of_int (sint x XOR sint y) = x XOR y"
  by (rule bit_word_eqI, simp add: bit_simps bit_word_of_int_iff bit_sint_iff)+

lemma shift_sint:
  fixes x y :: "'a::len word"
  assumes "0 \<le> sint y"
  shows "push_bit (unat y) x = word_of_int (sint x * 2 ^ nat (sint y))"
    "signed_drop_bit (unat y) x = word_of_int (sint x div 2 ^ nat (sint y))"
proof -
  have n: "unat y = nat (sint y)"
  proof -
    have "\<not> bit (uint y) (LENGTH('a) - 1)" using assms by (simp add: sint_uint)
    then show ?thesis by (simp add: sint_uint signed_take_bit_eq_take_bit_minus take_bit_int_eq_self)
  qed
  show "push_bit (unat y) x = word_of_int (sint x * 2 ^ nat (sint y))"
    by (simp add: n push_bit_eq_mult)
  have "sint x div 2 ^ nat (sint y) = sint (signed_drop_bit (unat y) x)"
    by (simp add: n sint_signed_drop_bit_eq drop_bit_eq_div)
  then show "signed_drop_bit (unat y) x = word_of_int (sint x div 2 ^ nat (sint y))"
    by simp
qed

lemma quot_uint:
  fixes x y :: "'a::len word"
  assumes "y \<noteq> 0"
  shows "word_of_int (sgn (uint x) * sgn (uint y) * (\<bar>uint x\<bar> div \<bar>uint y\<bar>)) = x div y"
    "word_of_int (uint x - sgn (uint x) * sgn (uint y) * (\<bar>uint x\<bar> div \<bar>uint y\<bar>) * uint y) = x mod y"
proof -
  have "0 < uint y" using assms by (simp add: word_neq_0_conv [symmetric] uint_0_iff less_le)
  then have q: "sgn (uint x) * sgn (uint y) * (\<bar>uint x\<bar> div \<bar>uint y\<bar>) = uint (x div y)"
    by (cases "uint x = 0") (simp_all add: uint_div sgn_if)
  show "word_of_int (sgn (uint x) * sgn (uint y) * (\<bar>uint x\<bar> div \<bar>uint y\<bar>)) = x div y"
    by (simp only: q word_of_int_uint)
  show "word_of_int (uint x - sgn (uint x) * sgn (uint y) * (\<bar>uint x\<bar> div \<bar>uint y\<bar>) * uint y) = x mod y"
    by (simp only: q of_int_diff of_int_mult word_of_int_uint) (metis add_diff_cancel_left' div_mult_mod_eq)
qed

lemma quot_sint:
  fixes a b :: int
  shows "a sdiv b = sgn a * sgn b * (\<bar>a\<bar> div \<bar>b\<bar>)" "a smod b = a - sgn a * sgn b * (\<bar>a\<bar> div \<bar>b\<bar>) * b"
  using sdiv_mult_smod_eq [of a b] by (simp_all add: signed_divide_int_def)

lemma binop_meaning: "binop powf u c x y = op_meaning powf u c x y"
proof (cases u)
  case True
  have "uint x = uint y \<longleftrightarrow> x = y" "uint y = 0 \<longleftrightarrow> y = 0" by (simp_all add: word_uint_eq_iff)
  then show ?thesis using True quot_uint [of y x]
    by (simp add: binop_def op_meaning_def Let_def truth_def bitwise_sint shift_sint word_less_def word_le_def)
next
  case False
  have "sint x = sint y \<longleftrightarrow> x = y" "sint y = 0 \<longleftrightarrow> y = 0" by (auto intro: signed_word_eqI)
  then show ?thesis using False
    by (simp add: binop_def op_meaning_def Let_def truth_def bitwise_sint shift_sint quot_sint)
qed
text \<open>Expressions and their text: literals, the complement, the choice and the binary operators,
  signed or unsigned.\<close>

datatype expr = Lit int | Complement expr | Choice expr expr expr | Bin bool byte expr expr

definition literal :: "int \<Rightarrow> bytes" where
  "literal z = (if 0 \<le> z then decimal (nat z) else 0x6e # decimal (nat (- z)))"

fun compile :: "expr \<Rightarrow> bytes" where
  "compile (Lit z) = literal z @ [0x2c]"
| "compile (Complement a) = compile a @ [0x7e]"
| "compile (Choice a b c) = compile a @ compile b @ compile c @ [0x3f]"
| "compile (Bin u c a b) = compile a @ compile b @ (if u then [0x75] else []) @ [c]"

fun wf_expr :: "expr \<Rightarrow> bool" where
  "wf_expr (Lit z) = True"
| "wf_expr (Complement a) = wf_expr a"
| "wf_expr (Choice a b c) = (wf_expr a \<and> wf_expr b \<and> wf_expr c)"
| "wf_expr (Bin u c a b) = (checkTop c = Some 1 \<and> wf_expr a \<and> wf_expr b)"

text \<open>The value of an expression, with the errors and panics of its operators.\<close>

fun expr_value :: "(int \<Rightarrow> int \<Rightarrow> 'a::len word) \<Rightarrow> expr \<Rightarrow> 'a word outcome" where
  "expr_value powf (Lit z) = Ok (word_of_int z)"
| "expr_value powf (Complement a) = bind_out (expr_value powf a) (\<lambda>x. Ok (NOT x))"
| "expr_value powf (Choice a b c) =
     bind_out (expr_value powf a) (\<lambda>x. bind_out (expr_value powf b) (\<lambda>y. bind_out (expr_value powf c) (\<lambda>z.
       Ok (if z = 0 then y else x))))"
| "expr_value powf (Bin u c a b) =
     bind_out (expr_value powf a) (\<lambda>x. bind_out (expr_value powf b) (\<lambda>y. op_meaning powf u c x y))"

lemma starts_operand_checkTop: "starts_operand c \<Longrightarrow> checkTop c = None"
  by (auto simp: starts_operand_def checkTop_def is_digit_def is_hex_letter_def)

lemma decimal_head: "\<exists>c cs. decimal n = c # cs \<and> starts_operand c"
proof (induction n rule: decimal.induct)
  case (1 n)
  then show ?case
    using digit_code [of n] by (cases "n < 10") (auto simp: decimal.simps [of n] starts_operand_def)
qed

lemma literal_head: "\<exists>c cs. literal z = c # cs \<and> starts_operand c"
  using decimal_head by (auto simp: literal_def starts_operand_def)

lemma getNum_literal: "getNum (literal z @ 0x2c # rest) dt s = Ok (word_of_int z, length (literal z))"
  by (simp add: literal_def getNum_decimal getNum_negative of_nat_nat)

lemma eval_loop_literal:
  "eval_loop number chr s st (literal z @ 0x2c # rest) =
   bind_out (number (word_of_int z) st) (\<lambda>st'. eval_loop number chr s (st'\<lparr> ev_unsigned := False \<rparr>) rest)"
proof -
  obtain c cs where c: "literal z = c # cs" "starts_operand c" using literal_head by blast
  have "getNum (c # cs @ 0x2c # rest) (ev_type st) s = Ok (word_of_int z, Suc (length cs))"
    using getNum_literal [of z rest] c by simp
  then show ?thesis using c by (simp add: pop_check_def starts_operand_checkTop)
qed

text \<open>The effect of an expression: its value on top of what was there.\<close>

definition pushed :: "byte \<Rightarrow> 'a eval_state \<Rightarrow> 'a \<Rightarrow> 'a eval_state \<Rightarrow> bool" where
  "pushed ty st v st' \<longleftrightarrow> ev_top st' = Suc (ev_top st) \<and> ev_ok st'
     \<and> take (Suc (ev_top st)) (scratch st') = take (ev_top st) (scratch st) @ [v]
     \<and> ev_type st' = ty \<and> \<not> ev_unsigned st' \<and> ev_store st' = ev_store st"

lemma pushed_push:
  assumes "ev_ok st" "\<not> ev_unsigned st"
  shows "\<exists>st'. push v st = Ok st' \<and> pushed ty st v (st'\<lparr> ev_type := ty \<rparr>)"
  using assms by (auto simp: push_def set_slot_def ev_ok_def pushed_def take_Suc_conv_app_nth nth_append)

lemma pushed_nth: "pushed ty st v st' \<Longrightarrow> scratch st' ! ev_top st = v"
  by (auto simp: pushed_def ev_ok_def take_Suc_conv_app_nth)

lemma pushed_take: "pushed ty st v st' \<Longrightarrow> ev_ok st \<Longrightarrow> take (ev_top st) (scratch st') = take (ev_top st) (scratch st)"
  by (auto simp: pushed_def ev_ok_def take_Suc_conv_app_nth)


text \<open>A loop, started in a state, consumes a text and leaves the value on top of a base state, or
  ends with the error or the panic, whatever text follows.\<close>

definition runs :: "('a eval_state \<Rightarrow> bytes \<Rightarrow> 'b outcome) \<Rightarrow> byte \<Rightarrow> 'a eval_state \<Rightarrow> 'a eval_state \<Rightarrow> bytes \<Rightarrow> 'a outcome \<Rightarrow> bool" where
  "runs loop ty base st code out \<longleftrightarrow> (case out of
      Panic \<Rightarrow> (\<forall>rest. loop st (code @ rest) = Panic)
    | Fail e \<Rightarrow> (\<forall>rest. loop st (code @ rest) = Fail e)
    | Ok v \<Rightarrow> (\<exists>st'. pushed ty base v st' \<and> (\<forall>rest. loop st (code @ rest) = loop st' rest)))"

lemma runs_seq:
  assumes "runs loop ty b st code m"
    and "\<And>x st1. pushed ty b x st1 \<Longrightarrow> runs loop ty b' st1 code2 (f x)"
  shows "runs loop ty b' st (code @ code2) (bind_out m f)"
proof (cases m)
  case (Ok x)
  then obtain st1 where st1: "pushed ty b x st1" "\<And>rest. loop st (code @ rest) = loop st1 rest"
    using assms(1) by (auto simp: runs_def)
  then show ?thesis using assms(2) [OF st1(1)] Ok by (auto simp: runs_def split: outcome.splits)
qed (use assms(1) in \<open>auto simp: runs_def\<close>)

lemma runs_bindI:
  assumes "\<And>rest. loop st (code @ rest) = bind_out m (\<lambda>v. loop (d v) rest)" "\<And>v. pushed ty b v (d v)"
  shows "runs loop ty b st code m"
  using assms by (cases m) (auto simp: runs_def)

lemma runs_OkI: "pushed ty b v st' \<Longrightarrow> (\<And>rest. loop st (code @ rest) = loop st' rest) \<Longrightarrow> runs loop ty b st code (Ok v)"
  by (auto simp: runs_def)

lemma pushed_ready: "pushed ty st v st' \<Longrightarrow> ev_ok st' \<and> ev_type st' = ty \<and> \<not> ev_unsigned st'"
  by (simp add: pushed_def)

lemma pushed_update:
  assumes "ev_ok st" "take (ev_top st) (scratch st') = take (ev_top st) (scratch st)" "ev_top st < length (scratch st')"
    "Suc (ev_top st) < length (scratch st')" "ev_type st' = ty" "ev_store st' = ev_store st"
  shows "pushed ty st v (st'\<lparr> ev_top := Suc (ev_top st), scratch := (scratch st')[ev_top st := v], ev_unsigned := False \<rparr>)"
  using assms by (simp add: pushed_def ev_ok_def take_Suc_conv_app_nth)

text \<open>Two values on top of a state.\<close>

lemma pushed_two:
  assumes "ev_ok st" "pushed ty st x st1" "pushed ty st1 y st2"
  shows "ev_top st2 = Suc (Suc (ev_top st))" "Suc (Suc (ev_top st)) < length (scratch st2)"
    "scratch st2 ! ev_top st = x" "scratch st2 ! Suc (ev_top st) = y"
    "take (ev_top st) (scratch st2) = take (ev_top st) (scratch st)" "ev_store st2 = ev_store st"
proof -
  have top1: "ev_top st1 = Suc (ev_top st)" using assms(2) by (simp add: pushed_def)
  have len: "Suc (ev_top st) < length (scratch st1)" "Suc (Suc (ev_top st)) < length (scratch st2)"
    using assms(2,3) by (simp_all add: pushed_def ev_ok_def)
  have eq: "take (Suc (ev_top st)) (scratch st2) = take (ev_top st) (scratch st) @ [x]"
    using pushed_take [OF assms(3)] assms(2) by (simp add: pushed_def)
  show "ev_top st2 = Suc (Suc (ev_top st))" "Suc (Suc (ev_top st)) < length (scratch st2)"
    "scratch st2 ! Suc (ev_top st) = y" "ev_store st2 = ev_store st"
    using assms len top1 pushed_nth [OF assms(3)] by (simp_all add: pushed_def)
  have "(take (Suc (ev_top st)) (scratch st2)) ! ev_top st = x"
    using eq assms(1) by (simp add: ev_ok_def nth_append)
  then show "scratch st2 ! ev_top st = x" by simp
  have "take (ev_top st) (take (Suc (ev_top st)) (scratch st2)) = take (ev_top st) (scratch st)"
    using eq assms(1) by (simp add: ev_ok_def)
  then show "take (ev_top st) (scratch st2) = take (ev_top st) (scratch st)" by simp
qed

lemma init_ok: "ev_ok (init_state param)"
  by (simp add: init_state_def ev_ok_def)

lemma slot_0_ok: "ev_grown st st' \<Longrightarrow> slot (scratch st') 0 \<noteq> Panic"
  by (auto simp: slot_def ev_grown_def ev_ok_def)

lemma slot_0_pushed: "ev_top st = 0 \<Longrightarrow> pushed ty st v st' \<Longrightarrow> slot (scratch st') 0 = Ok v \<and> ev_store st' = ev_store st"
  using pushed_nth [of ty st v st'] by (auto simp: slot_def pushed_def ev_ok_def)

lemma init_state_simps [simp]:
  "ev_top (init_state param) = 0" "ev_type (init_state param) = 0xFF" "ev_unsigned (init_state param) = False"
  by (simp_all add: init_state_def)

text \<open>The interface between the loop and the handlers of a width: numbers are pushed once the
  address of the result is known, operators are carried out, and no handler panics on a guarded
  character.\<close>

locale evaluator =
  fixes number :: "u64 \<Rightarrow> 'a::len word eval_state \<Rightarrow> 'a word eval_state outcome"
    and chr :: "byte \<Rightarrow> 'a word eval_state \<Rightarrow> 'a word eval_state outcome"
    and powf :: "int \<Rightarrow> int \<Rightarrow> 'a word" and ty :: byte
  assumes ty: "ty \<noteq> 0xFF" and width: "LENGTH('a) \<le> 64"
    and number_push: "ev_type st \<noteq> 0xFF \<Longrightarrow>
      number n st = bind_out (push (ucast n) st) (\<lambda>st'. Ok (st'\<lparr> ev_type := ty \<rparr>))"
    and number_safe: "ev_ok st \<Longrightarrow> \<exists>st'. number n st = Ok st' \<and> ev_grown st st'"
    and chr_operator: "is_operator c \<Longrightarrow> chr c st = operate powf c st"
    and chr_unsigned: "chr 0x75 st = Ok (st\<lparr> ev_unsigned := True \<rparr>)"
    and chr_safe: "op_ready c st \<Longrightarrow> c \<notin> unguarded \<Longrightarrow> chr c st \<noteq> Panic"
    and chr_ok: "op_ready c st \<Longrightarrow> chr c st = Ok st' \<Longrightarrow> ev_grown st st'"
begin

lemma handlers_ready:
  assumes "pop_check c (ev_top st) = Ok t" "ev_ok st"
  shows "number n (st\<lparr> ev_top := t \<rparr>) = Ok st' \<Longrightarrow> ev_grown st st'"
    and "chr c (st\<lparr> ev_top := t \<rparr>) = Ok st' \<Longrightarrow> ev_grown st st'"
    and "number n (st\<lparr> ev_top := t \<rparr>) \<noteq> Panic"
    and "c \<notin> unguarded \<Longrightarrow> chr c (st\<lparr> ev_top := t \<rparr>) \<noteq> Panic"
  using number_safe [OF op_ready_ok [OF op_ready_pop [OF assms]], of n]
    chr_ok [OF op_ready_pop [OF assms]] chr_safe [OF op_ready_pop [OF assms]]
  by (auto simp: ev_grown_def)

lemma loop_safe:
  assumes "stack_ok s" "ev_ok st" "set param \<inter> unguarded = {}"
  shows "eval_loop number chr s st param \<noteq> Panic"
  using assms(2,3)
proof (induction param arbitrary: st rule: length_induct)
  case (1 param)
  show ?case
  proof (cases param)
    case (Cons c cs)
    have IH: "eval_loop number chr s st' (drop k cs) \<noteq> Panic" if "ev_grown st st'" for st' k
    proof -
      have "length (drop k cs) < length param" "set (drop k cs) \<inter> unguarded = {}"
        using 1(3) Cons set_drop_subset [of k cs] by auto
      then show ?thesis using 1(1) that unfolding ev_grown_def by blast
    qed
    have "pop_check c (ev_top st) \<noteq> Panic" by (simp add: pop_check_def split: option.split)
    moreover have "getNum (c # cs) (ev_type st) s \<noteq> Panic"
      unfolding getNum_def by (rule getNum_loop_no_panic [OF assms(1)])
    ultimately show ?thesis
      using IH [of _ 0] IH handlers_ready [OF _ 1(2)] 1(3) Cons
      by (auto simp: bind_out_Panic split: if_splits)
  qed simp
qed

lemma loop_grown:
  assumes "eval_loop number chr s st param = Ok st'" "ev_ok st"
  shows "ev_grown st st'"
  using assms
proof (induction param arbitrary: st rule: length_induct)
  case (1 param)
  show ?case
  proof (cases param)
    case (Cons c cs)
    obtain t where t: "pop_check c (ev_top st) = Ok t" using 1(2) by (auto simp: Cons bind_out_Ok)
    have "\<exists>st1 k. ev_grown st st1 \<and> eval_loop number chr s st1 (drop k cs) = Ok st'"
    proof (cases "starts_operand c")
      case True
      then obtain n k st1 where n: "number n (st\<lparr> ev_top := t \<rparr>) = Ok st1"
          and l: "eval_loop number chr s (st1\<lparr> ev_unsigned := False \<rparr>) (drop k cs) = Ok st'"
        using 1(2) t by (auto simp: Cons bind_out_Ok simp del: getNum_loop.simps)
      have "ev_grown st (st1\<lparr> ev_unsigned := False \<rparr>)" using handlers_ready(1) [OF t 1(3) n] by simp
      then show ?thesis using l by blast
    next
      case False
      then obtain st1 where n: "chr c (st\<lparr> ev_top := t \<rparr>) = Ok st1"
          and l: "eval_loop number chr s (if c \<noteq> 0x75 then st1\<lparr> ev_unsigned := False \<rparr> else st1) (drop 0 cs) = Ok st'"
        using 1(2) t by (auto simp: Cons bind_out_Ok)
      have "ev_grown st (if c \<noteq> 0x75 then st1\<lparr> ev_unsigned := False \<rparr> else st1)"
        using handlers_ready(2) [OF t 1(3) n] by simp
      then show ?thesis using l by blast
    qed
    then obtain st1 k where st1: "ev_grown st st1" "eval_loop number chr s st1 (drop k cs) = Ok st'" by blast
    moreover have "length (drop k cs) < length param" using Cons by simp
    ultimately have "ev_grown st1 st'" using 1(1) unfolding ev_grown_def by blast
    then show ?thesis using st1(1) by (simp add: ev_grown_def)
  qed (use 1 in \<open>simp add: ev_grown_def\<close>)
qed

lemma step_bin:
  assumes "ev_ok st" "pushed ty st x st1" "pushed ty st1 y st2" "checkTop c = Some 1"
  shows "runs (eval_loop number chr s) ty st st2 ((if u then [0x75] else []) @ [c]) (binop powf u c x y)"
proof -
  note two = pushed_two [OF assms(1-3)]
  let ?done = "\<lambda>v. st2\<lparr> ev_top := Suc (ev_top st), scratch := (scratch st2)[ev_top st := v], ev_unsigned := False \<rparr>"
  have c: "is_operator c" "\<not> starts_operand c" "c \<noteq> 0x75" "c \<noteq> 0x3f" "c \<noteq> 0x7e"
    using assms(4) starts_operand_checkTop by (auto simp: is_operator_def checkTop_def)
  have pop: "pop_check c (Suc (Suc n)) = Ok (Suc n)" for n using assms(4) by (simp add: pop_check_def)
  have u: "eval_loop number chr s st2 (0x75 # rest) = eval_loop number chr s (st2\<lparr> ev_unsigned := True \<rparr>) rest" for rest
    by (simp add: pop_check_def checkTop_def starts_operand_def is_digit_def is_hex_letter_def chr_unsigned)
  have op: "eval_loop number chr s (st2\<lparr> ev_unsigned := u \<rparr>) (c # rest) =
      bind_out (binop powf u c x y) (\<lambda>v. eval_loop number chr s (?done v) rest)" for rest u
    using two by (simp add: chr_operator [OF c(1)] pop operate_def c slot_def set_slot_def bind_out_assoc)
  have "st2\<lparr> ev_unsigned := False \<rparr> = st2" using assms(3) by (cases st2) (simp add: pushed_def)
  then have "eval_loop number chr s st2 (((if u then [0x75] else []) @ [c]) @ rest) =
      bind_out (binop powf u c x y) (\<lambda>v. eval_loop number chr s (?done v) rest)" for rest
    using op [of True rest] op [of False rest] u [of "c # rest"] by (simp del: eval_loop.simps)
  moreover have "pushed ty st v (?done v)" for v
    using two assms(1,3) by (intro pushed_update) (simp_all add: pushed_def)
  ultimately show ?thesis by (rule runs_bindI)
qed

lemma step_complement:
  assumes "ev_ok st" "pushed ty st x st1"
  shows "runs (eval_loop number chr s) ty st st1 [0x7e] (Ok (NOT x))"
proof (rule runs_OkI)
  show "pushed ty st (NOT x) (st1\<lparr> ev_top := Suc (ev_top st), scratch := (scratch st1)[ev_top st := NOT x], ev_unsigned := False \<rparr>)"
    using assms pushed_take [OF assms(2,1)] by (intro pushed_update) (simp_all add: pushed_def ev_ok_def)
  show "eval_loop number chr s st1 ([0x7e] @ rest) = eval_loop number chr s
    (st1\<lparr> ev_top := Suc (ev_top st), scratch := (scratch st1)[ev_top st := NOT x], ev_unsigned := False \<rparr>) rest" for rest
    using assms(2) pushed_nth [OF assms(2)]
    by (simp add: pop_check_def checkTop_def starts_operand_def is_digit_def is_hex_letter_def chr_operator
        is_operator_def operate_def slot_def set_slot_def pushed_def ev_ok_def)
qed

lemma step_choice:
  assumes "ev_ok st" "pushed ty st x st1" "pushed ty st1 y st2" "pushed ty st2 z st3"
  shows "runs (eval_loop number chr s) ty st st3 [0x3f] (Ok (if z = 0 then y else x))"
proof (rule runs_OkI)
  note two = pushed_two [OF assms(1-3)]
  have ok1: "ev_ok st1" and top1: "ev_top st1 = Suc (ev_top st)" using assms(2) by (simp_all add: pushed_def)
  note top = pushed_two [OF ok1 assms(3,4)]
  have tk: "take (Suc (Suc (ev_top st))) (scratch st3) = take (Suc (Suc (ev_top st))) (scratch st2)"
    using pushed_take [OF assms(4)] assms(3) two by (simp add: pushed_def)
  have x: "scratch st3 ! ev_top st = x"
    using tk two(3) by (metis lessI less_SucI nth_take)
  have tk0: "take (ev_top st) (scratch st3) = take (ev_top st) (scratch st)"
    using arg_cong [OF tk, of "take (ev_top st)"] two(5) by simp
  let ?v = "if z = 0 then y else x"
  let ?done = "st3\<lparr> ev_top := Suc (ev_top st), scratch := (scratch st3)[ev_top st := ?v], ev_unsigned := False \<rparr>"
  show "pushed ty st ?v ?done"
    using assms(1,4) two top top1 tk0 by (intro pushed_update) (simp_all add: pushed_def)
  show "eval_loop number chr s st3 ([0x3f] @ rest) = eval_loop number chr s ?done rest" for rest
    using top top1 x list_update_id [of "scratch st3" "ev_top st"]
    by (simp add: pop_check_def starts_operand_def is_digit_def is_hex_letter_def chr_operator
        is_operator_def operate_def slot_def set_slot_def)
qed

lemma run_literal:
  assumes "ev_ok st" "ev_type st = ty" "\<not> ev_unsigned st"
  shows "runs (eval_loop number chr s) ty st st (literal z @ [0x2c]) (Ok (word_of_int z))"
proof -
  have "(ucast (word_of_int z :: u64) :: 'a word) = word_of_int z"
    using width by (intro bit_word_eqI) (auto simp: bit_simps)
  moreover obtain st' where "push (word_of_int z) st = Ok st'" "pushed ty st (word_of_int z) (st'\<lparr> ev_type := ty \<rparr>)"
    using pushed_push [OF assms(1,3), of "word_of_int z" ty] by blast
  moreover from this(2) have "st'\<lparr> ev_type := ty, ev_unsigned := False \<rparr> = st'\<lparr> ev_type := ty \<rparr>"
    by (cases st') (simp add: pushed_def)
  ultimately show ?thesis
    using assms ty by (auto simp: runs_def eval_loop_literal number_push simp del: eval_loop.simps)
qed

lemma run_expr:
  "wf_expr e \<Longrightarrow> ev_ok st \<Longrightarrow> ev_type st = ty \<Longrightarrow> \<not> ev_unsigned st \<Longrightarrow>
   runs (eval_loop number chr s) ty st st (compile e) (expr_value powf e)"
proof (induction e arbitrary: st)
  case (Lit z)
  then show ?case using run_literal by simp
next
  case (Complement a)
  show ?case unfolding compile.simps expr_value.simps
    by (rule runs_seq [OF Complement.IH step_complement]) (use Complement.prems in simp_all)
next
  case (Choice a b c)
  show ?case unfolding compile.simps expr_value.simps
    by (rule runs_seq [OF Choice.IH(1) runs_seq [OF Choice.IH(2) runs_seq [OF Choice.IH(3) step_choice]]])
      (use Choice.prems in \<open>auto dest: pushed_ready\<close>)
next
  case (Bin u c a b)
  show ?case unfolding compile.simps expr_value.simps binop_meaning [symmetric]
    by (rule runs_seq [OF Bin.IH(1) runs_seq [OF Bin.IH(2) step_bin]])
      (use Bin.prems in \<open>auto dest: pushed_ready\<close>)
qed

lemma run_all:
  assumes "wf_expr e" "ev_ok st" "ev_type st = ty" "\<not> ev_unsigned st"
    and "\<And>v st'. pushed ty st v st' \<Longrightarrow> k st' = h v"
  shows "bind_out (eval_loop number chr s st (compile e)) k = bind_out (expr_value powf e) h"
  using run_expr [OF assms(1-4), of s] assms(5)
  by (cases "expr_value powf e") (auto simp: runs_def dest: spec [where x = "[]"])

lemma finish_safe:
  assumes "stack_ok s" "set param \<inter> unguarded = {}" "\<And>st v. h st v \<noteq> Panic"
  shows "bind_out (eval_loop number chr s (init_state param) param) (\<lambda>st. bind_out (slot (scratch st) 0) (h st)) \<noteq> Panic"
  using loop_safe [OF assms(1) init_ok assms(2)] loop_grown [OF _ init_ok, of s param param] slot_0_ok assms(3)
  unfolding bind_out_Panic by blast

lemma start_correct:
  assumes "wf_expr e" "number (word_of_int p) (init_state q) = Ok ((init_state q)\<lparr> ev_store := w, ev_type := ty \<rparr>)"
  shows "bind_out (eval_loop number chr s (init_state q) (literal p @ 0x2c # compile e))
      (\<lambda>st. bind_out (slot (scratch st) 0) (h (ev_store st))) = bind_out (expr_value powf e) (h w)"
  unfolding eval_loop_literal assms(2) bind_out.simps
  by (rule run_all [OF assms(1)]) (use init_ok in \<open>auto dest: slot_0_pushed [rotated]\<close>)

lemma complement_first: "eval_loop number chr s (init_state q) (0x7e # param) = Panic"
  by (simp add: pop_check_def checkTop_def starts_operand_def is_digit_def is_hex_letter_def
      chr_operator is_operator_def operate_def slot_def)

end

lemma handler_safe:
  assumes "op_ready c st" "c \<notin> unguarded"
  shows "is_operator c \<Longrightarrow> operate powf c st \<noteq> Panic"
  using operate_safe [OF assms(1) _ assms(2)] assms(2) by (auto simp: is_operator_def unguarded_def)

lemma handler_ok: "op_ready c st \<Longrightarrow> operate powf c st = Ok st' \<Longrightarrow> ev_grown st st'"
  using operate_frame [of powf c st st'] op_ready_ok [of c st] by (simp add: ev_ok_def ev_grown_def)

lemma operator_codes: "is_operator c \<Longrightarrow> c \<notin> {0x75, 0x40, 0x42, 0x57, 0x44, 0x51, 0x48, 0x50}"
  by (auto simp: is_operator_def checkTop_def)

lemmas handler_facts = handler_safe handler_ok op_ready_ok operator_codes

interpretation eval8: evaluator eval8_num "eval8_char powf" powf "0x42" for powf
proof unfold_locales
  fix n and st :: "u8 eval_state" assume "ev_ok st"
  then show "\<exists>st'. eval8_num n st = Ok st' \<and> ev_grown st st'"
    using push_ok [of st "ucast n"] by (auto simp: eval8_num_def)
next
  fix c and st :: "u8 eval_state"
  show "is_operator c \<Longrightarrow> eval8_char powf c st = operate powf c st"
    using operator_codes [of c] by (simp add: eval8_char_def)
  assume "op_ready c st"
  then show "c \<notin> unguarded \<Longrightarrow> eval8_char powf c st \<noteq> Panic"
    and "eval8_char powf c st = Ok st' \<Longrightarrow> ev_grown st st'" for st'
    by (auto simp: eval8_char_def dest: handler_facts split: if_splits)
qed (simp_all add: eval8_num_def eval8_char_def)

interpretation eval16: evaluator eval16_num "eval16_char powf" powf "0x57" for powf
proof unfold_locales
  fix n and st :: "u16 eval_state" assume "ev_ok st"
  then show "\<exists>st'. eval16_num n st = Ok st' \<and> ev_grown st st'"
    using push_ok [of st "ucast n"] by (auto simp: eval16_num_def)
next
  fix c and st :: "u16 eval_state"
  show "is_operator c \<Longrightarrow> eval16_char powf c st = operate powf c st"
    using operator_codes [of c] by (simp add: eval16_char_def)
  assume "op_ready c st"
  then show "c \<notin> unguarded \<Longrightarrow> eval16_char powf c st \<noteq> Panic"
    and "eval16_char powf c st = Ok st' \<Longrightarrow> ev_grown st st'" for st'
    by (auto simp: eval16_char_def dest: handler_facts split: if_splits)
qed (simp_all add: eval16_num_def eval16_char_def)

interpretation eval32: evaluator eval32_num "eval32_char powf" powf "0x44" for powf
proof unfold_locales
  fix n and st :: "u32 eval_state" assume "ev_ok st"
  then show "\<exists>st'. eval32_num n st = Ok st' \<and> ev_grown st st'"
    using push_ok [of st "ucast n"] by (auto simp: eval32_num_def)
next
  fix c and st :: "u32 eval_state"
  show "is_operator c \<Longrightarrow> eval32_char powf c st = operate powf c st"
    using operator_codes [of c] by (simp add: eval32_char_def)
  assume "op_ready c st"
  then show "c \<notin> unguarded \<Longrightarrow> eval32_char powf c st \<noteq> Panic"
    and "eval32_char powf c st = Ok st' \<Longrightarrow> ev_grown st st'" for st'
    by (auto simp: eval32_char_def dest: handler_facts split: if_splits)
qed (simp_all add: eval32_num_def eval32_char_def)

interpretation eval64: evaluator eval64_num "eval64_char powf s" powf "0x51" for powf s
proof unfold_locales
  fix n and st :: "u64 eval_state" assume "ev_ok st"
  then show "\<exists>st'. eval64_num n st = Ok st' \<and> ev_grown st st'"
    using push_ok [of st n] by (auto simp: eval64_num_def)
next
  fix c and st :: "u64 eval_state"
  show "is_operator c \<Longrightarrow> eval64_char powf s c st = operate powf c st"
    using operator_codes [of c] by (simp add: eval64_char_def)
  assume rdy: "op_ready c st"
  then show "c \<notin> unguarded \<Longrightarrow> eval64_char powf s c st \<noteq> Panic"
    by (auto simp: eval64_char_def unguarded_def dest: handler_facts split: if_splits)
  show "eval64_char powf s c st = Ok st' \<Longrightarrow> ev_grown st st'" for st'
    using rdy
    by (auto simp: eval64_char_def bind_out_Ok set_slot_def ev_grown_def ev_ok_def dest: handler_facts split: if_splits)
qed (simp_all add: eval64_num_def eval64_char_def)


lemma opEval_small_correct:
  assumes "wf_expr e"
  shows "opEval8 powf8 (literal p @ 0x2c # compile e) s = bind_out (expr_value powf8 e) (\<lambda>v. saveByte (word_of_int p) v s)"
    and "opEval16 powf16 (literal p @ 0x2c # compile e) s = bind_out (expr_value powf16 e) (\<lambda>v. saveInt16 (word_of_int p) v s)"
    and "opEval32 powf32 (literal p @ 0x2c # compile e) s = bind_out (expr_value powf32 e) (\<lambda>v. saveInt32 (word_of_int p) v s)"
  unfolding opEval8_def opEval16_def opEval32_def
  by (rule eval8.start_correct [OF assms] eval16.start_correct [OF assms] eval32.start_correct [OF assms],
      simp add: eval8_num_def eval16_num_def eval32_num_def)+

lemma opEval64_correct:
  assumes "wf_expr e"
  shows "opEval64 powf (literal p @ 0x2c # compile e) s = bind_out (expr_value powf e) (\<lambda>v. saveInt64 (word_of_int p) v s)"
proof -
  let ?st = "init_state (literal p @ 0x2c # compile e) :: u64 eval_state"
  have ok: "ev_ok ?st" "\<not> ev_unsigned ?st" "ev_top ?st = 0" using init_ok by simp_all
  obtain st' where st': "push (word_of_int p) ?st = Ok st'" "pushed 0x51 ?st (word_of_int p) (st'\<lparr> ev_type := 0x51 \<rparr>)"
    using pushed_push [OF ok(1,2), of "word_of_int p" "0x51"] by blast
  let ?st1 = "st'\<lparr> ev_type := 0x51, ev_unsigned := False \<rparr>"
  have st1: "pushed 0x51 ?st (word_of_int p) ?st1" using st'(2) by (simp add: pushed_def)
  have "bind_out (eval_loop eval64_num (eval64_char powf s) s ?st1 (compile e)) (\<lambda>st.
      bind_out (slot (scratch st) 0) (\<lambda>store. bind_out (slot (scratch st) 1) (\<lambda>v. saveInt64 store v s)))
    = bind_out (expr_value powf e) (\<lambda>v. saveInt64 (word_of_int p) v s)"
  proof (rule eval64.run_all [OF assms])
    fix v st2 assume "pushed 0x51 ?st1 v st2"
    from pushed_two [OF ok(1) st1 this] show
      "bind_out (slot (scratch st2) 0) (\<lambda>store. bind_out (slot (scratch st2) 1) (\<lambda>v. saveInt64 store v s))
        = saveInt64 (word_of_int p) v s"
      using ok(3) by (auto simp: slot_def)
  qed (use pushed_ready [OF st1] in auto)
  then show ?thesis
    unfolding opEval64_def eval_loop_literal by (simp add: eval64_num_def st'(1))
qed

text \<open>
  C1: The evaluators compute the value of the expression. For every expression built from
  literals, the complement, the choice and the seventeen binary operators, signed or unsigned, the
  instruction whose parameter is an address and the postfix text of the expression has the outcome
  of the expression in the integers, taken modulo the width after every operation, division by zero
  and shifts by a negative count included, and the value is saved at the address.
\<close>

theorem eval_correct:
  assumes "wf_expr e"
  shows "opEval8 powf8 (literal p @ 0x2c # compile e) s
      = bind_out (expr_value powf8 e) (\<lambda>v. saveByte (word_of_int p) v s)
    \<and> opEval16 powf16 (literal p @ 0x2c # compile e) s
      = bind_out (expr_value powf16 e) (\<lambda>v. saveInt16 (word_of_int p) v s)
    \<and> opEval32 powf32 (literal p @ 0x2c # compile e) s
      = bind_out (expr_value powf32 e) (\<lambda>v. saveInt32 (word_of_int p) v s)
    \<and> opEval64 powf64 (literal p @ 0x2c # compile e) s
      = bind_out (expr_value powf64 e) (\<lambda>v. saveInt64 (word_of_int p) v s)"
  using opEval_small_correct [OF assms] opEval64_correct [OF assms] by blast

theorem eval_correct_witness:
  "opEval32 (\<lambda>_ _. 0) (literal 0 @ 0x2c # compile (Bin False 0x2f (Lit (-7)) (Lit 2))) Newstack
   = saveInt32 0 (- 3) Newstack"
proof -
  have wf: "wf_expr (Bin False 0x2f (Lit (-7)) (Lit 2))" by (simp add: checkTop_def)
  have val: "expr_value (\<lambda>_ _. 0 :: u32) (Bin False 0x2f (Lit (-7)) (Lit 2)) = Ok (- 3)"
    by (simp add: op_meaning_def)
  show ?thesis
    using eval_correct [OF wf, of undefined 0 Newstack undefined "\<lambda>_ _. 0" undefined] unfolding val by simp
qed

lemma eval_no_panic:
  assumes "data s (callTop s) = Some f" "set param \<inter> {0x7e, 0x5b, 0x5d, 0x50} = {}"
  shows "opEval8 powf8 param s \<noteq> Panic \<and> opEval16 powf16 param s \<noteq> Panic \<and> opEval32 powf32 param s \<noteq> Panic
    \<and> (param \<noteq> [] \<longrightarrow> opEval64 powf64 param s \<noteq> Panic)"
proof -
  have ok: "stack_ok s" "set param \<inter> unguarded = {}" using assms by (auto simp: stack_ok_def unguarded_def)
  have "opEval8 powf8 param s \<noteq> Panic" "opEval16 powf16 param s \<noteq> Panic" "opEval32 powf32 param s \<noteq> Panic"
    unfolding opEval8_def opEval16_def opEval32_def
    by (rule eval8.finish_safe [OF ok] eval16.finish_safe [OF ok] eval32.finish_safe [OF ok], rule save_no_panic)+
  moreover have "opEval64 powf64 param s \<noteq> Panic" if "param \<noteq> []"
  proof -
    have "2 \<le> length (scratch (init_state param :: u64 eval_state))"
      using that by (cases param) (auto simp: init_state_def)
    then have "slot (scratch st) 0 \<noteq> Panic \<and> slot (scratch st) 1 \<noteq> Panic"
      if "eval_loop eval64_num (eval64_char powf64 s) s (init_state param) param = Ok st" for st
      using eval64.loop_grown [OF that init_ok] by (auto simp: ev_grown_def slot_def)
    then show ?thesis
      using eval64.loop_safe [OF ok(1) init_ok ok(2), of powf64 s]
      by (auto simp: opEval64_def bind_out_Panic save_no_panic)
  qed
  ultimately show ?thesis by blast
qed

text \<open>
  C17: The evaluators are safe on guarded text. While the current frame exists, an evaluation whose
  parameter has no complement, no shift and no dereference ends in an error or a state and never
  panics, whatever the text is: the scratch stack is never accessed out of its bounds. The 64 bit
  evaluator needs a parameter that is not empty.
\<close>

theorem eval_safe:
  assumes "data s (callTop s) = Some f" "set param \<inter> {0x7e, 0x5b, 0x5d, 0x50} = {}"
  shows "opEval8 powf8 param s \<noteq> Panic \<and> opEval16 powf16 param s \<noteq> Panic \<and> opEval32 powf32 param s \<noteq> Panic
    \<and> (param \<noteq> [] \<longrightarrow> opEval64 powf64 param s \<noteq> Panic)"
  using eval_no_panic [OF assms] .

theorem eval_safe_witness:
  "opEval64 (\<lambda>_ _. 0) [0x2b, 0x2b, 0x3f] Newstack \<noteq> Panic"
  using eval_safe [of Newstack "newFrame\<lparr> space := replicate 4 0 \<rparr>" "[0x2b, 0x2b, 0x3f]"]
  by (simp add: Newstack_def)

text \<open>
  What the guards leave out. A parameter that begins with the complement makes every
  evaluator panic, because \<^verbatim>\<open>~\<close> is not in the table of the operators that need values; so does
  a shift by the literal minus one at every width, and the 64 bit evaluator on an empty parameter.
\<close>

theorem eval_panics:
  "opEval8 powf8 (0x7e # param) s = Panic \<and> opEval16 powf16 (0x7e # param) s = Panic
   \<and> opEval32 powf32 (0x7e # param) s = Panic \<and> opEval64 powf64 (0x7e # param) s = Panic
   \<and> opEval64 powf64 [] s = Panic
   \<and> opEval8 powf8 (literal p @ 0x2c # compile (Bin u 0x5b (Lit z) (Lit (- 1)))) s = Panic
   \<and> opEval64 powf64 (literal p @ 0x2c # compile (Bin u 0x5d (Lit z) (Lit (- 1)))) s = Panic"
proof (intro conjI)
  have wf: "wf_expr (Bin u c (Lit z) (Lit (- 1)))" if "c = 0x5b \<or> c = 0x5d" for c
    using that by (auto simp: checkTop_def)
  show "opEval8 powf8 (literal p @ 0x2c # compile (Bin u 0x5b (Lit z) (Lit (- 1)))) s = Panic"
    by (subst opEval_small_correct [OF wf]) (simp_all add: op_meaning_def)
  show "opEval64 powf64 (literal p @ 0x2c # compile (Bin u 0x5d (Lit z) (Lit (- 1)))) s = Panic"
    by (subst opEval64_correct [OF wf]) (simp_all add: op_meaning_def)
  show "opEval64 powf64 [] s = Panic"
    by (simp add: opEval64_def slot_def init_state_def)
qed (simp_all only: opEval8_def opEval16_def opEval32_def opEval64_def bind_out.simps
      eval8.complement_first eval16.complement_first eval32.complement_first eval64.complement_first)

end
