(* ===== verification/OVM_Instr.thy ===== *)
theory OVM_Instr
  imports OVM_Eval
begin

text \<open>
  Instructions of \<^verbatim>\<open>omega/ovm/instructions.go\<close> that move data and control: the conditional
  jump \<open>opIf\<close>, the call \<open>opCall\<close>, the allocations \<open>opMalloc\<close> and \<open>opAlloc\<close>, the copy \<open>opCopy\<close> and
  the return \<open>opReturn\<close>; with the contracts they belong to (\<^verbatim>\<open>omega/ovm/contract.go\<close>) and
  the parser of contract code. An instruction scans the text of its parameter: \<open>scan\<close> is the loop
  they share, with what a number and what another character do as arguments.
\<close>

unbundle bit_operations_syntax

subsection \<open>Contracts\<close>

type_synonym Address = bytes

record inst =
  i_op :: byte
  i_param :: bytes

record lib =
  l_address :: int
  l_end :: int
  l_base :: int
  l_pure :: byte

record Contract =
  Code :: "inst list"
  libs :: "Address \<rightharpoonup> lib"
  c_pure :: byte
  Input :: bytes

definition zero_address :: Address where
  "zero_address = replicate 20 0"

text \<open>A map in Go returns the zero value for a key that is not there.\<close>

definition lib_of :: "Address \<Rightarrow> Contract \<Rightarrow> lib" where
  "lib_of a c = (case libs c a of
      None \<Rightarrow> \<lparr> l_address = 0, l_end = 0, l_base = 0, l_pure = 0 \<rparr> | Some l \<Rightarrow> l)"

definition GetInst :: "int \<Rightarrow> Contract \<Rightarrow> inst outcome" where
  "GetInst n c =
     (if n < int (length (Code c)) then if n < 0 then Panic else Ok (Code c ! nat n)
      else Ok \<lparr> i_op = 0, i_param = [] \<rparr>)"

definition GetOp :: "int \<Rightarrow> Contract \<Rightarrow> byte outcome" where
  "GetOp n c = bind_out (GetInst n c) (\<lambda>i. Ok (i_op i))"

definition GetBytes :: "int \<Rightarrow> Contract \<Rightarrow> bytes outcome" where
  "GetBytes n c =
     (if n < int (length (Code c)) then if n < 0 then Panic else Ok (i_param (Code c ! nat n))
      else Ok [])"

text \<open>
  The parser. A semicolon or a new line ends an instruction, and the rest of the line is skipped.
  The state is what has been parsed, the instruction being read, and whether it is still blank; the
  instruction being read keeps its old value when a new one begins.
\<close>

function parse_code :: "inst list \<Rightarrow> inst \<Rightarrow> bool \<Rightarrow> bytes \<Rightarrow> inst list" where
  "parse_code instructions tmp blank [] = (if blank then instructions else instructions @ [tmp])"
| "parse_code instructions tmp blank (c # code) =
     (if c = 0x20 \<or> c = 0x09 \<or> c = 0x0d then parse_code instructions tmp blank code
      else if c \<noteq> 0x3b \<and> c \<noteq> 0x0a then
        if blank then parse_code instructions \<lparr> i_op = c, i_param = [] \<rparr> False code
        else parse_code instructions (tmp\<lparr> i_param := i_param tmp @ [c] \<rparr>) False code
      else parse_code (instructions @ [tmp]) tmp True (drop 1 (dropWhile (\<lambda>d. d \<noteq> 0x0a) (c # code))))"
  by pat_completeness auto
termination
  by (relation "measure (\<lambda>(_, _, _, code). length code)")
    (auto simp: less_Suc_eq_le intro: order.trans [OF diff_le_self] length_dropWhile_le)

definition ByteCodeParser :: "bytes \<Rightarrow> inst list" where
  "ByteCodeParser code = parse_code [] \<lparr> i_op = 0, i_param = [] \<rparr> True code"

subsection \<open>Scanning parameters\<close>

definition starts_number :: "byte \<Rightarrow> bool" where
  "starts_number c \<longleftrightarrow> is_digit c \<or> is_hex_letter c \<or> c = 0x78 \<or> c = 0x69 \<or> c = 0x67"

text \<open>The type of the next operand, what a number does (it may end the instruction with a result),
  and what another character does.\<close>

function scan :: "('s \<Rightarrow> byte outcome) \<Rightarrow> (u64 \<Rightarrow> 's \<Rightarrow> ('s + 'r) outcome) \<Rightarrow> (byte \<Rightarrow> 's \<Rightarrow> 's)
    \<Rightarrow> Stack \<Rightarrow> 's \<Rightarrow> bytes \<Rightarrow> ('s + 'r) outcome" where
  "scan ty number chr s st [] = Ok (Inl st)"
| "scan ty number chr s st (c # param) =
     (if starts_number c then
        bind_out (ty st) (\<lambda>t.
        bind_out (getNum (c # param) t s) (\<lambda>(num, tl).
        bind_out (number num st) (\<lambda>r.
          case r of Inl st' \<Rightarrow> scan ty number chr s st' (drop tl param) | Inr x \<Rightarrow> Ok (Inr x))))
      else scan ty number chr s (chr c st) param)"
  by pat_completeness auto
termination by (relation "measure (\<lambda>(_, _, _, _, _, param). length param)") auto

definition malformed_parameters :: ovm_error where
  "malformed_parameters = ScriptError ''Malformed parameters''"

subsection \<open>Conditional jump\<close>

record if_state =
  if_scratch :: "u32 list"
  if_sign :: u64

text \<open>The type of the operand is read at the index of the number of operands, and so is the
  place of the value; both have length two.\<close>

definition if_type :: "if_state \<Rightarrow> byte outcome" where
  "if_type st = slot [0x42, 0x44] (int (length (if_scratch st)))"

definition if_number :: "u64 \<Rightarrow> if_state \<Rightarrow> (if_state + unit) outcome" where
  "if_number num st = Ok (Inl (st\<lparr> if_scratch := if_scratch st @ [ucast (num * if_sign st)], if_sign := 1 \<rparr>))"

definition if_char :: "byte \<Rightarrow> if_state \<Rightarrow> if_state" where
  "if_char c st = (if c = 0x6e then st\<lparr> if_sign := - 1 \<rparr> else st)"

definition if_value :: "nat \<Rightarrow> if_state \<Rightarrow> u32" where
  "if_value i st = (if i < length (if_scratch st) then if_scratch st ! i else 0)"

definition out_of_range_jump :: ovm_error where
  "out_of_range_jump = ScriptError ''Out of range jump''"

definition opIf :: "int \<Rightarrow> Contract \<Rightarrow> Stack \<Rightarrow> int outcome" where
  "opIf pc contract s =
     bind_out (GetBytes pc contract) (\<lambda>param.
     bind_out (scan if_type if_number if_char s \<lparr> if_scratch = [], if_sign = 1 \<rparr> param) (\<lambda>r.
       case r of
         Inr _ \<Rightarrow> Panic
       | Inl st \<Rightarrow>
           let target = (if if_value 0 st = 0 then pc + 1 else pc + sint (if_value 1 st))
           in case data s (callTop s) of
                None \<Rightarrow> Panic
              | Some f \<Rightarrow>
                  let l = lib_of (inlib f) contract
                  in if target < l_address l \<or> target \<ge> l_end l then Fail out_of_range_jump else Ok target))"

subsection \<open>Allocation\<close>

record alloc_state =
  al_top :: nat
  al_ret :: pointer
  al_type :: byte

definition alloc_type :: "alloc_state \<Rightarrow> byte outcome" where
  "alloc_type st = slot [0xFF, al_type st] (int (al_top st))"

definition memory_size :: "Stack \<Rightarrow> nat" where
  "memory_size s = (\<Sum>a\<in>dom (data s). length (space (the (data s a))))"

definition exceeds_1GB :: ovm_error where
  "exceeds_1GB = ScriptError ''Memory requested exceeds 1GB''"

definition alloc_number :: "bool \<Rightarrow> Stack \<Rightarrow> u64 \<Rightarrow> alloc_state \<Rightarrow> (alloc_state + Stack) outcome" where
  "alloc_number glob s num st =
     (if al_top st = 0 then Ok (Inl (st\<lparr> al_ret := num, al_top := 1 \<rparr>))
      else if al_top st = 1 then
        let total_size = num + of_nat (memory_size s)
        in if total_size \<ge> 0x40000000 then Fail exceeds_1GB
           else bind_out (if glob then malloc (sint num) s else alloc (sint num) s) (\<lambda>((p, m), s').
                  if al_ret st \<noteq> 0 then bind_out (saveInt64 (al_ret st) p s') (\<lambda>s''. Ok (Inr s''))
                  else Ok (Inr s'))
      else Ok (Inl (st\<lparr> al_top := al_top st + 1 \<rparr>)))"

definition alloc_char :: "byte \<Rightarrow> alloc_state \<Rightarrow> alloc_state" where
  "alloc_char c st =
     (if c \<in> set [0x42, 0x57, 0x44, 0x51] then if al_top st = 1 then st\<lparr> al_type := c \<rparr> else st
      else if c = 0x48 then if al_top st = 1 then st\<lparr> al_type := 0x51 \<rparr> else st
      else st)"

definition opMAalloc :: "bool \<Rightarrow> bytes \<Rightarrow> Stack \<Rightarrow> Stack outcome" where
  "opMAalloc glob param s =
     bind_out (scan alloc_type (alloc_number glob s) alloc_char s \<lparr> al_top = 0, al_ret = 0, al_type = 0x44 \<rparr> param) (\<lambda>r.
       case r of Inr s' \<Rightarrow> Ok s' | Inl _ \<Rightarrow> Fail malformed_parameters)"

definition opMalloc :: "bytes \<Rightarrow> Stack \<Rightarrow> Stack outcome" where
  "opMalloc param s = opMAalloc True param s"

definition opAlloc :: "bytes \<Rightarrow> Stack \<Rightarrow> Stack outcome" where
  "opAlloc param s = opMAalloc False param s"

subsection \<open>Copy\<close>

record copy_state =
  cp_top :: nat
  cp_dest :: pointer
  cp_src :: pointer
  cp_type :: byte

definition copy_type :: "copy_state \<Rightarrow> byte outcome" where
  "copy_type st = slot [0xFF, 0xFF, cp_type st] (int (cp_top st))"

definition copy_number :: "Stack \<Rightarrow> u64 \<Rightarrow> copy_state \<Rightarrow> (copy_state + Stack) outcome" where
  "copy_number s num st =
     (if cp_top st = 0 then Ok (Inl (st\<lparr> cp_dest := num, cp_top := 1 \<rparr>))
      else if cp_top st = 1 then Ok (Inl (st\<lparr> cp_src := num, cp_top := 2 \<rparr>))
      else if cp_top st = 2 then
        bind_out (toBytesLen (cp_src st) (sint num) s) (\<lambda>sb.
        bind_out (saveBytes (cp_dest st) sb s) (\<lambda>s'. Ok (Inr s')))
      else Ok (Inl (st\<lparr> cp_top := cp_top st + 1 \<rparr>)))"

definition copy_char :: "byte \<Rightarrow> copy_state \<Rightarrow> copy_state" where
  "copy_char c st =
     (if c \<in> set [0x42, 0x57, 0x44, 0x51] then if cp_top st = 2 then st\<lparr> cp_type := c \<rparr> else st
      else if c = 0x48 then if cp_top st = 2 then st\<lparr> cp_type := 0x51 \<rparr> else st
      else st)"

definition opCopy :: "bytes \<Rightarrow> Stack \<Rightarrow> Stack outcome" where
  "opCopy param s =
     bind_out (scan copy_type (copy_number s) copy_char s
                 \<lparr> cp_top = 0, cp_dest = 0, cp_src = 0, cp_type = 0x44 \<rparr> param) (\<lambda>r.
       case r of Inr s' \<Rightarrow> Ok s' | Inl _ \<Rightarrow> Fail malformed_parameters)"

subsection \<open>Operands of bytes\<close>

text \<open>
  \<open>getBytesLen\<close> reads hexadecimal digits, or the bytes at an address. On an error it still
  returns how far it got, which one caller uses. Slicing an area past its length is possible in Go
  up to the capacity of the slice, which depends on the allocator: \<open>past\<close> is that slice.
\<close>

type_synonym slice_past = "bytes \<Rightarrow> u32 \<Rightarrow> u32 \<Rightarrow> bytes outcome"

definition slice :: "slice_past \<Rightarrow> bytes \<Rightarrow> u32 \<Rightarrow> u32 \<Rightarrow> bytes outcome" where
  "slice past sp a b =
     (if b < a then Panic
      else if unat b \<le> length sp then Ok (take (unat b - unat a) (drop (unat a) sp)) else past sp a b)"

record bytes_state =
  by_tmp :: bytes
  by_t :: byte
  by_even :: bool
  by_num :: num_state

definition by_put :: "u64 \<Rightarrow> byte \<Rightarrow> bool \<Rightarrow> bytes_state \<Rightarrow> bytes_state" where
  "by_put v t hex st =
     (let num = put_num v (by_num st)
      in if hex \<and> by_even st \<and> num_offset num = 0
         then st\<lparr> by_num := num, by_tmp := by_tmp st @ [t], by_t := 0, by_even := False \<rparr>
         else st\<lparr> by_num := num, by_t := t, by_even := \<not> by_even st \<rparr>)"

fun getBytes_loop :: "slice_past \<Rightarrow> u32 \<Rightarrow> Stack \<Rightarrow> nat \<Rightarrow> bytes_state \<Rightarrow> nat \<Rightarrow> bytes
    \<Rightarrow> (ovm_error option \<times> bytes \<times> nat) outcome" where
  "getBytes_loop past dlen s ln st j [] = Ok (Some malformed_operand, [], ln)"
| "getBytes_loop past dlen s ln st j (c # param) =
     (let num = by_num st
      in if is_digit c then
           getBytes_loop past dlen s ln
             (by_put (num_tmp num * (if num_hex num then 16 else 10) + ucast (c - 0x30))
                     (if num_hex num then push_bit 4 (by_t st) + (c - 0x30) else by_t st) (num_hex num) st) (j + 1) param
         else if is_hex_letter c then
           getBytes_loop past dlen s ln
             (by_put (push_bit 4 (num_tmp num) + ucast (c - 0x61) + 10) (push_bit 4 (by_t st) + (c - 0x61) + 10) True
                (st\<lparr> by_num := num\<lparr> num_hex := True \<rparr> \<rparr>)) (j + 1) param
         else if c = 0x78 then getBytes_loop past dlen s ln (st\<lparr> by_num := num\<lparr> num_hex := True \<rparr> \<rparr>) (j + 1) param
         else if c = 0x69 then
           if num_indirect num + 1 > 6 then Ok (Some malformed_operand, [], ln)
           else getBytes_loop past dlen s ln (st\<lparr> by_num := num\<lparr> num_indirect := num_indirect num + 1 \<rparr> \<rparr>) (j + 1) param
         else if c = 0x67 then getBytes_loop past dlen s ln (st\<lparr> by_num := num\<lparr> num_global := True \<rparr> \<rparr>) (j + 1) param
         else if c = 0x27 then
           getBytes_loop past dlen s ln
             (st\<lparr> by_num := num\<lparr> num_offset := 1, num_tmp := 0, num_hex := False \<rparr> \<rparr>) (j + 1) param
         else if c = 0x22 then
           getBytes_loop past dlen s ln
             (st\<lparr> by_num := num\<lparr> num_tail := True, num_offset := 2, num_tmp := 0, num_hex := False \<rparr> \<rparr>) (j + 1) param
         else if c = 0x2c then
           if num_indirect num > 0 then
             case addressing (num_indirect num) (num_global num) (num_tail num) (nums num) True s of
               Panic \<Rightarrow> Panic
             | Fail e \<Rightarrow> Ok (Some e, [], 0)
             | Ok p \<Rightarrow>
                 (case data s (p_area p) of
                    None \<Rightarrow> Ok (Some address_fault, [], j - 1)
                  | Some f \<Rightarrow>
                      let a = of_nat (p_offset p)
                      in bind_out (slice past (space f) a (a + dlen)) (\<lambda>b. Ok (None, b, j)))
           else Ok (None, by_tmp st, j)
         else Ok (Some malformed_operand, [], j - 1))"

definition getBytesLen :: "slice_past \<Rightarrow> bytes \<Rightarrow> u32 \<Rightarrow> Stack \<Rightarrow> (ovm_error option \<times> bytes \<times> nat) outcome" where
  "getBytesLen past param dlen s =
     getBytes_loop past dlen s (length param) \<lparr> by_tmp = [], by_t = 0, by_even = False, by_num = num_init \<rparr> 0 param"

definition sizeOfType :: "byte \<Rightarrow> u32" where
  "sizeOfType t =
     (if t = 0x52 then 21 else if t = 0x72 then 20 else if t = 0x42 then 1 else if t = 0x57 then 2
      else if t = 0x44 then 4 else if t = 0x51 then 8 else if t = 0x48 then 32 else if t = 0x68 then 32
      else if t = 0x6b then 33 else if t = 0x4b then 65 else 0)"

definition getBytes :: "slice_past \<Rightarrow> bytes \<Rightarrow> byte \<Rightarrow> u32 \<Rightarrow> Stack \<Rightarrow> (ovm_error option \<times> bytes \<times> nat) outcome" where
  "getBytes past param dataType dln s = getBytesLen past param (sizeOfType dataType + dln) s"

subsection \<open>Call\<close>

record call_state =
  ca_top :: nat
  ca_lib :: Address
  ca_self :: bool
  ca_offset :: u64
  ca_space :: bytes
  ca_type :: byte
  ca_sign :: u64

definition copy_into :: "bytes \<Rightarrow> bytes \<Rightarrow> bytes" where
  "copy_into dst src = take (length dst) src @ drop (length src) dst"

definition lib_not_loaded :: ovm_error where
  "lib_not_loaded = ScriptError ''Lib not loaded''"

text \<open>The first operand, the address of the library; an error of its reading is dropped.\<close>

definition call_lib :: "Contract \<Rightarrow> ovm_frame \<Rightarrow> bytes \<Rightarrow> call_state \<Rightarrow> call_state outcome" where
  "call_lib contract f bnum st =
     (let a = copy_into (ca_lib st) bnum
      in if libs contract a = None then Fail lib_not_loaded
         else Ok (st\<lparr> ca_lib := a, ca_self := list_all (\<lambda>b. b = 0) a \<or> a = inlib f, ca_top := 1, ca_type := 0x51 \<rparr>))"

text \<open>The second operand, the entry, and the parameters.\<close>

definition call_number :: "u64 \<Rightarrow> call_state \<Rightarrow> call_state" where
  "call_number num st =
     (if ca_top st = 1 then
        let off = num * ca_sign st
        in st\<lparr> ca_offset := off, ca_sign := 1, ca_top := 2, ca_type := 0x51,
             ca_space := ca_space st @ (if ca_self st then [] else le_bytes 4 (ucast off :: u32)) \<rparr>
      else st\<lparr> ca_type := 0x51, ca_space := ca_space st @ le_bytes 8 num \<rparr>)"

definition call_char :: "byte \<Rightarrow> call_state \<Rightarrow> call_state" where
  "call_char c st =
     (if c = 0x6e then st\<lparr> ca_sign := - 1 \<rparr>
      else if ca_top st \<noteq> 2 then st
      else if c = 0x40 then st\<lparr> ca_type := 0xFF \<rparr>
      else if c \<in> set [0x42, 0x57, 0x44, 0x51] then st\<lparr> ca_type := c \<rparr>
      else if c = 0x48 then st\<lparr> ca_type := 0x51 \<rparr>
      else st)"

function call_loop :: "slice_past \<Rightarrow> Contract \<Rightarrow> ovm_frame \<Rightarrow> Stack \<Rightarrow> call_state \<Rightarrow> bytes \<Rightarrow> call_state outcome" where
  "call_loop past contract f s st [] = Ok st"
| "call_loop past contract f s st (c # param) =
     (if starts_number c then
        if ca_top st = 0 then
          bind_out (getBytes past (c # param) 0x72 0 s) (\<lambda>(_, bnum, tl).
          bind_out (call_lib contract f bnum st) (\<lambda>st'. call_loop past contract f s st' (drop tl param)))
        else
          bind_out (getNum (c # param) (if ca_top st = 1 then 0x44 else ca_type st) s) (\<lambda>(num, tl).
            call_loop past contract f s (call_number num st) (drop tl param))
      else call_loop past contract f s (call_char c st) param)"
  by pat_completeness auto
termination by (relation "measure (\<lambda>(_, _, _, _, _, param). length param)") auto

definition malformed_call :: ovm_error where
  "malformed_call = ScriptError ''Malformed function call''"

definition out_of_range_call :: ovm_error where
  "out_of_range_call = ScriptError ''Out of range func call''"

definition call_depth :: ovm_error where
  "call_depth = ScriptError ''Call stack depth exceeds the max 1024 limit''"

definition call_frame :: "int \<Rightarrow> Contract \<Rightarrow> ovm_frame \<Rightarrow> call_state \<Rightarrow> ovm_frame" where
  "call_frame pc contract f st =
     (let a = (if ca_self st then inlib f else ca_lib st);
          sp = write_at 0 (le_bytes 4 (of_nat (length (ca_space st)) :: u32)) (ca_space st);
          sp = (if ca_self st then sp
                else write_at 4 (le_bytes 4 (word_of_int (l_base (lib_of (ca_lib st) contract)) :: u32)) sp)
      in \<lparr> space = sp, inlib = a, gbase = l_base (lib_of a contract), frame_pc = pc,
           pure = pure f OR l_pure (lib_of (ca_lib st) contract) \<rparr>)"

definition call_enter :: "int \<Rightarrow> Contract \<Rightarrow> ovm_frame \<Rightarrow> Stack \<Rightarrow> call_state \<Rightarrow> (int \<times> Stack) outcome" where
  "call_enter pc contract f s st =
     (if ca_top st < 2 then Fail malformed_call
      else
        let f' = call_frame pc contract f st;
            l = lib_of (inlib f') contract;
            target = (if ca_self st then sint (word_of_int pc + ucast (ca_offset st) :: u32) else l_address l)
        in if ca_self st \<and> (target < l_address l \<or> target \<ge> l_end l) then Fail out_of_range_call
           else if callTop s + 1 > 1024 then Fail call_depth
           else Ok (target, s\<lparr> callTop := callTop s + 1, data := (data s)(callTop s + 1 \<mapsto> f') \<rparr>))"

definition call_init :: "Stack \<Rightarrow> call_state" where
  "call_init s =
     \<lparr> ca_top = 0, ca_lib = zero_address, ca_self = True, ca_offset = 0,
       ca_space = replicate 4 0 @ le_bytes 4 (word_of_int (callTop s + 1) :: u32), ca_type = 0x51, ca_sign = 1 \<rparr>"

text \<open>The interpreter reads the current frame before it executes an instruction, so the frame exists.\<close>

definition opCall :: "slice_past \<Rightarrow> int \<Rightarrow> Contract \<Rightarrow> Stack \<Rightarrow> (int \<times> Stack) outcome" where
  "opCall past pc contract s =
     bind_out (GetBytes pc contract) (\<lambda>param.
     case data s (callTop s) of
       None \<Rightarrow> Panic
     | Some f \<Rightarrow> bind_out (call_loop past contract f s (call_init s) param) (call_enter pc contract f s))"

subsection \<open>Return\<close>

definition opReturn :: "int \<Rightarrow> Stack \<Rightarrow> (int \<times> Stack) outcome" where
  "opReturn pc s =
     (if callTop s \<le> 0 then Ok (pc, s)
      else case data s (callTop s) of
             None \<Rightarrow> Panic
           | Some f \<Rightarrow>
               Ok (frame_pc f, s\<lparr> data := (data s)(callTop s := None), callTop := callTop s - 1 \<rparr>))"

section \<open>Proofs\<close>

subsection \<open>The parser\<close>

text \<open>An instruction as text: its code and parameter, and a comment up to the end of the line.\<close>

definition plain_char :: "byte \<Rightarrow> bool" where
  "plain_char c \<longleftrightarrow> c \<notin> {0x20, 0x09, 0x0d, 0x3b, 0x0a}"

definition plain_inst :: "inst \<Rightarrow> bool" where
  "plain_inst i \<longleftrightarrow> plain_char (i_op i) \<and> list_all plain_char (i_param i)"

definition print_inst :: "inst \<times> bytes \<Rightarrow> bytes" where
  "print_inst = (\<lambda>(i, comment). i_op i # i_param i @ 0x3b # comment @ [0x0a])"

lemma parse_param:
  "list_all plain_char ps \<Longrightarrow>
   parse_code acc tmp False (ps @ rest) = parse_code acc (tmp\<lparr> i_param := i_param tmp @ ps \<rparr>) False rest"
  by (induction ps arbitrary: tmp) (auto simp: plain_char_def)

lemma dropWhile_line: "0x0a \<notin> set comment \<Longrightarrow> dropWhile (\<lambda>d. d \<noteq> 0x0a) (comment @ 0x0a # rest) = (0x0a :: byte) # rest"
  by (induction comment) auto

lemma parse_inst:
  assumes "plain_inst i" "0x0a \<notin> set comment"
  shows "parse_code acc tmp True (print_inst (i, comment) @ rest) = parse_code (acc @ [i]) i True rest"
proof -
  have "plain_char (i_op i)" "list_all plain_char (i_param i)" using assms(1) by (simp_all add: plain_inst_def)
  then show ?thesis
    using parse_param [of "i_param i" acc "\<lparr> i_op = i_op i, i_param = [] \<rparr>" "0x3b # comment @ 0x0a # rest"]
      dropWhile_line [OF assms(2)]
    by (cases i) (simp add: print_inst_def plain_char_def)
qed

lemma parse_insts:
  "list_all (\<lambda>(i, comment). plain_inst i \<and> 0x0a \<notin> set comment) ls \<Longrightarrow>
   parse_code acc tmp True (concat (map print_inst ls) @ rest) =
   parse_code (acc @ map fst ls) (if ls = [] then tmp else fst (last ls)) True rest"
  by (induction ls arbitrary: acc tmp) (auto simp: parse_inst)

text \<open>
  C26: The parser reads contract code back. Instructions without blanks, written one to a line with
  a comment behind the semicolon, are parsed to the same instructions. But a blank line, or a line
  with only a comment, is not skipped: it repeats the instruction before it.
\<close>

theorem parser_exact:
  assumes "list_all (\<lambda>(i, comment). plain_inst i \<and> 0x0a \<notin> set comment) ls"
  shows "ByteCodeParser (concat (map print_inst ls)) = map fst ls
    \<and> (ls \<noteq> [] \<longrightarrow> ByteCodeParser (concat (map print_inst ls) @ [0x0a]) = map fst ls @ [fst (last ls)])"
  using parse_insts [OF assms, of "[]" "\<lparr> i_op = 0, i_param = [] \<rparr>" "[]"]
    parse_insts [OF assms, of "[]" "\<lparr> i_op = 0, i_param = [] \<rparr>" "[0x0a]"]
  by (simp add: ByteCodeParser_def)

theorem parser_exact_witness:
  "ByteCodeParser [0x41, 0x31, 0x3b, 0x0a, 0x0a] = [\<lparr> i_op = 0x41, i_param = [0x31] \<rparr>, \<lparr> i_op = 0x41, i_param = [0x31] \<rparr>]"
  using parser_exact [of "[(\<lparr> i_op = 0x41, i_param = [0x31] \<rparr>, [])]"]
  by (simp add: print_inst_def plain_inst_def plain_char_def)

subsection \<open>Allocation\<close>

lemma decimal_number: "\<exists>c cs. decimal n = c # cs \<and> starts_number c"
proof (induction n rule: decimal.induct)
  case (1 n)
  then show ?case
    using digit_code [of n] by (cases "n < 10") (auto simp: decimal.simps [of n] starts_number_def)
qed

lemma scan_decimal:
  "scan ty number chr s st (decimal n @ 0x2c # rest) =
   bind_out (ty st) (\<lambda>t. bind_out (number (of_nat n) st) (\<lambda>r.
     case r of Inl st' \<Rightarrow> scan ty number chr s st' rest | Inr x \<Rightarrow> Ok (Inr x)))"
proof -
  obtain c cs where c: "decimal n = c # cs" "starts_number c" using decimal_number by blast
  have "getNum (c # cs @ 0x2c # rest) t s = Ok (of_nat n, Suc (length cs))" for t
    using getNum_decimal [of n rest] c by simp
  then show ?thesis using c by (simp cong: sum.case_cong)
qed

lemma scan_load:
  assumes "data s (callTop s) = Some f" "0 \<le> callTop s" "callTop s < 2 ^ 31" "n < 2 ^ 32" "n + 8 \<le> length (space f)"
    "ty st = Ok 0x51"
  shows "scan ty number chr s st (0x69 # decimal n @ 0x2c # rest) =
   bind_out (number (le_word (take 8 (drop n (space f)))) st) (\<lambda>r.
     case r of Inl st' \<Rightarrow> scan ty number chr s st' rest | Inr x \<Rightarrow> Ok (Inr x))"
  using getNum_indirect [OF assms(1-5), of rest] assms(6) by (simp add: starts_number_def cong: sum.case_cong)

lemma round64_eq: "round64 n = 64 * ((n + 63) div 64)"
proof -
  have "(n + 63) AND NOT 63 = (n + 63) AND NOT (mask 6)" by (simp add: mask_eq_exp_minus_1)
  also have "\<dots> = push_bit 6 (drop_bit 6 (n + 63))"
    by (rule bit_eqI) (auto simp: bit_simps)
  finally show ?thesis by (simp add: round64_def push_bit_eq_mult drop_bit_eq_div)
qed

lemma total_small:
  assumes "sint (v :: u64) + int m < 0x40000000" "0 \<le> sint v + int m"
  shows "v + of_nat m < 0x40000000"
proof -
  have "v + of_nat m = word_of_int (sint v + int m)" by simp
  then have "uint (v + of_nat m) = sint v + int m"
    using assms by (simp only: uint_word_of_int) simp
  then show ?thesis using assms(1) by (simp add: word_less_def)
qed



definition frame_of :: "Stack \<Rightarrow> ovm_frame" where
  "frame_of s = the (data s (callTop s))"

definition sample_memory :: Stack where
  "sample_memory = \<lparr> callTop = 0, libTop = 0,
     data = [0 \<mapsto> newFrame\<lparr> space := [0x80, 0xff, 0xff, 0xff, 0xff, 0xff, 0xff, 0xff] @ replicate 120 0 \<rparr>] \<rparr>"


end
