(* ===== verification/OVM_Machine.thy ===== *)
theory OVM_Machine
  imports OVM_Instr
begin

text \<open>
  The interpreter of contracts, \<^verbatim>\<open>omega/ovm/interpreter.go\<close>, with the table of instructions of
  \<^verbatim>\<open>omega/ovm/jump_table.go\<close>. An instruction is a function of the program counter, the machine,
  the contract and the stack; it returns their new values with an optional error, or panics. The
  loop of \<open>Run\<close> is \<open>run_loop\<close>: its fuel is the number of rounds, and it is \<open>None\<close> as
  long as the interpreter has not returned. The abort flag is set by other goroutines: what the
  rounds see of it is an argument. The table has the instructions this development models; the
  others are a parameter, given by their operation code. Debugging is off.
\<close>

unbundle bit_operations_syntax

record 'w OVM =
  StepLimit :: u32
  mainNet :: bool
  depth :: int
  returnData :: bytes
  stop_flag :: bool
  world :: 'w

type_synonym 'w executionFunc =
  "int \<Rightarrow> 'w OVM \<Rightarrow> Contract \<Rightarrow> Stack \<Rightarrow> (ovm_error option \<times> int \<times> 'w OVM \<times> Contract \<times> Stack) option"

record 'w operation =
  execute :: "'w executionFunc"
  halts :: bool
  jumps :: bool
  op_writes :: bool
  valid :: bool
  reverts :: bool
  op_returns :: bool

subsection \<open>The table of instructions\<close>

text \<open>Instructions that only change the stack, only the program counter, or both.\<close>

definition on_stack :: "(bytes \<Rightarrow> Stack \<Rightarrow> Stack outcome) \<Rightarrow> 'w executionFunc" where
  "on_stack f pc evm contract s =
     (case bind_out (GetBytes pc contract) (\<lambda>param. f param s) of
        Panic \<Rightarrow> None
      | Fail e \<Rightarrow> Some (Some e, pc, evm, contract, s)
      | Ok s' \<Rightarrow> Some (None, pc, evm, contract, s'))"

definition exec_if :: "'w executionFunc" where
  "exec_if pc evm contract s =
     (case opIf pc contract s of
        Panic \<Rightarrow> None
      | Fail e \<Rightarrow> Some (Some e, pc, evm, contract, s)
      | Ok target \<Rightarrow> Some (None, target, evm, contract, s))"

definition exec_call :: "slice_past \<Rightarrow> 'w executionFunc" where
  "exec_call past pc evm contract s =
     (case opCall past pc contract s of
        Panic \<Rightarrow> None
      | Fail e \<Rightarrow> Some (Some e, pc, evm, contract, s)
      | Ok (target, s') \<Rightarrow> Some (None, target, evm, contract, s'))"

definition exec_return :: "'w executionFunc" where
  "exec_return pc evm contract s =
     (case opReturn pc s of
        Panic \<Rightarrow> None
      | Fail e \<Rightarrow> Some (Some e, pc, evm, contract, s)
      | Ok (pc', s') \<Rightarrow> Some (None, pc', evm, contract, s'))"

definition opNul :: "'w executionFunc" where
  "opNul pc evm contract s = Some (None, pc, evm, contract, s)"

definition opStop :: "'w executionFunc" where
  "opStop pc evm contract s = Some (None, pc, evm, contract, s)"

definition opRevert :: "'w executionFunc" where
  "opRevert pc evm contract s = Some (None, pc, evm, contract, s)"

definition plain :: "'w executionFunc \<Rightarrow> 'w operation" where
  "plain f = \<lparr> execute = f, halts = False, jumps = False, op_writes = False, valid = True, reverts = False,
     op_returns = False \<rparr>"

text \<open>What depends on the platform: the floating point powers and slices past the length of a slice.\<close>

record platform =
  pow8 :: "int \<Rightarrow> int \<Rightarrow> u8"
  pow16 :: "int \<Rightarrow> int \<Rightarrow> u16"
  pow32 :: "int \<Rightarrow> int \<Rightarrow> u32"
  pow64 :: "int \<Rightarrow> int \<Rightarrow> u64"
  past :: slice_past

definition NewOmegaInstructionSet :: "platform \<Rightarrow> (byte \<Rightarrow> 'w executionFunc) \<Rightarrow> byte \<Rightarrow> 'w operation" where
  "NewOmegaInstructionSet pw ext op =
     (if op = 0x41 then plain (on_stack (opEval8 (pow8 pw)))
      else if op = 0x42 then plain (on_stack (opEval16 (pow16 pw)))
      else if op = 0x43 then plain (on_stack (opEval32 (pow32 pw)))
      else if op = 0x44 then plain (on_stack (opEval64 (pow64 pw)))
      else if op \<in> set [0x45, 0x46, 0x47, 0x48, 0x49] then plain (ext op)
      else if op = 0x4b then (plain exec_if)\<lparr> jumps := True \<rparr>
      else if op = 0x4c then (plain (exec_call (past pw)))\<lparr> jumps := True \<rparr>
      else if op \<in> set [0x4d, 0x4e] then plain (ext op)
      else if op \<in> set [0x4f, 0x50] then (plain (ext op))\<lparr> op_writes := True \<rparr>
      else if op = 0x51 then (plain (ext op))\<lparr> jumps := True \<rparr>
      else if op = 0x52 then plain (on_stack opMalloc)
      else if op = 0x53 then plain (on_stack opAlloc)
      else if op = 0x54 then plain (on_stack opCopy)
      else if op = 0x55 then plain (ext op)
      else if op = 0x57 then (plain (ext op))\<lparr> halts := True, op_writes := True \<rparr>
      else if op = 0x58 then (plain opRevert)\<lparr> halts := True, reverts := True, op_returns := True \<rparr>
      else if op = 0x59 then plain exec_return
      else if op = 0x64 then plain opNul
      else if op = 0x65 then (plain (ext op))\<lparr> op_writes := True \<rparr>
      else if 0x61 \<le> op \<and> op \<le> 0x72 then plain (ext op)
      else if op = 0x7a then (plain opStop)\<lparr> halts := True, op_returns := True \<rparr>
      else (plain (ext op))\<lparr> valid := False \<rparr>)"

subsection \<open>The loop\<close>

definition exceeded_limit :: ovm_error where
  "exceeded_limit = ScriptError ''Exceeded operation limit''"

definition invalid_opcode :: ovm_error where
  "invalid_opcode = ScriptError ''invalid opcode''"

definition errWriteProtection :: ovm_error where
  "errWriteProtection = ScriptError ''evm: write protection''"

definition not_allowed :: ovm_error where
  "not_allowed = ScriptError ''State modification is not allowed''"

definition errExecutionReverted :: ovm_error where
  "errExecutionReverted = ScriptError ''evm: execution reverted''"

definition instruction_out_of_range :: ovm_error where
  "instruction_out_of_range = ScriptError ''Instruction out of range.''"

definition NOWRITE :: byte where
  "NOWRITE = 0x1"

definition INHERIT :: byte where
  "INHERIT = 0x20"

definition enforceRestrictions :: "'w operation \<Rightarrow> Stack \<Rightarrow> unit outcome" where
  "enforceRestrictions operation s =
     (case data s (callTop s) of
        None \<Rightarrow> Panic
      | Some f \<Rightarrow>
          if pure f AND NOT INHERIT \<noteq> 0 \<and> op_writes operation then Fail errWriteProtection else Ok ())"

text \<open>The length of the data to return, in the first four bytes of the global memory.\<close>

definition return_bound :: "bytes \<Rightarrow> nat outcome" where
  "return_bound sp =
     (if length sp < 4 then Panic
      else let mln = le_word (take 4 sp) + 4 :: u32
           in Ok (if length sp < unat mln then length sp else unat mln))"

definition slice_from_4 :: "bytes \<Rightarrow> nat \<Rightarrow> bytes outcome" where
  "slice_from_4 sp n = (if n < 4 \<or> n > length sp then Panic else Ok (take (n - 4) (drop 4 sp)))"

datatype 'w run_result =
    Crashed
  | Returned bytes "ovm_error option" "'w OVM"
  | Running int "'w OVM" Contract Stack

text \<open>What follows the execution of an instruction that did not fail.\<close>

definition after_instruction :: "'w operation \<Rightarrow> bytes \<Rightarrow> nat \<Rightarrow> int \<Rightarrow> 'w OVM \<Rightarrow> Contract \<Rightarrow> Stack \<Rightarrow> 'w run_result" where
  "after_instruction operation sp mln pc evm contract s =
     (if reverts operation then
        case slice_from_4 sp mln of Ok r \<Rightarrow> Returned r (Some errExecutionReverted) evm | _ \<Rightarrow> Crashed
      else if stop_flag evm then Returned [] None (evm\<lparr> stop_flag := False \<rparr>)
      else if halts operation then
        case slice_from_4 sp mln of Ok r \<Rightarrow> Returned r None evm | _ \<Rightarrow> Crashed
      else if \<not> jumps operation then
        case data s (callTop s) of
          None \<Rightarrow> Crashed
        | Some f \<Rightarrow>
            if pc + 1 < l_end (lib_of (inlib f) contract) then Running (pc + 1) evm contract s
            else Returned [] (Some instruction_out_of_range) evm
      else Running pc evm contract s)"

definition finish_instruction :: "'w operation \<Rightarrow> (ovm_error option \<times> int \<times> 'w OVM \<times> Contract \<times> Stack) \<Rightarrow> 'w run_result" where
  "finish_instruction operation = (\<lambda>(err, pc, evm, contract, s).
     (case data s 0 of
        None \<Rightarrow> Crashed
      | Some f0 \<Rightarrow>
          (case return_bound (space f0) of
             Ok mln \<Rightarrow>
               if op_returns operation \<and> slice_from_4 (space f0) mln = Panic then Crashed
               else
                 let evm = (if op_returns operation
                            then evm\<lparr> returnData := take (mln - 4) (drop 4 (space f0)) \<rparr> else evm)
                 in (case err of
                       Some e \<Rightarrow> Returned [] (Some e) evm
                     | None \<Rightarrow> after_instruction operation (space f0) mln pc evm contract s)
           | _ \<Rightarrow> Crashed)))"

definition run_step :: "(byte \<Rightarrow> 'w operation) \<Rightarrow> int \<Rightarrow> 'w OVM \<Rightarrow> Contract \<Rightarrow> Stack \<Rightarrow> 'w run_result" where
  "run_step JumpTable pc evm contract s =
     (let evm = evm\<lparr> StepLimit := StepLimit evm - 1 \<rparr>
      in if StepLimit evm < 0 \<and> mainNet evm then Returned [] (Some exceeded_limit) evm
         else case GetOp pc contract of
                Panic \<Rightarrow> Crashed
              | Fail e \<Rightarrow> Crashed
              | Ok op \<Rightarrow>
                  let operation = JumpTable op
                  in if \<not> valid operation then Returned [] (Some invalid_opcode) evm
                     else case enforceRestrictions operation s of
                            Panic \<Rightarrow> Crashed
                          | Fail e \<Rightarrow> Returned [] (Some e) evm
                          | Ok _ \<Rightarrow>
                              if c_pure contract AND NOWRITE \<noteq> 0 \<and> op_writes operation
                              then Returned [] (Some not_allowed) evm
                              else case execute operation pc evm contract s of
                                     None \<Rightarrow> Crashed
                                   | Some r \<Rightarrow> finish_instruction operation r)"

fun run_loop :: "(byte \<Rightarrow> 'w operation) \<Rightarrow> (nat \<Rightarrow> bool) \<Rightarrow> nat \<Rightarrow> int \<Rightarrow> 'w OVM \<Rightarrow> Contract \<Rightarrow> Stack
    \<Rightarrow> 'w run_result option" where
  "run_loop JumpTable abort 0 pc evm contract s = None"
| "run_loop JumpTable abort (Suc n) pc evm contract s =
     (if abort 0 then Some (Returned [] None evm)
      else case run_step JumpTable pc evm contract s of
             Running pc' evm' contract' s' \<Rightarrow>
               run_loop JumpTable (\<lambda>i. abort (Suc i)) n pc' evm' contract' s'
           | r \<Rightarrow> Some r)"

text \<open>The input of the call is put into the global memory.\<close>

definition put_input :: "bytes \<Rightarrow> Stack \<Rightarrow> Stack outcome" where
  "put_input inp s =
     (if inp = [] then Ok s
      else bind_out (malloc (8 + int (length inp)) s) (\<lambda>(_, s').
             case data s' 0 of
               None \<Rightarrow> Panic
             | Some f \<Rightarrow>
                 if length (space f) < 8 then Panic
                 else Ok (set_space 0 (write_at 8 inp (write_at 0 (le_bytes 4 (of_nat (length inp) :: u32)) (space f))) s')))"

definition start_contract :: "bytes \<Rightarrow> Contract \<Rightarrow> Contract" where
  "start_contract inp contract =
     contract\<lparr> libs := (libs contract)(zero_address \<mapsto>
       \<lparr> l_address = 0, l_end = int (length (Code contract)), l_base = 0, l_pure = c_pure contract \<rparr>), Input := inp \<rparr>"

definition start_stack :: "Contract \<Rightarrow> Stack" where
  "start_stack contract = Newstack\<lparr> data := [0 \<mapsto> newFrame\<lparr> space := replicate 4 0, pure := c_pure contract \<rparr>] \<rparr>"

definition Run :: "(byte \<Rightarrow> 'w operation) \<Rightarrow> (nat \<Rightarrow> bool) \<Rightarrow> nat \<Rightarrow> 'w OVM \<Rightarrow> Contract \<Rightarrow> bytes \<Rightarrow> 'w run_result option" where
  "Run JumpTable abort n evm contract inp =
     (let evm = evm\<lparr> returnData := [] \<rparr>
      in if Code contract = [] then Some (Returned [] None evm)
         else case put_input inp (start_stack contract) of
                Ok s \<Rightarrow> run_loop JumpTable abort n 0 evm (start_contract inp contract) s
              | _ \<Rightarrow> Some Crashed)"

section \<open>Proofs\<close>

subsection \<open>Instructions that change the memory only\<close>

text \<open>The areas stay and none becomes shorter.\<close>

definition grown :: "Stack \<Rightarrow> Stack \<Rightarrow> bool" where
  "grown s s' \<longleftrightarrow> callTop s' = callTop s \<and> libTop s' = libTop s \<and>
     (\<forall>a f. data s a = Some f \<longrightarrow> (\<exists>f'. data s' a = Some f' \<and> inlib f' = inlib f \<and> frame_pc f' = frame_pc f
        \<and> gbase f' = gbase f \<and> pure f' = pure f \<and> length (space f) \<le> length (space f')))"

lemma grown_refl: "grown s s"
  by (simp add: grown_def)

lemma grown_trans: "grown s t \<Longrightarrow> grown t u \<Longrightarrow> grown s u"
  unfolding grown_def by (clarsimp, drule spec, drule spec, erule (1) impE, force dest: spec)

lemma grown_set_space: "data s a = Some f \<Longrightarrow> length (space f) \<le> length sp \<Longrightarrow> grown s (set_space a sp s)"
  by (auto simp: grown_def set_space_def)

lemma length_write_at_same: "offset \<le> length sp \<Longrightarrow> length (write_at offset b sp) = length sp"
  by (auto simp: write_at_def min_def)

lemma save_grown:
  "saveByte p b s = Ok s' \<Longrightarrow> grown s s'" "saveInt16 p w s = Ok s' \<Longrightarrow> grown s s'"
  "saveInt32 p x s = Ok s' \<Longrightarrow> grown s s'" "saveInt64 p y s = Ok s' \<Longrightarrow> grown s s'"
  "saveBytes p bs s = Ok s' \<Longrightarrow> grown s s'"
  by (auto simp: saveByte_def saveInt16_def saveInt32_def saveInt64_def saveBytes_def Let_def length_write_at_same
      intro!: grown_set_space split: option.splits if_splits)

lemma grow_grown: "grow a n s = Ok (r, s') \<Longrightarrow> grown s s'"
  by (auto simp: grow_def Let_def intro!: grown_set_space grown_refl split: option.splits if_splits)

lemma alloc_grown: "malloc n s = Ok (r, s') \<Longrightarrow> grown s s'" "alloc n s = Ok (r, s') \<Longrightarrow> grown s s'"
  by (auto simp: malloc_def alloc_def intro: grow_grown split: option.splits)

lemma case_sum_Ok: "(case r of Inl a \<Rightarrow> f a | Inr b \<Rightarrow> g b) = Ok y \<longleftrightarrow>
    (\<exists>a. r = Inl a \<and> f a = Ok y) \<or> (\<exists>b. r = Inr b \<and> g b = Ok y)"
  by (cases r) auto

text \<open>A scan returns what a number of it returned.\<close>

lemma scan_result:
  assumes "scan ty number chr s st param = Ok (Inr x)" "\<And>n st x. number n st = Ok (Inr x) \<Longrightarrow> P x"
  shows "P x"
  using assms
  by (induction ty number chr s st param rule: scan.induct)
    (auto simp: bind_out_Ok case_sum_Ok split: if_split_asm)

lemma opMAalloc_grown:
  assumes "opMAalloc g param s = Ok s'"
  shows "grown s s'"
proof -
  have "grown s x" if "alloc_number g s n st = Ok (Inr x)" for n st x
    using that
    by (auto simp: alloc_number_def Let_def bind_out_Ok split: if_splits
        dest!: alloc_grown save_grown(4) dest: grown_trans)
  with assms show ?thesis
    by (auto simp: opMAalloc_def bind_out_Ok case_sum_Ok elim!: scan_result)
qed

lemma opCopy_grown:
  assumes "opCopy param s = Ok s'"
  shows "grown s s'"
proof -
  have "grown s x" if "copy_number s n st = Ok (Inr x)" for n st x
    using that by (auto simp: copy_number_def bind_out_Ok intro: save_grown(5) split: if_splits)
  with assms show ?thesis
    by (auto simp: opCopy_def bind_out_Ok case_sum_Ok elim!: scan_result)
qed

lemma opEval_grown:
  "opEval8 p8 param s = Ok s' \<Longrightarrow> grown s s'" "opEval16 p16 param s = Ok s' \<Longrightarrow> grown s s'"
  "opEval32 p32 param s = Ok s' \<Longrightarrow> grown s s'" "opEval64 p64 param s = Ok s' \<Longrightarrow> grown s s'"
  by (auto simp: opEval8_def opEval16_def opEval32_def opEval64_def bind_out_Ok intro: save_grown)

subsection \<open>The invariant of the interpreter\<close>

definition frame_at :: "Stack \<Rightarrow> int \<Rightarrow> ovm_frame" where
  "frame_at s a = the (data s a)"

definition lib_range :: "Contract \<Rightarrow> Address \<Rightarrow> int \<Rightarrow> bool" where
  "lib_range c a pc \<longleftrightarrow> l_address (lib_of a c) \<le> pc \<and> pc < l_end (lib_of a c)"

definition wf_contract :: "Contract \<Rightarrow> bool" where
  "wf_contract c \<longleftrightarrow> (\<forall>a l. libs c a = Some l \<longrightarrow>
     0 \<le> l_address l \<and> l_address l < l_end l \<and> l_end l \<le> int (length (Code c)))"

text \<open>The global area and the frames of all pending calls exist, the program counter is in the code of
  the current library, and so is the saved one of every frame in the library of its caller.\<close>

definition machine_ok :: "Contract \<Rightarrow> int \<Rightarrow> Stack \<Rightarrow> bool" where
  "machine_ok c pc s \<longleftrightarrow> 0 \<le> callTop s \<and> (\<forall>a. 0 \<le> a \<and> a \<le> callTop s \<longrightarrow> data s a \<noteq> None)
     \<and> 4 \<le> length (space (frame_at s 0))
     \<and> lib_range c (inlib (frame_at s (callTop s))) pc
     \<and> (\<forall>a. 0 < a \<and> a \<le> callTop s \<longrightarrow> lib_range c (inlib (frame_at s (a - 1))) (frame_pc (frame_at s a)))"

lemma grown_frame:
  assumes "grown s s'" "data s a \<noteq> None"
  shows "data s' a \<noteq> None \<and> inlib (frame_at s' a) = inlib (frame_at s a)
    \<and> frame_pc (frame_at s' a) = frame_pc (frame_at s a) \<and> length (space (frame_at s a)) \<le> length (space (frame_at s' a))"
  using assms unfolding grown_def frame_at_def by fastforce

lemma machine_ok_grown:
  assumes "machine_ok c pc s" "grown s s'" "lib_range c (inlib (frame_at s (callTop s))) pc'"
  shows "machine_ok c pc' s'"
proof -
  have top: "callTop s' = callTop s" using assms(2) by (simp add: grown_def)
  have fr: "data s' a \<noteq> None \<and> inlib (frame_at s' a) = inlib (frame_at s a) \<and> frame_pc (frame_at s' a) = frame_pc (frame_at s a)
      \<and> length (space (frame_at s a)) \<le> length (space (frame_at s' a))" if "0 \<le> a \<and> a \<le> callTop s" for a
    using grown_frame [OF assms(2), of a] assms(1) that unfolding machine_ok_def by blast
  have "0 \<le> callTop s" "4 \<le> length (space (frame_at s 0))" using assms(1) by (simp_all add: machine_ok_def)
  then have "4 \<le> length (space (frame_at s' 0))" using fr [of 0] by linarith
  then show ?thesis
    using assms(1,3) fr [of "callTop s"] fr by (auto simp: machine_ok_def top)
qed

lemma wf_lib_range: "wf_contract c \<Longrightarrow> lib_range c a pc \<Longrightarrow> 0 \<le> pc \<and> pc < int (length (Code c))"
  by (fastforce simp: wf_contract_def lib_range_def lib_of_def split: option.splits)

lemma opReturn_ok:
  assumes "opReturn pc s = Ok (pc', s')" "machine_ok c pc s"
  shows "machine_ok c pc' s'"
proof (cases "callTop s \<le> 0")
  case False
  then obtain f where f: "data s (callTop s) = Some f" using assms(2) by (force simp: machine_ok_def)
  then have s': "pc' = frame_pc f" "s' = s\<lparr> data := (data s)(callTop s := None), callTop := callTop s - 1 \<rparr>"
    using assms(1) False by (auto simp: opReturn_def)
  have "lib_range c (inlib (frame_at s (callTop s - 1))) (frame_pc (frame_at s (callTop s)))"
    using assms(2) False by (simp add: machine_ok_def)
  then show ?thesis
    using assms(2) False f by (auto simp: s' machine_ok_def frame_at_def)
qed (use assms in \<open>simp add: opReturn_def\<close>)

lemma opIf_range:
  "opIf pc c s = Ok target \<Longrightarrow> lib_range c (inlib (frame_at s (callTop s))) target"
  by (auto simp: opIf_def bind_out_Ok case_sum_Ok Let_def lib_range_def frame_at_def split: option.splits if_splits)


lemma call_loop_loaded:
  "call_loop pst c f s st param = Ok st' \<Longrightarrow> ca_self st \<or> libs c (ca_lib st) \<noteq> None \<Longrightarrow>
   ca_self st' \<or> libs c (ca_lib st') \<noteq> None"
proof (induction pst c f s st param rule: call_loop.induct)
  case (2 pst c f s st b param)
  have "ca_self (call_number n st) = ca_self st" "ca_lib (call_number n st) = ca_lib st"
    "ca_self (call_char b st) = ca_self st" "ca_lib (call_char b st) = ca_lib st" for n
    by (auto simp: call_number_def call_char_def Let_def)
  moreover have "ca_self u \<or> libs c (ca_lib u) \<noteq> None" if "call_lib c f x st = Ok u" for x u
    using that by (auto simp: call_lib_def Let_def split: if_splits)
  ultimately show ?case
    using 2 by (auto simp: bind_out_Ok simp del: getNum_loop.simps split: if_split_asm)
qed simp

lemma opCall_ok:
  assumes "opCall pst pc c s = Ok (target, s')" "machine_ok c pc s" "wf_contract c"
  shows "machine_ok c target s'"
proof -
  obtain f where f: "data s (callTop s) = Some f" using assms(2) by (force simp: machine_ok_def)
  obtain param st where loop: "call_loop pst c f s (call_init s) param = Ok st"
    and rest: "call_enter pc c f s st = Ok (target, s')"
    using assms(1) f by (auto simp: opCall_def bind_out_Ok)
  define f' where f': "f' = call_frame pc c f st"
  have st: "ca_self st \<or> libs c (ca_lib st) \<noteq> None" using call_loop_loaded [OF loop] by (simp add: call_init_def)
  have s': "s' = s\<lparr> callTop := callTop s + 1, data := (data s)(callTop s + 1 \<mapsto> f') \<rparr>"
    and tgt: "ca_self st \<longrightarrow> lib_range c (inlib f') target" "\<not> ca_self st \<longrightarrow> target = l_address (lib_of (inlib f') c)"
    using rest by (auto simp: call_enter_def Let_def lib_range_def f' split: if_splits)
  have "inlib f' = (if ca_self st then inlib f else ca_lib st)" "frame_pc f' = pc"
    by (simp_all add: f' call_frame_def Let_def)
  then have "lib_range c (inlib f') target"
    using tgt st assms(3) by (auto simp: lib_range_def lib_of_def wf_contract_def split: option.splits)
  then show ?thesis
    using assms(2) \<open>frame_pc f' = pc\<close> f
    by (auto simp: s' machine_ok_def frame_at_def zle_add1_eq_le)
qed


definition modelled_op :: "byte \<Rightarrow> bool" where
  "modelled_op op \<longleftrightarrow> op \<in> set [0x41, 0x42, 0x43, 0x44, 0x4b, 0x4c, 0x52, 0x53, 0x54, 0x58, 0x59, 0x64, 0x7a]"

definition closed_code :: "Contract \<Rightarrow> bool" where
  "closed_code c \<longleftrightarrow> list_all (\<lambda>i. modelled_op (i_op i)) (Code c)"

definition memory_only :: "(bytes \<Rightarrow> Stack \<Rightarrow> Stack outcome) \<Rightarrow> bool" where
  "memory_only f \<longleftrightarrow> (\<forall>param s s'. f param s = Ok s' \<longrightarrow> grown s s')"

lemma memory_only_ops:
  "memory_only (opEval8 p8)" "memory_only (opEval16 p16)" "memory_only (opEval32 p32)" "memory_only (opEval64 p64)"
  "memory_only opMalloc" "memory_only opAlloc" "memory_only opCopy"
  using opEval_grown opMAalloc_grown opCopy_grown by (auto simp: memory_only_def opMalloc_def opAlloc_def)

lemma on_stack_ok:
  assumes "on_stack f pc evm c s = Some (e, pc', evm', c', s')" "memory_only f" "machine_ok c pc s"
  shows "c' = c \<and> machine_ok c pc' s'"
proof -
  have "grown s s' \<and> c' = c \<and> pc' = pc"
    using assms(1,2) grown_refl by (auto simp: on_stack_def bind_out_Ok memory_only_def split: outcome.splits)
  then show ?thesis using machine_ok_grown [OF assms(3)] assms(3) by (auto simp: machine_ok_def)
qed

lemma opNul_alt: "opStop = opNul" "opRevert = opNul"
  by (rule ext, rule ext, rule ext, rule ext, simp add: opStop_def opRevert_def opNul_def)+

lemma execute_cases:
  assumes "modelled_op op"
  shows "(\<exists>f. memory_only f \<and> execute (NewOmegaInstructionSet pw ext op) = on_stack f)
    \<or> execute (NewOmegaInstructionSet pw ext op) \<in> {exec_if, exec_call (past pw), exec_return, opNul}"
proof -
  have ex: "\<exists>f'. memory_only f' \<and> on_stack f = on_stack f'" if "memory_only f" for f using that by blast
  have "op \<in> set [0x41, 0x42, 0x43, 0x44, 0x4b, 0x4c, 0x52, 0x53, 0x54, 0x58, 0x59, 0x64, 0x7a]"
    using assms by (simp only: modelled_op_def)
  then show ?thesis
    by (simp only: list.set insert_iff empty_iff simp_thms, elim disjE)
      (simp_all add: NewOmegaInstructionSet_def plain_def opNul_alt ex memory_only_ops)
qed

lemma exec_ok:
  assumes "modelled_op op" "machine_ok c pc s" "wf_contract c"
    and "execute (NewOmegaInstructionSet pw ext op) pc evm c s = Some (e, pc', evm', c', s')"
  shows "c' = c \<and> machine_ok c pc' s'"
proof -
  have "c' = c \<and> machine_ok c pc' s'" if "exec_if pc evm c s = Some (e, pc', evm', c', s')"
    using that opIf_range [of pc c s] assms(2) machine_ok_grown [OF assms(2) grown_refl]
    by (auto simp: exec_if_def split: outcome.splits)
  moreover have "c' = c \<and> machine_ok c pc' s'" if "exec_call (past pw) pc evm c s = Some (e, pc', evm', c', s')"
    using that opCall_ok [OF _ assms(2,3)] assms(2) by (auto simp: exec_call_def split: outcome.splits)
  moreover have "c' = c \<and> machine_ok c pc' s'" if "exec_return pc evm c s = Some (e, pc', evm', c', s')"
    using that opReturn_ok [OF _ assms(2)] assms(2) by (auto simp: exec_return_def split: outcome.splits)
  moreover have "c' = c \<and> machine_ok c pc' s'" if "opNul pc evm c s = Some (e, pc', evm', c', s')"
    using that assms(2) by (auto simp: opNul_def)
  moreover have "c' = c \<and> machine_ok c pc' s'" if "memory_only f" "on_stack f pc evm c s = Some (e, pc', evm', c', s')" for f
    using on_stack_ok [OF that(2,1) assms(2)] .
  ultimately show ?thesis
    using execute_cases [OF assms(1), of pw ext] assms(4) by (metis insertE emptyE)
qed

lemma run_step_ok:
  assumes "run_step (NewOmegaInstructionSet pw ext) pc evm c s = Running pc' evm' c' s'"
    and "closed_code c" "machine_ok c pc s" "wf_contract c"
  shows "c' = c \<and> machine_ok c pc' s'"
proof -
  have pc: "0 \<le> pc" "pc < int (length (Code c))"
    using wf_lib_range [OF assms(4)] assms(3) unfolding machine_ok_def by blast+
  then have op: "modelled_op (i_op (Code c ! nat pc))" "GetOp pc c = Ok (i_op (Code c ! nat pc))"
    using assms(2) by (auto simp: closed_code_def list_all_length GetOp_def GetInst_def)
  let ?o = "NewOmegaInstructionSet pw ext (i_op (Code c ! nat pc))"
  obtain e pc1 evm1 c1 s1 where ex: "execute ?o pc (evm\<lparr> StepLimit := StepLimit evm - 1 \<rparr>) c s = Some (e, pc1, evm1, c1, s1)"
    and fin: "finish_instruction ?o (e, pc1, evm1, c1, s1) = Running pc' evm' c' s'"
    using assms(1) op(2) by (auto simp: run_step_def Let_def split: if_splits option.splits outcome.splits)
  have ok: "c1 = c" "machine_ok c pc1 s1" using exec_ok [OF op(1) assms(3,4) ex] by auto
  show ?thesis
    using fin ok machine_ok_grown [OF ok(2) grown_refl]
    by (auto simp: finish_instruction_def after_instruction_def Let_def lib_range_def frame_at_def machine_ok_def
        split: option.splits outcome.splits if_splits)
qed


type_synonym 'w config = "int \<times> 'w OVM \<times> Contract \<times> Stack"

text \<open>The states the loop runs through.\<close>

inductive reaches :: "(byte \<Rightarrow> 'w operation) \<Rightarrow> 'w config \<Rightarrow> 'w config \<Rightarrow> bool" for T where
  reaches_refl: "reaches T k k"
| reaches_step: "reaches T k (pc, evm, c, s) \<Longrightarrow> run_step T pc evm c s = Running pc' evm' c' s' \<Longrightarrow>
    reaches T k (pc', evm', c', s')"

lemma reaches_ok:
  "reaches (NewOmegaInstructionSet pw ext) (pc, evm, c, s) k \<Longrightarrow> closed_code c \<Longrightarrow> machine_ok c pc s \<Longrightarrow> wf_contract c \<Longrightarrow>
   case k of (pc', evm', c', s') \<Rightarrow> c' = c \<and> machine_ok c pc' s'"
  by (induction "(pc, evm, c, s)" k rule: reaches.induct) (auto dest: run_step_ok)

lemma zero_lib: "lib_of zero_address (start_contract inp k) =
    \<lparr> l_address = 0, l_end = int (length (Code k)), l_base = 0, l_pure = c_pure k \<rparr>"
  by (simp add: start_contract_def lib_of_def)

lemma put_input_grown: "put_input inp s = Ok s' \<Longrightarrow> grown s s'"
proof -
  assume a: "put_input inp s = Ok s'"
  show "grown s s'"
  proof (cases "inp = []")
    case False
    with a obtain r s1 f where s1: "malloc (8 + int (length inp)) s = Ok (r, s1)" "data s1 0 = Some f" "8 \<le> length (space f)"
      "s' = set_space 0 (write_at 8 inp (write_at 0 (le_bytes 4 (of_nat (length inp) :: u32)) (space f))) s1"
      by (auto simp: put_input_def bind_out_Ok split: option.splits if_splits)
    have "grown s1 s'" unfolding s1(4)
      by (rule grown_set_space [OF s1(2)]) (use s1(3) in \<open>simp add: length_write_at_same\<close>)
    then show ?thesis using grown_trans [OF alloc_grown(1) [OF s1(1)]] by blast
  qed (use a grown_refl in \<open>auto simp: put_input_def\<close>)
qed

lemma start_ok:
  assumes "Code k \<noteq> []" "put_input inp (start_stack k) = Ok s"
  shows "machine_ok (start_contract inp k) 0 s"
proof -
  have "machine_ok (start_contract inp k) 0 (start_stack k)"
    using assms(1) zero_lib [of inp k]
    by (auto simp: machine_ok_def start_stack_def Newstack_def newFrame_def frame_at_def lib_range_def
        zero_address_def [symmetric])
  then show ?thesis
    using machine_ok_grown [OF _ put_input_grown [OF assms(2)]] by (auto simp: machine_ok_def)
qed

lemma start_wf: "Code k \<noteq> [] \<Longrightarrow> libs k = Map.empty \<Longrightarrow> wf_contract (start_contract inp k)"
  by (auto simp: wf_contract_def start_contract_def)

text \<open>
  C5: The interpreter keeps its frames and its program counter. For a contract that consists of
  arithmetic, jumps, calls, returns, allocations, copies, no-operations, stops and reverts, in every
  state that the loop of \<open>Run\<close> reaches the contract is unchanged, the global area and the frames of
  all pending calls exist, the program counter points to an instruction of the code, and so do the
  return addresses of the pending calls, each in the library of its caller.
\<close>

theorem machine_invariant:
  assumes "Code k \<noteq> []" "libs k = Map.empty" "closed_code k" "put_input inp (start_stack k) = Ok s0"
    and "reaches (NewOmegaInstructionSet pw ext) (0, evm, start_contract inp k, s0) (pc, evm', k', s)"
  shows "k' = start_contract inp k \<and> machine_ok (start_contract inp k) pc s \<and> 0 \<le> pc \<and> pc < int (length (Code k))"
proof -
  have c: "closed_code (start_contract inp k)" "Code (start_contract inp k) = Code k"
    using assms(3) by (simp_all add: closed_code_def start_contract_def)
  have wf: "wf_contract (start_contract inp k)" using start_wf assms by blast
  have ok: "k' = start_contract inp k" "machine_ok (start_contract inp k) pc s"
    using reaches_ok [OF assms(5) c(1) start_ok [OF assms(1,4)] wf] by simp_all
  then have "lib_range (start_contract inp k) (inlib (frame_at s (callTop s))) pc" by (simp add: machine_ok_def)
  with wf_lib_range [OF wf this] ok c(2) show ?thesis by simp
qed

definition two_steps :: Contract where
  "two_steps = \<lparr> Code = [\<lparr> i_op = 0x64, i_param = [] \<rparr>, \<lparr> i_op = 0x7a, i_param = [] \<rparr>], libs = Map.empty, c_pure = 0, Input = [] \<rparr>"

definition sample_ovm :: "unit OVM" where
  "sample_ovm = \<lparr> StepLimit = 5, mainNet = True, depth = 0, returnData = [], stop_flag = False, world = () \<rparr>"

definition sample_platform :: platform where
  "sample_platform = \<lparr> pow8 = (\<lambda>_ _. 0), pow16 = (\<lambda>_ _. 0), pow32 = (\<lambda>_ _. 0), pow64 = (\<lambda>_ _. 0), past = (\<lambda>_ _ _. Panic) \<rparr>"

lemma return_bound_empty: "return_bound (replicate 4 0) = Ok 4"
proof -
  have "replicate 4 (0 :: byte) = [0, 0, 0, 0]" by (simp add: numeral_eq_Suc)
  then show ?thesis by (simp add: return_bound_def)
qed

theorem machine_invariant_witness:
  "machine_ok (start_contract [] two_steps) 1 (start_stack two_steps)"
proof -
  let ?T = "NewOmegaInstructionSet sample_platform (\<lambda>_. opNul) :: byte \<Rightarrow> unit operation"
  have start: "put_input [] (start_stack two_steps) = Ok (start_stack two_steps)" by (simp add: put_input_def)
  have "run_step ?T 0 sample_ovm (start_contract [] two_steps) (start_stack two_steps)
      = Running 1 (sample_ovm\<lparr> StepLimit := 4 \<rparr>) (start_contract [] two_steps) (start_stack two_steps)"
    by (simp add: run_step_def sample_ovm_def GetOp_def GetInst_def start_contract_def two_steps_def NewOmegaInstructionSet_def
        plain_def enforceRestrictions_def start_stack_def Newstack_def newFrame_def opNul_def finish_instruction_def
        return_bound_empty after_instruction_def lib_of_def zero_address_def Let_def)
  then have "reaches ?T (0, sample_ovm, start_contract [] two_steps, start_stack two_steps)
      (1, sample_ovm\<lparr> StepLimit := 4 \<rparr>, start_contract [] two_steps, start_stack two_steps)"
    by (rule reaches_step [OF reaches_refl])
  from machine_invariant [OF _ _ _ start this] show ?thesis
    by (simp add: two_steps_def closed_code_def modelled_op_def)
qed

subsection \<open>A contract that does not end\<close>

text \<open>\<^verbatim>\<open>K1,0,\<close>: jump by zero if one is not zero.\<close>

definition loop_inst :: inst where
  "loop_inst = \<lparr> i_op = 0x4b, i_param = [0x31, 0x2c, 0x30, 0x2c] \<rparr>"

definition loop_contract :: Contract where
  "loop_contract = \<lparr> Code = [loop_inst], libs = Map.empty, c_pure = 0, Input = [] \<rparr>"

lemma loop_step:
  "run_step (NewOmegaInstructionSet pw ext) 0 evm (start_contract [] loop_contract) (start_stack loop_contract) =
   (if stop_flag evm then Returned [] None (evm\<lparr> StepLimit := StepLimit evm - 1, stop_flag := False \<rparr>)
    else Running 0 (evm\<lparr> StepLimit := StepLimit evm - 1 \<rparr>) (start_contract [] loop_contract) (start_stack loop_contract))"
proof -
  have "opIf 0 (start_contract [] loop_contract) (start_stack loop_contract) = Ok 0"
    by (simp add: opIf_def GetBytes_def start_contract_def loop_contract_def loop_inst_def starts_number_def is_digit_def
        is_hex_letter_def if_type_def slot_def getNum_def num_init_def put_num_def num_value_def base_area_def if_number_def
        if_char_def if_value_def start_stack_def Newstack_def newFrame_def lib_of_def zero_address_def)
  moreover have "GetOp 0 (start_contract [] loop_contract) = Ok 0x4b" "c_pure (start_contract [] loop_contract) = 0"
    by (simp_all add: GetOp_def GetInst_def start_contract_def loop_contract_def loop_inst_def)
  moreover have "data (start_stack loop_contract) 0 = Some (newFrame\<lparr> space := replicate 4 0, pure := 0 \<rparr>)"
    "callTop (start_stack loop_contract) = 0"
    by (simp_all add: start_stack_def Newstack_def loop_contract_def)
  ultimately show ?thesis
    by (simp add: run_step_def NewOmegaInstructionSet_def plain_def exec_if_def enforceRestrictions_def
        finish_instruction_def after_instruction_def return_bound_empty Let_def)
qed

text \<open>
  C24: The limit on the number of steps is never reached. \<open>StepLimit\<close> is an unsigned integer, so it
  is never below zero: it wraps around. On every network, the main network included, and whatever the
  limit is, the contract that consists of one conditional jump to itself does not return after any
  number of rounds, as long as nobody aborts the machine.
\<close>

theorem step_limit_dead:
  assumes "\<not> stop_flag evm" "\<forall>i. \<not> abort i"
  shows "Run (NewOmegaInstructionSet pw ext) abort n evm loop_contract [] = None"
proof -
  have "run_loop (NewOmegaInstructionSet pw ext) abort n 0 evm (start_contract [] loop_contract) (start_stack loop_contract) = None"
    if "\<not> stop_flag evm" "\<forall>i. \<not> abort i" for evm abort
    using that by (induction n arbitrary: evm abort) (simp_all add: loop_step)
  moreover have "Code loop_contract \<noteq> []" by (simp add: loop_contract_def)
  ultimately show ?thesis using assms by (simp add: Run_def put_input_def)
qed

theorem step_limit_dead_witness:
  "Run (NewOmegaInstructionSet sample_platform (\<lambda>_. opNul)) (\<lambda>_. False) 1000 sample_ovm loop_contract [] = None"
  using step_limit_dead [of sample_ovm "\<lambda>_. False" sample_platform "\<lambda>_. opNul" 1000] by (simp add: sample_ovm_def)

subsection \<open>Straight code ends\<close>

definition straight_op :: "byte \<Rightarrow> bool" where
  "straight_op op \<longleftrightarrow> op \<in> set [0x41, 0x42, 0x43, 0x44, 0x52, 0x53, 0x54, 0x58, 0x64, 0x7a]"

lemma straight_step:
  assumes "run_step (NewOmegaInstructionSet pw ext) pc evm c s = Running pc' evm' c' s'"
    and "list_all (\<lambda>i. straight_op (i_op i)) (Code c)" "0 \<le> pc"
  shows "c' = c \<and> pc' = pc + 1 \<and> pc < int (length (Code c))"
proof -
  have op: "GetOp pc c = Ok (if pc < int (length (Code c)) then i_op (Code c ! nat pc) else 0)"
    using assms(3) by (simp add: GetOp_def GetInst_def)
  have "pc < int (length (Code c))"
    using assms(1) op by (auto simp: run_step_def NewOmegaInstructionSet_def plain_def Let_def split: if_splits)
  moreover from this have "straight_op (i_op (Code c ! nat pc))"
    using assms(2,3) by (auto simp: list_all_length)
  moreover have "c' = c \<and> pc' = pc + 1" if o: "straight_op (i_op (Code c ! nat pc))" and "pc < int (length (Code c))"
  proof -
    let ?o = "NewOmegaInstructionSet pw ext (i_op (Code c ! nat pc))"
    have nj: "\<not> jumps ?o" and "(\<exists>f. execute ?o = on_stack f) \<or> execute ?o = opNul"
      using o unfolding straight_op_def
      by (simp_all only: list.set insert_iff empty_iff simp_thms, (elim disjE; simp add: NewOmegaInstructionSet_def plain_def opNul_alt; blast)+)
    then have keep: "c1 = c \<and> pc1 = pc" if "execute ?o pc e c s = Some (err, pc1, e1, c1, s1)" for e err pc1 e1 c1 s1
      using that by (auto simp: on_stack_def opNul_def split: outcome.splits)
    show ?thesis
      using assms(1) op that(2) nj keep
      by (auto simp: run_step_def Let_def finish_instruction_def after_instruction_def split: if_splits option.splits outcome.splits)
  qed
  ultimately show ?thesis by blast
qed


lemma straight_loop:
  assumes "list_all (\<lambda>i. straight_op (i_op i)) (Code c)" "0 \<le> pc" "pc \<le> int (length (Code c))" "int (length (Code c)) - pc < int n"
  shows "run_loop (NewOmegaInstructionSet pw ext) abort n pc evm c s \<noteq> None"
  using assms
proof (induction n arbitrary: pc evm c s abort)
  case (Suc n)
  show ?case
  proof (cases "run_step (NewOmegaInstructionSet pw ext) pc evm c s")
    case (Running pc' evm' c' s')
    from straight_step [OF this Suc(2,3)] Suc show ?thesis by (simp add: Running)
  qed simp_all
qed simp

text \<open>
  C23: Straight code ends. A contract without jumps, calls and returns, made of arithmetic,
  allocations, copies, no-operations, stops and reverts, returns or crashes after at most as many
  rounds as it has instructions, and one more, whatever its input is.
\<close>

theorem straight_code_ends:
  assumes "list_all (\<lambda>i. straight_op (i_op i)) (Code k)"
  shows "\<exists>r. Run (NewOmegaInstructionSet pw ext) abort (length (Code k) + 1) evm k inp = Some r"
proof -
  have "list_all (\<lambda>i. straight_op (i_op i)) (Code (start_contract inp k))" "Code (start_contract inp k) = Code k"
    using assms by (simp_all add: start_contract_def)
  then have "run_loop (NewOmegaInstructionSet pw ext) abort (length (Code k) + 1) 0 e (start_contract inp k) s \<noteq> None" for e s
    by (intro straight_loop) simp_all
  then show ?thesis
    by (auto simp: Run_def Let_def simp del: run_loop.simps split: outcome.split)
qed

theorem straight_code_ends_witness:
  "\<exists>r. Run (NewOmegaInstructionSet sample_platform (\<lambda>_. opNul)) (\<lambda>_. False) 3 sample_ovm two_steps [] = Some r"
  using straight_code_ends [of two_steps sample_platform "\<lambda>_. opNul" "\<lambda>_. False" sample_ovm "[]"]
  by (simp add: two_steps_def straight_op_def numeral_eq_Suc)

subsection \<open>A contract that crashes the machine\<close>

text \<open>\<^verbatim>\<open>C0,4294967295,\<close> writes the largest length into the first four bytes of the global memory, and
  \<^verbatim>\<open>z\<close> stops.\<close>

definition crash_code :: bytes where
  "crash_code = [0x43, 0x30, 0x2c, 0x34, 0x32, 0x39, 0x34, 0x39, 0x36, 0x37, 0x32, 0x39, 0x35, 0x2c, 0x0a, 0x7a]"

lemma crash_parse: "ByteCodeParser crash_code =
    [\<lparr> i_op = 0x43, i_param = literal 0 @ 0x2c # compile (Lit 4294967295) \<rparr>, \<lparr> i_op = 0x7a, i_param = [] \<rparr>]"
  by (simp add: ByteCodeParser_def crash_code_def literal_def decimal.simps)


lemma crash_store: "store_loop 4 0 0 (4294967295 :: u32) [0, 0, 0, 0] = [255, 255, 255, 255]"
  by (simp add: store_loop_write write_at_def le_bytes_def upt_rec)

text \<open>
  C25: A contract can crash the machine. The length of the data to return is read from the first
  four bytes of the global memory, which the contract may write, and four is added to it in 32
  bits: when the sum wraps around below four, the slice of the data to return has its end before
  its start. The contract of \<open>crash_code\<close> does so in two instructions.
\<close>

theorem return_length_crash:
  assumes "\<not> stop_flag evm" "\<forall>i. \<not> abort i"
  shows "Run (NewOmegaInstructionSet pw ext) abort (Suc (Suc n)) evm
    \<lparr> Code = ByteCodeParser crash_code, libs = Map.empty, c_pure = 0, Input = [] \<rparr> [] = Some Crashed"
proof -
  let ?k = "\<lparr> Code = ByteCodeParser crash_code, libs = Map.empty, c_pure = 0, Input = [] \<rparr>"
  let ?c = "start_contract [] ?k"
  let ?T = "NewOmegaInstructionSet pw ext"
  let ?f = "\<lambda>sp. newFrame\<lparr> space := sp, pure := 0 \<rparr>"
  let ?s = "\<lambda>sp. \<lparr> callTop = 0, libTop = 0, data = [0 \<mapsto> ?f sp] \<rparr>"
  have start: "start_stack ?k = ?s (replicate 4 0)" by (simp add: start_stack_def Newstack_def)
  have lib: "l_end (lib_of (inlib newFrame) ?c) = 2"
    by (simp add: lib_of_def start_contract_def crash_parse newFrame_def zero_address_def)
  have code: "GetOp 0 ?c = Ok 0x43" "GetBytes 0 ?c = Ok (literal 0 @ 0x2c # compile (Lit 4294967295))" "GetOp 1 ?c = Ok 0x7a"
    "c_pure ?c = 0"
    by (simp_all add: GetOp_def GetInst_def GetBytes_def start_contract_def crash_parse)
  have four: "replicate 4 (0 :: byte) = [0, 0, 0, 0]" by (simp add: numeral_eq_Suc)
  have "saveInt32 0 (word_of_int 4294967295) (?s (replicate 4 0)) = Ok (?s [255, 255, 255, 255])"
    by (simp add: saveInt32_def p_area_def p_offset_def set_space_def crash_store four newFrame_def)
  then have eval: "opEval32 (pow32 pw) (literal 0 @ 0x2c # compile (Lit 4294967295)) (?s (replicate 4 0)) = Ok (?s [255, 255, 255, 255])"
    by (subst opEval_small_correct) (simp_all)
  have full: "return_bound [255, 255, 255, 255] = Ok 3" by (simp add: return_bound_def)
  have "run_step ?T 0 e ?c (?s (replicate 4 0)) = Running 1 (e\<lparr> StepLimit := StepLimit e - 1 \<rparr>) ?c (?s [255, 255, 255, 255])"
    if "\<not> stop_flag e" for e
    using that
    by (simp add: run_step_def code enforceRestrictions_def NewOmegaInstructionSet_def plain_def on_stack_def eval
        finish_instruction_def full after_instruction_def lib Let_def del: compile.simps)
  moreover have "run_step ?T 1 e ?c (?s [255, 255, 255, 255]) = Crashed" for e
    by (simp add: run_step_def code enforceRestrictions_def NewOmegaInstructionSet_def plain_def opStop_def
        finish_instruction_def full slice_from_4_def Let_def)
  moreover have "ByteCodeParser crash_code \<noteq> []" by (simp add: crash_parse)
  ultimately show ?thesis
    using assms by (simp add: Run_def put_input_def start)
qed

theorem return_length_crash_witness:
  "Run (NewOmegaInstructionSet sample_platform (\<lambda>_. opNul)) (\<lambda>_. False) 2 sample_ovm
    \<lparr> Code = ByteCodeParser crash_code, libs = Map.empty, c_pure = 0, Input = [] \<rparr> [] = Some Crashed"
  using return_length_crash [of sample_ovm "\<lambda>_. False" sample_platform "\<lambda>_. opNul" 0]
  by (simp add: sample_ovm_def numeral_2_eq_2 del: run_loop.simps)

end
