(* ===== verification/Go_Regexp.thy ===== *)
theory Go_Regexp
  imports Zent_Prelude
begin

text \<open>
  The part of Go's package \<^verbatim>\<open>regexp\<close> the sources use. A repetition is always of a class of
  characters, and \<open>ends\<close> lists the lengths of the matches at a position in the order of preference
  of a leftmost-first match (alternatives from the left, repetitions and options as long as
  possible), so that \<open>Find\<close> takes the first one at the leftmost position that has any. All
  classes are of ASCII characters, so the search by bytes and the one by UTF-8 characters find
  the same matches. \<open>matches\<close> is the language of an expression; the lemmas show that \<open>ends\<close>
  lists exactly its words and that \<open>Find\<close> finds a word at the leftmost position, or there is
  none.
\<close>

subsection \<open>Expressions and matches\<close>

datatype regexp =
    Begin
  | Class "byte list"
  | Many "byte list"
  | Seq regexp regexp
  | Or regexp regexp
  | Maybe regexp

text \<open>The lengths of the matches at the start of a text; the flag tells that this is the start of the
  text that is searched.\<close>

fun ends :: "regexp \<Rightarrow> bool \<Rightarrow> bytes \<Rightarrow> nat list" where
  "ends Begin b s = (if b then [0] else [])"
| "ends (Class cs) b s = (case s of [] \<Rightarrow> [] | c # _ \<Rightarrow> if c \<in> set cs then [1] else [])"
| "ends (Many cs) b s = rev [0..<Suc (length (takeWhile (\<lambda>c. c \<in> set cs) s))]"
| "ends (Seq r q) b s = concat (map (\<lambda>n. map ((+) n) (ends q (b \<and> n = 0) (drop n s))) (ends r b s))"
| "ends (Or r q) b s = ends r b s @ ends q b s"
| "ends (Maybe r) b s = ends r b s @ [0]"

fun find_from :: "regexp \<Rightarrow> bool \<Rightarrow> bytes \<Rightarrow> bytes option" where
  "find_from r b s =
     (case ends r b s of
        n # _ \<Rightarrow> Some (take n s)
      | [] \<Rightarrow> (case s of [] \<Rightarrow> None | _ # s' \<Rightarrow> find_from r False s'))"

definition Find :: "regexp \<Rightarrow> bytes \<Rightarrow> bytes option" where
  "Find r s = find_from r True s"

definition Match :: "regexp \<Rightarrow> bytes \<Rightarrow> bool" where
  "Match r s \<longleftrightarrow> Find r s \<noteq> None"

definition digits :: "byte list" where
  "digits = [0x30, 0x31, 0x32, 0x33, 0x34, 0x35, 0x36, 0x37, 0x38, 0x39]"

definition hex_letters :: "byte list" where
  "hex_letters = [0x61, 0x62, 0x63, 0x64, 0x65, 0x66]"

definition Many1 :: "byte list \<Rightarrow> regexp" where
  "Many1 cs = Seq (Class cs) (Many cs)"

section \<open>Proofs\<close>

text \<open>The language of a regular expression, as words at the start of the text or after it.\<close>

inductive matches :: "regexp \<Rightarrow> bool \<Rightarrow> bytes \<Rightarrow> bool" where
  start: "matches Begin True []"
| cls: "c \<in> set cs \<Longrightarrow> matches (Class cs) b [c]"
| many: "set w \<subseteq> set cs \<Longrightarrow> matches (Many cs) b w"
| seq: "matches r b u \<Longrightarrow> matches q (b \<and> u = []) v \<Longrightarrow> matches (Seq r q) b (u @ v)"
| or1: "matches r b w \<Longrightarrow> matches (Or r q) b w"
| or2: "matches q b w \<Longrightarrow> matches (Or r q) b w"
| some: "matches r b w \<Longrightarrow> matches (Maybe r) b w"
| none: "matches (Maybe r) b []"

inductive_simps matches_Begin: "matches Begin b w"
inductive_simps matches_Class: "matches (Class cs) b w"
inductive_simps matches_Many: "matches (Many cs) b w"
inductive_simps matches_Seq: "matches (Seq r q) b w"
inductive_simps matches_Or: "matches (Or r q) b w"
inductive_simps matches_Maybe: "matches (Maybe r) b w"

lemmas matches_iff = matches_Begin matches_Class matches_Many matches_Seq matches_Or matches_Maybe

lemma takeWhile_prefix:
  "n \<le> length (takeWhile P s) \<longleftrightarrow> n \<le> length s \<and> list_all P (take n s)"
proof (induction s arbitrary: n)
  case (Cons c s)
  then show ?case by (cases n) auto
qed simp

lemma split_ends:
  assumes "n \<le> length s"
  shows "matches (Seq r q) b (take n s) \<longleftrightarrow>
    (\<exists>i\<le>n. matches r b (take i s) \<and> matches q (b \<and> i = 0) (take (n - i) (drop i s)))" (is "?l \<longleftrightarrow> ?r")
proof
  assume ?l
  then obtain u v where uv: "take n s = u @ v" "matches r b u" "matches q (b \<and> u = []) v"
    by (auto simp: matches_Seq)
  have len: "n = length u + length v" using arg_cong [OF uv(1), of length] assms by simp
  have "take (length u) s = u" using arg_cong [OF uv(1), of "take (length u)"] len by (simp add: min_def split: if_splits)
  moreover have "take (n - length u) (drop (length u) s) = v"
    using arg_cong [OF uv(1), of "drop (length u)"] by (simp add: drop_take)
  ultimately show ?r using uv len by (intro exI [of _ "length u"]) simp
next
  assume ?r
  then obtain i where i: "i \<le> n" "matches r b (take i s)" "matches q (b \<and> i = 0) (take (n - i) (drop i s))" by blast
  have "(b \<and> take i s = []) = (b \<and> i = 0)" using i(1) assms by auto
  then have "matches (Seq r q) b (take i s @ take (n - i) (drop i s))" using i by (intro matches.seq) simp_all
  moreover have "take i s @ take (n - i) (drop i s) = take n s" using i(1) by (simp add: take_add [symmetric])
  ultimately show ?l by simp
qed

lemma sums_cong:
  fixes n :: nat
  assumes "\<And>i. i \<in> A \<longleftrightarrow> P i" "\<And>i k. i \<in> A \<Longrightarrow> k \<in> B i \<longleftrightarrow> Q i k"
  shows "(\<exists>i. i \<in> A \<and> (\<exists>k. k \<in> B i \<and> n = i + k)) \<longleftrightarrow> (\<exists>i. P i \<and> (\<exists>k. Q i k \<and> n = i + k))"
  using assms by auto

lemma ends_exact: "n \<in> set (ends r b s) \<longleftrightarrow> n \<le> length s \<and> matches r b (take n s)"
proof (induction r b s arbitrary: n rule: ends.induct)
  case (2 cs b s)
  then show ?case by (cases s; cases n) (auto simp: matches_Class)
next
  case (3 cs b s)
  have "n \<in> set (ends (Many cs) b s) \<longleftrightarrow> n \<le> length (takeWhile (\<lambda>c. c \<in> set cs) s)" by auto
  also have "\<dots> \<longleftrightarrow> n \<le> length s \<and> matches (Many cs) b (take n s)"
    by (simp add: takeWhile_prefix matches_Many list_all_iff subset_iff Ball_def)
  finally show ?case .
next
  case (4 r q b s)
  have "n \<in> set (ends (Seq r q) b s) \<longleftrightarrow>
      (\<exists>i. i \<in> set (ends r b s) \<and> (\<exists>k. k \<in> set (ends q (b \<and> i = 0) (drop i s)) \<and> n = i + k))"
    by (simp only: ends.simps set_concat set_map image_image UN_iff image_iff Bex_def)
  also have "\<dots> \<longleftrightarrow> (\<exists>i. (i \<le> length s \<and> matches r b (take i s))
      \<and> (\<exists>k. (k \<le> length (drop i s) \<and> matches q (b \<and> i = 0) (take k (drop i s))) \<and> n = i + k))"
    by (rule sums_cong) (rule 4(1), rule 4(2))
  also have "\<dots> \<longleftrightarrow> n \<le> length s \<and> matches (Seq r q) b (take n s)" (is "?l \<longleftrightarrow> ?r")
  proof
    assume ?l
    then obtain i k where ik: "i \<le> length s" "matches r b (take i s)" "k \<le> length s - i"
      "matches q (b \<and> i = 0) (take k (drop i s))" "n = i + k" by auto
    then have "\<exists>j\<le>n. matches r b (take j s) \<and> matches q (b \<and> j = 0) (take (n - j) (drop j s))"
      by (intro exI [of _ i]) simp
    moreover have "n \<le> length s" using ik by simp
    ultimately show ?r using split_ends by blast
  next
    assume ?r
    then obtain i where "i \<le> n" "matches r b (take i s)" "matches q (b \<and> i = 0) (take (n - i) (drop i s))" "n \<le> length s"
      using split_ends [of n s r q b] by blast
    then show ?l by (intro exI [of _ i] exI [of _ "n - i"] conjI) auto
  qed
  finally show ?case .
next
  case (5 r q b s)
  show ?case unfolding ends.simps set_append Un_iff 5 matches_Or by blast
next
  case (6 r b s)
  show ?case unfolding ends.simps set_append Un_iff 6 matches_Maybe by auto
next
  case (1 b s)
  then show ?case by (cases n) (auto simp: matches_Begin)
qed

lemma ends_empty: "ends r b s = [] \<longleftrightarrow> (\<forall>w v. s = w @ v \<longrightarrow> \<not> matches r b w)"
proof
  assume "ends r b s = []"
  then show "\<forall>w v. s = w @ v \<longrightarrow> \<not> matches r b w"
    using ends_exact [where r = r and b = b and s = s] by (metis append_eq_conv_conj le_add1 length_append list.set(1) empty_iff)
next
  assume "\<forall>w v. s = w @ v \<longrightarrow> \<not> matches r b w"
  then have "n \<notin> set (ends r b s)" for n
    using ends_exact [of n r b s] append_take_drop_id [of n s] by metis
  then show "ends r b s = []" by (metis list.set_intros(1) neq_Nil_conv)
qed

text \<open>A search finds a word of the language at the leftmost position that has any, or there is none.\<close>

declare find_from.simps [simp del]

lemma find_from_exact:
  "case find_from r b s of
     None \<Rightarrow> (\<forall>u w v. s = u @ w @ v \<longrightarrow> \<not> matches r (b \<and> u = []) w)
   | Some w \<Rightarrow> (\<exists>u v. s = u @ w @ v \<and> matches r (b \<and> u = []) w
       \<and> (\<forall>u' w' v'. s = u' @ w' @ v' \<and> length u' < length u \<longrightarrow> \<not> matches r (b \<and> u' = []) w'))"
proof (induction s arbitrary: b)
  case Nil
  show ?case
    using ends_exact [of "hd (ends r b [])" r b "[]"] ends_empty [of r b "[]"]
    by (cases "ends r b []") (auto simp: find_from.simps)
next
  case (Cons c s)
  show ?case
  proof (cases "ends r b (c # s)")
    case (Cons n ns)
    then have n: "n \<le> length (c # s)" "matches r b (take n (c # s))"
      using ends_exact [of n r b "c # s"] by auto
    have "find_from r b (c # s) = Some (take n (c # s))" using Cons by (simp add: find_from.simps)
    moreover have "c # s = [] @ take n (c # s) @ drop n (c # s)" by simp
    ultimately show ?thesis using n(2)
      by (simp del: append_take_drop_id) (rule exI [of _ "[]"], simp del: append_take_drop_id, rule exI [of _ "drop n (c # s)"], assumption)
  next
    case Nil
    then have none: "\<not> matches r b w" if "c # s = w @ v" for w v using that ends_empty [of r b "c # s"] by auto
    have f: "find_from r b (c # s) = find_from r False s" using Nil by (simp add: find_from.simps)
    show ?thesis
    proof (cases "find_from r False s")
      case None
      then have "\<not> matches r False w" if "s = u @ w @ v" for u w v using Cons.IH [of False] that by auto
      then have "\<not> matches r (b \<and> u = []) w" if "c # s = u @ w @ v" for u w v
        using none [of w v] that by (cases u) auto
      then show ?thesis using f None by simp
    next
      case (Some w)
      have "\<exists>u v. s = u @ w @ v \<and> matches r False w
          \<and> (\<forall>u' w' v'. s = u' @ w' @ v' \<and> length u' < length u \<longrightarrow> \<not> matches r False w')"
        using Cons.IH [of False] unfolding Some by simp
      then obtain u v where uv: "s = u @ w @ v" "matches r False w"
        and first: "\<And>u' w' v'. s = u' @ w' @ v' \<Longrightarrow> length u' < length u \<Longrightarrow> \<not> matches r False w'"
        by blast
      have "\<not> matches r (b \<and> u' = []) w'" if "c # s = u' @ w' @ v'" "length u' < length (c # u)" for u' w' v'
      proof (cases u')
        case Nil
        then show ?thesis using none [of w' v'] that by auto
      next
        case (Cons a us)
        then show ?thesis using first [of us w' v'] that by auto
      qed
      moreover have "c # s = (c # u) @ w @ v" "matches r (b \<and> c # u = []) w" using uv by simp_all
      ultimately show ?thesis unfolding f Some option.case by blast
    qed
  qed
qed

lemma Find_Some:
  "Find r s = Some w \<Longrightarrow> \<exists>u v. s = u @ w @ v \<and> matches r (u = []) w"
  using find_from_exact [where r = r and b = True and s = s] by (auto simp: Find_def)

lemma Find_None: "Find r s = None \<Longrightarrow> s = u @ w @ v \<Longrightarrow> \<not> matches r (u = []) w"
  using find_from_exact [where r = r and b = True and s = s] by (auto simp: Find_def)

text \<open>A pattern that matches at the start of the text only finds a prefix of the text.\<close>

definition anchored :: "regexp \<Rightarrow> bool" where
  "anchored r \<longleftrightarrow> (\<forall>w. \<not> matches r False w)"

lemma Find_anchored: "Find r s = Some w \<Longrightarrow> anchored r \<Longrightarrow> matches r True w \<and> (\<exists>v. s = w @ v)"
proof -
  assume a: "Find r s = Some w" "anchored r"
  then obtain u v where "s = u @ w @ v" "matches r (u = []) w" using Find_Some by blast
  then show "matches r True w \<and> (\<exists>v. s = w @ v)" using a(2) by (cases u) (auto simp: anchored_def)
qed

fun letters :: "regexp \<Rightarrow> byte set" where
  "letters Begin = {}"
| "letters (Class cs) = set cs"
| "letters (Many cs) = set cs"
| "letters (Seq r q) = letters r \<union> letters q"
| "letters (Or r q) = letters r \<union> letters q"
| "letters (Maybe r) = letters r"

lemma matches_letters: "matches r b w \<Longrightarrow> set w \<subseteq> letters r"
  by (induction rule: matches.induct) auto

end
