(* ===== verification/OVM_Validate.thy ===== *)
theory OVM_Validate
  imports OVM_Machine Go_Regexp
begin

text \<open>
  The validator of contract code, \<^verbatim>\<open>omega/ovm/codevalidators.go\<close> and
  \<open>ByteCodeValidator\<close> of \<^verbatim>\<open>omega/ovm/contract.go\<close>, which a contract passes before its
  constructor runs. The validators of the evaluations follow the evaluation with a count of the
  values; the others compare the parameter with a list of regular expressions, in the theory of
  their own. A validator returns \<open>1\<close> or \<open>- 0xfffffff\<close>, or panics.
\<close>

unbundle bit_operations_syntax

subsection \<open>Patterns\<close>

text \<open>The number of an operand with its offsets, and the comma.\<close>

definition patTail :: regexp where
  "patTail =
     Seq (Or (Seq (Class (0x78 # hex_letters)) (Many1 (digits @ hex_letters))) (Many1 digits))
       (Seq (Maybe (Seq (Class [0x27]) (Many1 digits))) (Maybe (Seq (Class [0x22]) (Many1 digits))))"

definition patOperand :: regexp where
  "patOperand =
     Seq (Seq Begin (Seq (Many [0x40]) (Seq (Many [0x42, 0x57, 0x44, 0x51, 0x6b, 0x4b, 0x72, 0x52, 0x40, 0x6e, 0x67, 0x69]) patTail)))
       (Class [0x2c])"

definition addrOperand :: regexp where
  "addrOperand =
     Seq (Seq Begin (Seq (Many [0x40]) (Seq (Many [0x67, 0x69]) (Seq (Class [0x69]) patTail)))) (Class [0x2c])"

definition loadOperand :: regexp where
  "loadOperand =
     Seq (Seq Begin (Seq (Many [0x40]) (Seq (Many [0x7a, 0x5a, 0x42, 0x57, 0x44, 0x51, 0x6b, 0x4b, 0x72, 0x52, 0x40, 0x6e, 0x67, 0x69]) patTail)))
       (Class [0x2c])"

definition patNum :: regexp where
  "patNum = Many1 (digits @ hex_letters)"

definition patHex :: regexp where
  "patHex = Class (0x78 # hex_letters)"

definition dataType :: regexp where
  "dataType =
     Or (Seq Begin (Class [0x72, 0x52, 0x42, 0x57, 0x44, 0x51, 0x48, 0x68, 0x6b, 0x4b]))
        (Seq (Class [0x4c]) (Seq (Many1 digits) (Class [0x2c])))"

definition storeType :: regexp where
  "storeType =
     Or (Or (Seq Begin (Class [0x72, 0x52, 0x42, 0x57, 0x44, 0x51, 0x48, 0x68, 0x6b, 0x4b]))
            (Seq (Class [0x4c]) (Seq (Many1 digits) (Class [0x2c]))))
        (Seq (Maybe (Class [0x67])) (Seq (Many [0x69]) (Seq (Many1 digits)
          (Seq (Maybe (Seq (Class [0x27]) (Many1 digits)))
            (Seq (Maybe (Seq (Class [0x22]) (Many1 digits))) (Class [0x2c]))))))"

definition immData :: regexp where
  "immData = Seq (Maybe (Class [0x78])) (Seq (Many1 (digits @ hex_letters)) (Class [0x2c]))"

definition logType :: regexp where
  "logType = Class [0x42, 0x43, 0x57, 0x44, 0x51, 0x48, 0x68]"

definition ledgerNum :: regexp where
  "ledgerNum = Seq (Maybe (Class [0x78])) (Many1 (digits @ hex_letters))"

subsection \<open>Numbers\<close>

definition rejected :: int where
  "rejected = - 0xfffffff"

fun digits_value :: "bool \<Rightarrow> u64 \<Rightarrow> bytes \<Rightarrow> u64" where
  "digits_value hex num [] = num"
| "digits_value hex num (c # cs) =
     (if is_digit c then digits_value hex (num * (if hex then 16 else 10) + ucast (c - 0x30)) cs
      else if is_hex_letter c then digits_value True (num * 16 + ucast (c - 0x61) + 10) cs
      else digits_value hex num cs)"

definition valid_getNum :: "bytes \<Rightarrow> u64 \<times> int" where
  "valid_getNum param =
     (case Find patOperand param of
        None \<Rightarrow> (0, - 1)
      | Some [] \<Rightarrow> (0, - 1)
      | Some s \<Rightarrow>
          let isaddress = Match (Class [0x69]) s; offset = Match (Class [0x27, 0x22]) s
          in if offset \<and> \<not> isaddress then (0, rejected)
             else
               let ns = (case Find patNum s of None \<Rightarrow> [] | Some ns \<Rightarrow> ns);
                   num = digits_value (Match patHex s) 0 ns
               in if isaddress \<and> sint num > 0xffffffff then (0, - 1) else (num, int (length s)))"

definition valid_getBig :: "bytes \<Rightarrow> int" where
  "valid_getBig param =
     (case Find patOperand param of
        None \<Rightarrow> - 1
      | Some [] \<Rightarrow> - 1
      | Some s \<Rightarrow>
          if \<not> Match (Class [0x27, 0x22]) s \<and> \<not> Match (Class [0x69]) s then rejected
          else int (length param))"

subsection \<open>Evaluations\<close>

text \<open>The loop of the validators of evaluations: what differs between them is the guard of an
  operator, the numbers and the other characters they allow.\<close>

function (sequential) validate_loop :: "(nat \<Rightarrow> nat \<Rightarrow> bool) \<Rightarrow> (u64 \<Rightarrow> bool) \<Rightarrow> (nat \<Rightarrow> byte \<Rightarrow> bool) \<Rightarrow> nat \<Rightarrow> bytes \<Rightarrow> int" where
  "validate_loop enough number chr n [] = (if n \<noteq> 2 then rejected else 1)"
| "validate_loop enough number chr n (c # param) =
     (case (case checkTop c of None \<Rightarrow> Some n | Some d \<Rightarrow> if enough n d then Some (n - d) else None) of
        None \<Rightarrow> rejected
      | Some n \<Rightarrow>
          if starts_operand c then
            (case valid_getNum (c # param) of (num, len) \<Rightarrow>
               if len < 0 then rejected
               else if \<not> number num then rejected
               else validate_loop enough number chr (n + 1) (drop (nat (len - 1)) param))
          else if chr n c then validate_loop enough number chr n param
          else rejected)"
  by pat_completeness auto
termination by (relation "measure (\<lambda>(_, _, _, _, param). length param)") auto

definition eval8_chars :: "byte list" where
  "eval8_chars = [0x75, 0x2b, 0x2d, 0x2a, 0x2f, 0x42, 0x57, 0x44, 0x51, 0x48, 0x25, 0x23, 0x5b, 0x5d, 0x7c, 0x26,
     0x5e, 0x7e, 0x3e, 0x3c, 0x3d, 0x28, 0x29, 0x21, 0x3f, 0x22, 0x27]"

definition opEval8Validator :: "bytes \<Rightarrow> int" where
  "opEval8Validator param =
     validate_loop (\<lambda>n d. \<not> n \<le> d + 1) (\<lambda>num. \<not> sint num > 0xffffffff)
       (\<lambda>n c. c \<in> set eval8_chars \<or> c = 0x40 \<and> n = 0) 0 param"

definition opEval16Validator :: "bytes \<Rightarrow> int" where
  "opEval16Validator param = opEval8Validator param"

definition opEval32Validator :: "bytes \<Rightarrow> int" where
  "opEval32Validator param = opEval8Validator param"

definition opEval64Validator :: "bytes \<Rightarrow> int" where
  "opEval64Validator param =
     validate_loop (\<lambda>n d. \<not> n < d + 1) (\<lambda>_. True) (\<lambda>n c. c \<in> set ([0x40, 0x50] @ eval8_chars)) 0 param"

definition opEval256Validator :: "bytes \<Rightarrow> int" where
  "opEval256Validator param =
     validate_loop (\<lambda>n d. \<not> n < d + 1) (\<lambda>_. True) (\<lambda>n c. c \<in> set ([0x40, 0x50, 0x5a] @ eval8_chars)) 0 param"

subsection \<open>Formats\<close>

datatype formatDesc = FormatDesc (desc: regexp) (limit: int)

fun format_loop :: "formatDesc list \<Rightarrow> bytes \<Rightarrow> int" where
  "format_loop [] param = (if param \<noteq> [] then rejected else 1)"
| "format_loop (fm # fms) param =
     (case Find (desc fm) param of
        None \<Rightarrow> rejected
      | Some s \<Rightarrow>
          if s = [] then rejected
          else if limit fm \<noteq> 0 \<and> \<not> Match (Class [0x69]) s
            \<and> (snd (valid_getNum s) < 0 \<or> sint (fst (valid_getNum s)) > limit fm) then rejected
          else format_loop fms (drop (length s) param))"

definition formatParser :: "formatDesc list \<Rightarrow> bytes \<Rightarrow> int" where
  "formatParser f param = format_loop f param"

definition formatConv :: "formatDesc list" where
  "formatConv =
     [FormatDesc dataType 0, FormatDesc addrOperand 0xFFFFFFFF, FormatDesc dataType 0, FormatDesc addrOperand 0xFFFFFFFF]"

definition opConvValidator :: "bytes \<Rightarrow> int outcome" where
  "opConvValidator param =
     (if param = [] then Panic
      else if List.last param = 0x75 then Ok (formatParser formatConv (butlast param))
      else Ok (formatParser formatConv param))"

definition formatHash :: "formatDesc list" where
  "formatHash =
     [FormatDesc addrOperand 0xFFFFFFFF, FormatDesc addrOperand 0xFFFFFFFF, FormatDesc patOperand 0xFFFFFFFF]"

definition opHashValidator :: "bytes \<Rightarrow> int" where
  "opHashValidator param = formatParser formatHash param"

definition formatHash160 :: "formatDesc list" where
  "formatHash160 =
     [FormatDesc addrOperand 0xFFFFFFFF, FormatDesc addrOperand 0xFFFFFFFF, FormatDesc patOperand 0xFFFFFFFF, FormatDesc patOperand 1]"

definition opHash160Validator :: "bytes \<Rightarrow> int" where
  "opHash160Validator param = (let r = formatParser formatHash160 param in if r < 0 then formatParser formatHash param else r)"

definition formatSigCheck :: "formatDesc list" where
  "formatSigCheck =
     [FormatDesc addrOperand 0xFFFFFFFF, FormatDesc patOperand 0, FormatDesc patOperand 0, FormatDesc addrOperand 0xFFFFFFFF]"

definition opSigCheckValidator :: "bytes \<Rightarrow> int" where
  "opSigCheckValidator param = formatParser formatSigCheck param"

definition formatIf :: "formatDesc list" where
  "formatIf =
     [FormatDesc patOperand 0xFFFFFFFF, FormatDesc patOperand 0xFFFFFFFF]"

definition opIfValidator :: "bytes \<Rightarrow> int" where
  "opIfValidator param = formatParser formatIf param"

definition formatCall :: "formatDesc list" where
  "formatCall =
     [FormatDesc patOperand 0, FormatDesc patOperand 0xFFFFFFFF]"

definition commas :: "bytes \<Rightarrow> nat" where
  "commas param = length (filter (\<lambda>c. c = 0x2c) param)"

definition extended :: "formatDesc list \<Rightarrow> nat \<Rightarrow> formatDesc list" where
  "extended f n = f @ replicate (n - 2) (FormatDesc patOperand 0)"

definition opCallValidator :: "bytes \<Rightarrow> int" where
  "opCallValidator param = 
     (let n = commas param
      in if n > 2 then formatParser (extended formatCall n) param else formatParser formatCall param)"

definition formatLoad :: "formatDesc list" where
  "formatLoad =
     [FormatDesc addrOperand 0xFFFFFFFF, FormatDesc loadOperand 0]"

definition opLoadValidator :: "bytes \<Rightarrow> int" where
  "opLoadValidator param = formatParser formatLoad param"

definition formatStore :: "formatDesc list" where
  "formatStore =
     [FormatDesc loadOperand 0, FormatDesc storeType 0, FormatDesc patOperand 0]"

definition opStoreValidator :: "bytes \<Rightarrow> int" where
  "opStoreValidator param = formatParser formatStore param"

definition formatDel :: "formatDesc list" where
  "formatDel =
     [FormatDesc patOperand 0]"

definition opDelValidator :: "bytes \<Rightarrow> int outcome" where
  "opDelValidator param =
     (case param of
        [] \<Rightarrow> Panic
      | c # rest \<Rightarrow> Ok (formatParser formatDel (if c = 0x44 \<or> c = 0x51 then rest else param)))"

definition formatReceived :: "formatDesc list" where
  "formatReceived =
     [FormatDesc addrOperand 0xFFFFFFFF]"

definition opReceivedValidator :: "bytes \<Rightarrow> int" where
  "opReceivedValidator param = formatParser formatReceived param"

definition formatExec :: "formatDesc list" where
  "formatExec =
     [FormatDesc patOperand 0, FormatDesc patOperand 0, FormatDesc patOperand 0xFFFFFFFF, FormatDesc patOperand 0xFFFFFFFF, FormatDesc patOperand 0xFFFFFFFF]"

definition opExecValidator :: "bytes \<Rightarrow> int" where
  "opExecValidator param = 
     (if commas param = 6 then formatParser (formatExec @ [FormatDesc patOperand 0xFFFFFFFF]) param
      else formatParser formatExec param)"

definition formatLibload :: "formatDesc list" where
  "formatLibload =
     [FormatDesc patOperand 0, FormatDesc patOperand 0]"

definition opLibLoadValidator :: "bytes \<Rightarrow> int" where
  "opLibLoadValidator param = 
     (let n = commas param
      in if n > 2 then formatParser (extended formatLibload n) param else formatParser formatLibload param)"

definition formatMalloc :: "formatDesc list" where
  "formatMalloc =
     [FormatDesc patOperand 0xFFFFFFFF, FormatDesc patOperand 0xFFFFFFFF]"

definition opMallocValidator :: "bytes \<Rightarrow> int" where
  "opMallocValidator param = formatParser formatMalloc param"

definition opAllocValidator :: "bytes \<Rightarrow> int" where
  "opAllocValidator param = formatParser formatMalloc param"

definition formatCopy :: "formatDesc list" where
  "formatCopy =
     [FormatDesc addrOperand 0xFFFFFFFF, FormatDesc patOperand 0, FormatDesc patOperand 0xFFFFFFFF]"

definition opCopyValidator :: "bytes \<Rightarrow> int" where
  "opCopyValidator param = formatParser formatCopy param"

definition formatImm :: "formatDesc list" where
  "formatImm =
     [FormatDesc addrOperand 0xFFFFFFFF, FormatDesc dataType 0, FormatDesc immData 0]"

definition opCopyImmValidator :: "bytes \<Rightarrow> int" where
  "opCopyImmValidator param = (if commas param < 2 then rejected else formatParser formatImm param)"

definition formatSuicide :: "formatDesc list" where
  "formatSuicide =
     [FormatDesc patOperand 0, FormatDesc patOperand 0]"

definition opSuicideValidator :: "bytes \<Rightarrow> int" where
  "opSuicideValidator param = (if param \<noteq> [] then formatParser formatSuicide param else 1)"

definition opRevertValidator :: "bytes \<Rightarrow> int" where
  "opRevertValidator param = (if param \<noteq> [] then rejected else 1)"

definition opStopValidator :: "bytes \<Rightarrow> int" where
  "opStopValidator param = (if param \<noteq> [] then rejected else 1)"

definition opReturnValidator :: "bytes \<Rightarrow> int" where
  "opReturnValidator param = (if param \<noteq> [] then rejected else 1)"

definition formatTxFee :: "formatDesc list" where
  "formatTxFee =
     [FormatDesc addrOperand 0xFFFFFFFF, FormatDesc patOperand 3]"

definition opTxFeeValidator :: "bytes \<Rightarrow> int" where
  "opTxFeeValidator param = formatParser formatTxFee param"

definition formatGetCoin :: "formatDesc list" where
  "formatGetCoin =
     [FormatDesc addrOperand 0xFFFFFFFF]"

definition opGetCoinValidator :: "bytes \<Rightarrow> int" where
  "opGetCoinValidator param = formatParser formatGetCoin param"

definition formatTxIOCount :: "formatDesc list" where
  "formatTxIOCount =
     [FormatDesc addrOperand 0xFFFFFFFF]"

definition opTxIOCountValidator :: "bytes \<Rightarrow> int" where
  "opTxIOCountValidator param = formatParser formatTxIOCount param"

definition formatSpend :: "formatDesc list" where
  "formatSpend =
     [FormatDesc patOperand 0, FormatDesc patOperand 0xFFFFFFFF, FormatDesc addrOperand 0xFFFFFFFF]"

definition opSpendValidator :: "bytes \<Rightarrow> int" where
  "opSpendValidator param = (let r = formatParser formatSpend param in if r < 0 then formatParser (take 2 formatSpend) param else r)"

definition formatAddDef :: "formatDesc list" where
  "formatAddDef =
     [FormatDesc patOperand 0xFFFFFFFF, FormatDesc addrOperand 0xFFFFFFFF]"

definition opAddDefValidator :: "bytes \<Rightarrow> int outcome" where
  "opAddDefValidator param =
     (if param = [] then Panic
      else if List.last param = 0x43 then Ok (formatParser formatAddDef (butlast param))
      else Ok (formatParser formatAddDef param))"

definition formatAddTXO :: "formatDesc list" where
  "formatAddTXO =
     [FormatDesc addrOperand 0xFFFFFFFF, FormatDesc addrOperand 0xFFFFFFFF]"

definition opAddTxOutValidator :: "bytes \<Rightarrow> int" where
  "opAddTxOutValidator param = (let r = formatParser formatAddTXO param in if r < 0 then formatParser (take 1 formatAddTXO) param else r)"

definition formatGetDef :: "formatDesc list" where
  "formatGetDef =
     [FormatDesc addrOperand 0xFFFFFFFF, FormatDesc patOperand 0, FormatDesc patOperand 0]"

definition opGetDefinitionValidator :: "bytes \<Rightarrow> int" where
  "opGetDefinitionValidator param = formatParser formatGetDef param"

definition formatGetUTXO :: "formatDesc list" where
  "formatGetUTXO =
     [FormatDesc addrOperand 0xFFFFFFFF, FormatDesc patOperand 0, FormatDesc patOperand 0xFFFFFFFF, FormatDesc patOperand 0xFFFFFFFF]"

definition opGetUtxoValidator :: "bytes \<Rightarrow> int" where
  "opGetUtxoValidator param = (let r = formatParser formatGetUTXO param in if r < 0 then formatParser (take 3 formatGetUTXO) param else r)"

definition formatMint :: "formatDesc list" where
  "formatMint =
     [FormatDesc addrOperand 0xFFFFFFFF, FormatDesc patOperand 0, FormatDesc patOperand 0, FormatDesc patOperand 0]"

definition opMintValidator :: "bytes \<Rightarrow> int" where
  "opMintValidator param = (let r = formatParser formatMint param in if r < 0 then formatParser (take 3 formatMint) param else r)"

definition formatMeta :: "formatDesc list" where
  "formatMeta =
     [FormatDesc addrOperand 0xFFFFFFFF, FormatDesc patOperand 32, FormatDesc patOperand 0]"

definition opMetaValidator :: "bytes \<Rightarrow> int" where
  "opMetaValidator param = formatParser formatMeta param"

definition formatTime :: "formatDesc list" where
  "formatTime =
     [FormatDesc addrOperand 0xFFFFFFFF]"

definition opTimeValidator :: "bytes \<Rightarrow> int" where
  "opTimeValidator param = formatParser formatTime param"

definition formatHeight :: "formatDesc list" where
  "formatHeight =
     [FormatDesc addrOperand 0xFFFFFFFF]"

definition opHeightValidator :: "bytes \<Rightarrow> int" where
  "opHeightValidator param = formatParser formatHeight param"

definition opVersionValidator :: "bytes \<Rightarrow> int" where
  "opVersionValidator param = formatParser formatHeight param"

definition formatTokenContract :: "formatDesc list" where
  "formatTokenContract =
     [FormatDesc addrOperand 0xFFFFFFFF, FormatDesc patOperand 0]"

definition opTokenContractValidator :: "bytes \<Rightarrow> int" where
  "opTokenContractValidator param = formatParser formatTokenContract param"

definition formatLog :: "formatDesc list" where
  "formatLog =
     [FormatDesc addrOperand 0xFFFFFFFF, FormatDesc logType 0, FormatDesc patOperand 0, FormatDesc patOperand 0]"

definition opLogValidator :: "bytes \<Rightarrow> int" where
  "opLogValidator param = formatParser formatLog param"

definition formatLedger :: "formatDesc list" where
  "formatLedger =
     [FormatDesc addrOperand 0xFFFFFFFF, FormatDesc ledgerNum 0, FormatDesc ledgerNum 0, FormatDesc ledgerNum 0]"

definition opLedgerValidator :: "bytes \<Rightarrow> int" where
  "opLedgerValidator param = formatParser formatLedger param"

subsection \<open>The table of validators\<close>

definition total_validator :: "(bytes \<Rightarrow> int) \<Rightarrow> (bytes \<Rightarrow> int outcome) option" where
  "total_validator v = Some (\<lambda>param. Ok (v param))"

definition validators :: "byte \<Rightarrow> (bytes \<Rightarrow> int outcome) option" where
  "validators op =
     (if op = 0x41 then total_validator opEval8Validator
      else if op = 0x42 then total_validator opEval16Validator
      else if op = 0x43 then total_validator opEval32Validator
      else if op = 0x44 then total_validator opEval64Validator
      else if op = 0x45 then total_validator opEval256Validator
      else if op = 0x46 then Some opConvValidator
      else if op = 0x47 then total_validator opHashValidator
      else if op = 0x48 then total_validator opHash160Validator
      else if op = 0x49 then total_validator opSigCheckValidator
      else if op = 0x4b then total_validator opIfValidator
      else if op = 0x4c then total_validator opCallValidator
      else if op = 0x4d then total_validator opExecValidator
      else if op = 0x4e then total_validator opLoadValidator
      else if op = 0x4f then total_validator opStoreValidator
      else if op = 0x50 then Some opDelValidator
      else if op = 0x51 then total_validator opLibLoadValidator
      else if op = 0x52 then total_validator opMallocValidator
      else if op = 0x53 then total_validator opAllocValidator
      else if op = 0x54 then total_validator opCopyValidator
      else if op = 0x55 then total_validator opCopyImmValidator
      else if op = 0x57 then total_validator opSuicideValidator
      else if op = 0x58 then total_validator opRevertValidator
      else if op = 0x59 then total_validator opReturnValidator
      else if op = 0x61 then total_validator opReceivedValidator
      else if op = 0x62 then total_validator opTxFeeValidator
      else if op = 0x63 then total_validator opGetCoinValidator
      else if op = 0x64 then total_validator (\<lambda>_. 1)
      else if op = 0x65 then total_validator opSpendValidator
      else if op = 0x66 then Some opAddDefValidator
      else if op = 0x67 then total_validator opAddTxOutValidator
      else if op = 0x68 then total_validator opGetDefinitionValidator
      else if op = 0x69 then total_validator opGetUtxoValidator
      else if op = 0x6a then total_validator opMintValidator
      else if op = 0x6b then total_validator opMetaValidator
      else if op = 0x6c then total_validator opTimeValidator
      else if op = 0x6d then total_validator opHeightValidator
      else if op = 0x6e then total_validator opTxIOCountValidator
      else if op = 0x6f then total_validator opVersionValidator
      else if op = 0x70 then total_validator opTokenContractValidator
      else if op = 0x71 then total_validator opLogValidator
      else if op = 0x72 then total_validator opLedgerValidator
      else if op = 0x7a then total_validator opStopValidator
      else None)"

text \<open>The instruction that is printed in the message is left out.\<close>

definition illegal_instruction :: ovm_error where
  "illegal_instruction = ScriptError ''Illegal instruction in contract code.''"

fun validate_from :: "int \<Rightarrow> int \<Rightarrow> inst list \<Rightarrow> unit outcome" where
  "validate_from i n [] = Ok ()"
| "validate_from i n (c # code) =
     (case validators (i_op c) of
        None \<Rightarrow> Fail illegal_instruction
      | Some v \<Rightarrow>
          bind_out (v (i_param c)) (\<lambda>offset.
            if i + offset < 0 \<or> i + offset > n then Fail illegal_instruction
            else validate_from (i + 1) n code))"

definition ByteCodeValidator :: "inst list \<Rightarrow> unit outcome" where
  "ByteCodeValidator code = validate_from 0 (int (length code)) code"

section \<open>Proofs\<close>

lemma operands_anchored: "anchored patOperand" "anchored addrOperand" "anchored loadOperand"
  by (auto simp: anchored_def patOperand_def addrOperand_def loadOperand_def matches_iff)

text \<open>An operand is a text without comma, and the comma.\<close>

lemma operand_comma:
  assumes "matches r True w" "r \<in> {patOperand, addrOperand, loadOperand}"
  shows "\<exists>u. w = u @ [0x2c] \<and> 0x2c \<notin> set u"
proof -
  have "\<exists>q. r = Seq q (Class [0x2c]) \<and> 0x2c \<notin> letters q"
    using assms(2) by (auto simp: patOperand_def addrOperand_def loadOperand_def patTail_def Many1_def digits_def hex_letters_def)
  then obtain q where q: "r = Seq q (Class [0x2c])" "0x2c \<notin> letters q" by blast
  then obtain u where "w = u @ [0x2c]" "matches q True u"
    using assms(1) by (auto simp: matches_Seq matches_Class)
  then show ?thesis using matches_letters q(2) by blast
qed

subsection \<open>Evaluations\<close>

text \<open>Both readings of an operand end at the first comma.\<close>

lemma valid_operand:
  assumes "valid_getNum s = (num, len)" "0 \<le> len"
  shows "\<exists>u v. s = u @ 0x2c # v \<and> 0x2c \<notin> set u \<and> len = int (length u) + 1"
proof -
  obtain w where w: "Find patOperand s = Some w" "len = int (length w)"
    using assms by (auto simp: valid_getNum_def rejected_def Let_def split: option.splits list.splits if_splits)
  then obtain v where v: "matches patOperand True w" "s = w @ v"
    using Find_anchored operands_anchored by blast
  obtain u where "w = u @ [0x2c]" "0x2c \<notin> set u" using operand_comma [OF v(1)] by auto
  then show ?thesis using v(2) w(2) by (intro exI [of _ u] exI [of _ v]) simp
qed

lemma getNum_at_comma:
  "getNum_loop s dt st j (u @ 0x2c # v) = Ok (n, k) \<Longrightarrow> 0x2c \<notin> set u \<Longrightarrow> k = j + length u"
proof (induction u arbitrary: st j)
  case Nil
  then show ?case by (auto simp: bind_out_Ok is_digit_def is_hex_letter_def)
next
  case (Cons c u)
  then show ?case by (auto split: if_splits dest: Cons.IH)
qed

text \<open>The errors an evaluation of accepted code cannot have.\<close>

definition misuse :: "ovm_error \<Rightarrow> bool" where
  "misuse e \<longleftrightarrow> e = underflow \<or> e = malformed_target"

lemma misuse_simps [simp]:
  "\<not> misuse OutOfMemory" "\<not> misuse OutOfStack" "\<not> misuse address_fault" "\<not> misuse malformed_operand"
  "\<not> misuse malformed_expression" "\<not> misuse divided_by_0"
  by (simp_all add: misuse_def underflow_def malformed_target_def address_fault_def malformed_operand_def
      malformed_expression_def divided_by_0_def)

lemma bind_out_Fail: "bind_out m f = Fail e \<longleftrightarrow> m = Fail e \<or> (\<exists>x. m = Ok x \<and> f x = Fail e)"
  by (cases m) auto

lemma load_fails:
  "toByte p s = Fail e \<Longrightarrow> \<not> misuse e" "toInt16 p s = Fail e \<Longrightarrow> \<not> misuse e" "toInt32 p s = Fail e \<Longrightarrow> \<not> misuse e"
  "toInt64 p s = Fail e \<Longrightarrow> \<not> misuse e"
  by (auto simp: toByte_def toInt16_def toInt32_def toInt64_def Let_def split: option.splits if_splits)

lemma save_fails:
  "saveByte p b s = Fail e \<Longrightarrow> \<not> misuse e" "saveInt16 p w s = Fail e \<Longrightarrow> \<not> misuse e"
  "saveInt32 p x s = Fail e \<Longrightarrow> \<not> misuse e" "saveInt64 p y s = Fail e \<Longrightarrow> \<not> misuse e"
  by (auto simp: saveByte_def saveInt16_def saveInt32_def saveInt64_def Let_def split: option.splits if_splits)

lemma indirections_fails: "indirections k off p s = Fail e \<Longrightarrow> \<not> misuse e"
  by (induction k off p s rule: indirections.induct) (auto simp: bind_out_Fail toPointer_def dest: load_fails)

lemma addressing_fails: "addressing n g t offs na s = Fail e \<Longrightarrow> \<not> misuse e"
  by (auto simp: addressing_def base_area_def bind_out_Fail Let_def dest: indirections_fails split: option.splits if_splits)

lemma num_value_fails: "num_value s dt st = Fail e \<Longrightarrow> \<not> misuse e"
  unfolding num_value_def bind_out_Fail
  by (elim disjE exE conjE) (auto simp: base_area_def bind_out_Fail dest: addressing_fails load_fails split: option.splits if_splits)

lemma getNum_fails: "getNum_loop s dt st j param = Fail e \<Longrightarrow> \<not> misuse e"
proof (induction param arbitrary: st j)
  case (Cons c param)
  then show ?case by (auto simp: bind_out_Fail split: if_splits dest: Cons.IH num_value_fails)
qed auto

lemma slot_fails [simp]: "slot xs i \<noteq> Fail e" "set_slot xs i v \<noteq> Fail e"
  by (simp_all add: slot_def set_slot_def)

lemma binop_fails: "binop powf u c x y = Fail e \<Longrightarrow> \<not> misuse e"
  by (auto simp: binop_def split: if_splits)

lemma operate_fails: "operate powf c st = Fail e \<Longrightarrow> \<not> misuse e"
  by (auto simp: operate_def bind_out_Fail dest: binop_fails split: if_splits)

text \<open>The interface between a validator and an evaluator: a number counts for one value, except that
  an evaluator with a separate target keeps its first number apart; other characters do not
  change the count, and are misused only as a late \<^verbatim>\<open>@\<close>.\<close>

locale counted = evaluator number chr powf ty
  for number :: "u64 \<Rightarrow> 'a::len word eval_state \<Rightarrow> 'a word eval_state outcome" and chr powf ty +
  fixes target :: bool
  assumes number_count: "number n st = Ok st' \<Longrightarrow> ev_type st' \<noteq> 0xFF
      \<and> ev_top st' = (if target \<and> ev_type st = 0xFF then ev_top st else Suc (ev_top st))"
    and chr_count: "chr c st = Ok st' \<Longrightarrow> ev_top st' = ev_top st \<and> (target \<and> ev_type st \<noteq> 0xFF \<longrightarrow> ev_type st' \<noteq> 0xFF)"
    and chr_fails: "chr c st = Fail e \<Longrightarrow> misuse e \<Longrightarrow> target \<and> c = 0x40 \<and> ev_top st \<noteq> 0"
begin

text \<open>The number of values the validator counts, and the ones on the scratch stack.\<close>

definition agrees :: "nat \<Rightarrow> 'a word eval_state \<Rightarrow> bool" where
  "agrees n st \<longleftrightarrow> ev_top st \<le> n \<and> n \<le> ev_top st + (if target \<and> ev_type st \<noteq> 0xFF then 1 else 0)"

lemma agrees_number: "agrees n st \<Longrightarrow> number m st = Ok st' \<Longrightarrow> agrees (n + 1) (st'\<lparr> ev_unsigned := u \<rparr>)"
  using number_count [of m st st'] by (auto simp: agrees_def split: if_splits)

lemma agrees_chr: "agrees n st \<Longrightarrow> chr c st = Ok st' \<Longrightarrow> agrees n st' \<and> agrees n (st'\<lparr> ev_unsigned := u \<rparr>)"
  using chr_count [of c st st'] by (auto simp: agrees_def split: if_splits)

lemma agrees_pop:
  assumes "agrees n st" "checkTop c = Some d" "d + (if target then 1 else 0) < n"
  shows "pop_check c (ev_top st) = Ok (ev_top st - d) \<and> agrees (n - d) (st\<lparr> ev_top := ev_top st - d \<rparr>)"
  using assms by (auto simp: agrees_def pop_check_def split: if_splits)

lemma validated_loop:
  assumes "validate_loop enough num vchr n param = 1" "agrees n st" "ev_ok st"
    and enough: "\<And>n d. enough n d \<Longrightarrow> d + (if target then 1 else 0) < n"
    and at: "\<And>n c. vchr n 0x40 \<Longrightarrow> target \<Longrightarrow> n = 0"
    and fail: "eval_loop number chr s st param = Fail e"
  shows "\<not> misuse e"
  using assms(1-3) fail
proof (induction param arbitrary: n st rule: length_induct)
  case (1 param)
  show ?case
  proof (cases param)
    case Nil
    then show ?thesis using 1 by simp
  next
    case (Cons c cs)
    have rej: "rejected \<noteq> 1" by (simp add: rejected_def)
    define n' where "n' = (case checkTop c of None \<Rightarrow> n | Some d \<Rightarrow> n - d)"
    obtain t where t: "pop_check c (ev_top st) = Ok t" "agrees n' (st\<lparr> ev_top := t \<rparr>)"
      and v: "validate_loop enough num vchr n param = (if starts_operand c then
            (case valid_getNum (c # cs) of (m, len) \<Rightarrow> if len < 0 then rejected else if \<not> num m then rejected
             else validate_loop enough num vchr (n' + 1) (drop (nat (len - 1)) cs))
          else if vchr n' c then validate_loop enough num vchr n' cs else rejected)"
    proof (cases "checkTop c")
      case None
      then have n': "n' = n" by (simp add: n'_def)
      show ?thesis
        by (rule that [of "ev_top st"], unfold n' Cons) (use None 1(3) in \<open>simp_all add: pop_check_def\<close>)
    next
      case (Some d)
      then have e: "enough n d" using 1(2) rej by (simp add: Cons split: if_splits)
      have n': "n' = n - d" using Some by (simp add: n'_def)
      show ?thesis
        by (rule that [of "ev_top st - d"], unfold n' Cons)
          (use agrees_pop [OF 1(3) Some enough [OF e]] Some e in simp_all)
    qed
    have IH: "\<not> misuse e"
      if "validate_loop enough num vchr m (drop k cs) = 1" "agrees m st'" "ev_grown st st'"
        "eval_loop number chr s st' (drop k cs) = Fail e" for m k st'
    proof -
      have "length (drop k cs) < length param" using Cons by simp
      then show ?thesis using 1(1) that unfolding ev_grown_def by blast
    qed
    show ?thesis
    proof (cases "starts_operand c")
      case True
      obtain m len where m: "valid_getNum (c # cs) = (m, len)" "0 \<le> len"
        and v': "validate_loop enough num vchr (n' + 1) (drop (nat (len - 1)) cs) = 1"
        using 1(2) v True rej by (cases "valid_getNum (c # cs)") (simp split: if_splits)
      obtain u w where u: "c # cs = u @ 0x2c # w" "0x2c \<notin> set u" "len = int (length u) + 1"
        using valid_operand [OF m] by blast
      show ?thesis
      proof (cases "getNum (c # cs) (ev_type st) s")
        case (Fail e')
        then have "\<not> misuse e'" unfolding getNum_def by (rule getNum_fails)
        then show ?thesis using 1(5) t(1) True Fail Cons by simp
      next
        case (Ok r)
        then obtain x k where x: "getNum (c # cs) (ev_type st) s = Ok (x, k)" by (cases r) auto
        then have k: "k = length u" using getNum_at_comma [of s "ev_type st" num_init 0 u w x k] u by (simp add: getNum_def)
        obtain st' where st': "number x (st\<lparr> ev_top := t \<rparr>) = Ok st'" "ev_grown st st'"
          using number_safe [OF op_ready_ok [OF op_ready_pop [OF t(1) 1(4)]], of x] by auto
        have l: "eval_loop number chr s (st'\<lparr> ev_unsigned := False \<rparr>) (drop k cs) = Fail e"
          using 1(5) t(1) True x st'(1) Cons by simp
        have "nat (len - 1) = k" using u(3) k by simp
        then show ?thesis
          using IH [of "n' + 1" k "st'\<lparr> ev_unsigned := False \<rparr>"] v' agrees_number [OF t(2) st'(1)] st'(2) l by simp
      qed (use 1(5) t(1) True Cons in simp)
    next
      case False
      then have vc: "vchr n' c" "validate_loop enough num vchr n' cs = 1"
        using 1(2) v rej by (simp_all split: if_splits)
      show ?thesis
      proof (cases "chr c (st\<lparr> ev_top := t \<rparr>)")
        case (Fail e')
        moreover have "\<not> misuse e'"
          using chr_fails [OF Fail] at [of n'] vc(1) t(2) by (auto simp: agrees_def)
        ultimately show ?thesis using 1(5) t(1) False Cons Fail by simp
      next
        case (Ok st')
        let ?st = "if c \<noteq> 0x75 then st'\<lparr> ev_unsigned := False \<rparr> else st'"
        have "eval_loop number chr s ?st (drop 0 cs) = Fail e" using 1(5) t(1) False Cons Ok by simp
        moreover have "agrees n' ?st" using agrees_chr [OF t(2) Ok] by simp
        moreover have "ev_grown st ?st" using handlers_ready(2) [OF t(1) 1(4) Ok] by simp
        ultimately show ?thesis using IH [of n' 0 ?st] vc(2) by simp
      qed (use 1(5) t(1) False Cons in simp)
    qed
  qed
qed

end

lemma operate_fields:
  "operate powf c st = Ok st' \<Longrightarrow> ev_top st' = ev_top st \<and> ev_type st' = ev_type st"
  by (auto simp: operate_def bind_out_Ok split: if_splits)

lemma push_count: "push v st = Ok st' \<Longrightarrow> ev_top st' = Suc (ev_top st) \<and> ev_type st' = ev_type st"
  by (auto simp: push_def bind_out_Ok)

lemmas handler_defs = eval8_char_def eval16_char_def eval32_char_def eval64_char_def
  eval8_num_def eval16_num_def eval32_num_def eval64_num_def

interpretation count8: counted eval8_num "eval8_char powf" powf "0x42" True for powf
  by unfold_locales
    (auto simp: handler_defs bind_out_Ok dest: operate_fields operate_fails push_count split: if_splits)

interpretation count16: counted eval16_num "eval16_char powf" powf "0x57" True for powf
  by unfold_locales
    (auto simp: handler_defs bind_out_Ok dest: operate_fields operate_fails push_count split: if_splits)

interpretation count32: counted eval32_num "eval32_char powf" powf "0x44" True for powf
  by unfold_locales
    (auto simp: handler_defs bind_out_Ok dest: operate_fields operate_fails push_count split: if_splits)

interpretation count64: counted eval64_num "eval64_char powf s" powf "0x51" False for powf s
  by unfold_locales
    (auto simp: handler_defs bind_out_Ok bind_out_Fail dest: operate_fields operate_fails push_count load_fails split: if_splits)

lemma agrees_init:
  "count8.agrees 0 (init_state param)" "count16.agrees 0 (init_state param)" "count32.agrees 0 (init_state param)"
  "count64.agrees 0 (init_state param)"
  by (simp_all add: count8.agrees_def count16.agrees_def count32.agrees_def count64.agrees_def)

lemma validated_small:
  assumes "opEval8Validator param = 1"
  shows "eval_loop eval8_num (eval8_char powf8) s (init_state param) param = Fail e \<Longrightarrow> \<not> misuse e"
    "eval_loop eval16_num (eval16_char powf16) s (init_state param) param = Fail e \<Longrightarrow> \<not> misuse e"
    "eval_loop eval32_num (eval32_char powf32) s (init_state param) param = Fail e \<Longrightarrow> \<not> misuse e"
proof -
  note v = assms [unfolded opEval8Validator_def]
  have at: "vchr" if "0x40 \<in> set eval8_chars" for vchr using that by (simp add: eval8_chars_def)
  show "eval_loop eval8_num (eval8_char powf8) s (init_state param) param = Fail e \<Longrightarrow> \<not> misuse e"
    by (rule count8.validated_loop [OF v agrees_init(1) init_ok]) (auto intro: at)
  show "eval_loop eval16_num (eval16_char powf16) s (init_state param) param = Fail e \<Longrightarrow> \<not> misuse e"
    by (rule count16.validated_loop [OF v agrees_init(2) init_ok]) (auto intro: at)
  show "eval_loop eval32_num (eval32_char powf32) s (init_state param) param = Fail e \<Longrightarrow> \<not> misuse e"
    by (rule count32.validated_loop [OF v agrees_init(3) init_ok]) (auto intro: at)
qed

lemma validated_fails:
  "opEval8Validator param = 1 \<Longrightarrow> opEval8 powf8 param s = Fail e \<Longrightarrow> \<not> misuse e"
  "opEval16Validator param = 1 \<Longrightarrow> opEval16 powf16 param s = Fail e \<Longrightarrow> \<not> misuse e"
  "opEval32Validator param = 1 \<Longrightarrow> opEval32 powf32 param s = Fail e \<Longrightarrow> \<not> misuse e"
  by (auto simp: opEval8_def opEval16_def opEval32_def opEval16Validator_def opEval32Validator_def bind_out_Fail
      dest: validated_small save_fails)

lemma validated_fails_64:
  "opEval64Validator param = 1 \<Longrightarrow> opEval64 powf64 param s = Fail e \<Longrightarrow> \<not> misuse e"
proof -
  assume v: "opEval64Validator param = 1"
  have "\<not> misuse e" if "eval_loop eval64_num (eval64_char powf64 s) s (init_state param) param = Fail e" for e
    by (rule count64.validated_loop [OF v [unfolded opEval64Validator_def] agrees_init(4) init_ok _ _ that]) auto
  then show "opEval64 powf64 param s = Fail e \<Longrightarrow> \<not> misuse e"
    by (auto simp: opEval64_def bind_out_Fail dest: save_fails)
qed

text \<open>
  C7: What the validator guarantees to the evaluators. An evaluation that the validator of its width
  accepts never fails with an underflow of the scratch stack and never finds the target mark after
  the first value, in any memory with a current frame; without complement, shift and dereference
  it does not panic either. The validators count the values with a guard of their own, and both
  sides read an operand up to its first comma.
\<close>

theorem validated_evaluation:
  assumes "data s (callTop s) = Some f"
  shows "(opEval8Validator param = 1 \<longrightarrow> opEval8 powf8 param s \<notin> {Fail underflow, Fail malformed_target})
    \<and> (opEval16Validator param = 1 \<longrightarrow> opEval16 powf16 param s \<notin> {Fail underflow, Fail malformed_target})
    \<and> (opEval32Validator param = 1 \<longrightarrow> opEval32 powf32 param s \<notin> {Fail underflow, Fail malformed_target})
    \<and> (opEval64Validator param = 1 \<longrightarrow> opEval64 powf64 param s \<notin> {Fail underflow, Fail malformed_target}
         \<and> (set param \<inter> {0x7e, 0x5b, 0x5d, 0x50} = {} \<longrightarrow> opEval64 powf64 param s \<noteq> Panic))"
proof -
  have out: "r \<notin> {Fail underflow, Fail malformed_target}" if "\<And>e. r = Fail e \<Longrightarrow> \<not> misuse e" for r :: "Stack outcome"
    using that [of underflow] that [of malformed_target] by (auto simp: misuse_def)
  have "opEval64 powf64 param s \<noteq> Panic" if "opEval64Validator param = 1" "set param \<inter> {0x7e, 0x5b, 0x5d, 0x50} = {}"
  proof -
    have "param \<noteq> []" using that(1) by (auto simp: opEval64Validator_def rejected_def)
    then show ?thesis using eval_no_panic [OF assms that(2)] by simp
  qed
  then show ?thesis by (intro conjI impI out) (auto dest: validated_fails validated_fails_64)
qed

theorem validated_evaluation_witness:
  "opEval8 (\<lambda>_ _. 0) [0x30, 0x2c, 0x31, 0x2c, 0x32, 0x2c, 0x2b] Newstack \<notin> {Fail underflow, Fail malformed_target}"
proof -
  have "opEval8Validator [0x30, 0x2c, 0x31, 0x2c, 0x32, 0x2c, 0x2b] = 1" by code_simp
  moreover have "data Newstack (callTop Newstack) = Some (newFrame\<lparr> space := replicate 4 0 \<rparr>)" by (simp add: Newstack_def)
  ultimately show ?thesis
    using validated_evaluation [of Newstack "newFrame\<lparr> space := replicate 4 0 \<rparr>" "[0x30, 0x2c, 0x31, 0x2c, 0x32, 0x2c, 0x2b]"
        "\<lambda>_ _. 0" "\<lambda>_ _. 0" "\<lambda>_ _. 0" "\<lambda>_ _. 0"] by blast
qed

lemma eval16_quote:
  assumes "ev_ok st" "ev_type st = 0xFF"
  shows "eval_loop eval16_num (eval16_char powf) s st (literal x @ 0x2c # literal y @ 0x2c # [0x27]) = Fail malformed_expression"
proof -
  have "eval_loop eval16_num (eval16_char powf) s st' [0x27] = Fail malformed_expression" for st'
    by (simp add: pop_check_def checkTop_def starts_operand_def is_digit_def is_hex_letter_def eval16_char_def is_operator_def)
  then show ?thesis
    using assms by (simp add: eval_loop_literal eval16_num_def push_def set_slot_def ev_ok_def del: eval_loop.simps)
qed


subsection \<open>Formats\<close>

lemma takeWhile_stop: "c \<notin> set u \<Longrightarrow> takeWhile (\<lambda>x. x \<noteq> c) (u @ c # v) = u"
  by (induction u) auto

lemma Find_operand:
  assumes "r \<in> {patOperand, addrOperand, loadOperand}"
  shows "Find r s = Some w \<longleftrightarrow> matches r True w \<and> (\<exists>v. s = w @ v)"
proof
  assume "Find r s = Some w"
  then show "matches r True w \<and> (\<exists>v. s = w @ v)" using Find_anchored operands_anchored assms by blast
next
  assume m: "matches r True w \<and> (\<exists>v. s = w @ v)"
  then obtain v where v: "s = w @ v" by blast
  have "Find r s \<noteq> None" using Find_None [of r s "[]" w v] m v by auto
  then obtain w' where w': "Find r s = Some w'" by blast
  then obtain v' where v': "matches r True w'" "s = w' @ v'" using Find_anchored operands_anchored assms by blast
  obtain u u' where u: "w = u @ [0x2c]" "0x2c \<notin> set u" "w' = u' @ [0x2c]" "0x2c \<notin> set u'"
    using operand_comma m v'(1) assms by meson
  have "takeWhile (\<lambda>c. c \<noteq> 0x2c) s = u" unfolding v u(1) using u(2) by (simp add: takeWhile_stop)
  moreover have "takeWhile (\<lambda>c. c \<noteq> 0x2c) s = u'" unfolding v'(2) u(3) using u(4) by (simp add: takeWhile_stop)
  ultimately show "Find r s = Some w" using w' u by simp
qed

text \<open>The limit on an operand that is not an address.\<close>

definition within :: "int \<Rightarrow> bytes \<Rightarrow> bool" where
  "within l w \<longleftrightarrow> l = 0 \<or> Match (Class [0x69]) w \<or> 0 \<le> snd (valid_getNum w) \<and> sint (fst (valid_getNum w)) \<le> l"

definition operand_format :: "formatDesc \<Rightarrow> bool" where
  "operand_format f \<longleftrightarrow> desc f \<in> {patOperand, addrOperand, loadOperand}"

text \<open>
  C8: What a format of operands accepts. The parser of formats accepts a parameter exactly when it is
  the concatenation of one operand for every entry, each in the language of its pattern and, unless
  it is an address, within the limit of the entry. Operands end at their only comma, so the
  pieces are unique and the leftmost-first search finds them.
\<close>

theorem format_exact:
  assumes "list_all operand_format fs"
  shows "formatParser fs param = 1 \<longleftrightarrow>
    (\<exists>ws. param = concat ws \<and> list_all2 (\<lambda>f w. matches (desc f) True w \<and> within (limit f) w) fs ws)"
  unfolding formatParser_def using assms
proof (induction fs arbitrary: param)
  case Nil
  then show ?case by (auto simp: rejected_def)
next
  case (Cons f fs)
  have r: "rejected \<noteq> 1" by (simp add: rejected_def)
  have f: "desc f \<in> {patOperand, addrOperand, loadOperand}" using Cons.prems by (simp add: operand_format_def)
  have ne: "w \<noteq> []" if "matches (desc f) True w" for w using operand_comma [OF that f] by auto
  have "format_loop (f # fs) param = 1 \<longleftrightarrow>
      (\<exists>w v. param = w @ v \<and> matches (desc f) True w \<and> within (limit f) w \<and> format_loop fs v = 1)" (is "?l \<longleftrightarrow> ?r")
  proof
    assume ?l
    then obtain w where w: "Find (desc f) param = Some w" "within (limit f) w" "format_loop fs (drop (length w) param) = 1"
      using r by (auto simp: within_def not_less split: option.splits if_splits)
    then show ?r using Find_operand [OF f, of param w] by (metis append_eq_conv_conj)
  next
    assume ?r
    then obtain w v where w: "param = w @ v" "matches (desc f) True w" "within (limit f) w" "format_loop fs v = 1" by blast
    then have "Find (desc f) param = Some w" using Find_operand [OF f] by blast
    then show ?l using w ne [OF w(2)] by (auto simp: within_def)
  qed
  also have "\<dots> \<longleftrightarrow> (\<exists>ws. param = concat ws
      \<and> list_all2 (\<lambda>f w. matches (desc f) True w \<and> within (limit f) w) (f # fs) ws)"
    (is "?r \<longleftrightarrow> ?s")
  proof
    assume ?r
    then obtain w v ws where "param = w @ v" "matches (desc f) True w" "within (limit f) w" "v = concat ws"
      "list_all2 (\<lambda>f w. matches (desc f) True w \<and> within (limit f) w) fs ws"
      using Cons.IH Cons.prems by auto
    then show ?s by (intro exI [of _ "w # ws"]) simp
  next
    assume ?s
    then obtain w ws where "param = w @ concat ws" "matches (desc f) True w" "within (limit f) w"
      "list_all2 (\<lambda>f w. matches (desc f) True w \<and> within (limit f) w) fs ws"
      by (auto simp: list_all2_Cons1)
    moreover from this have "format_loop fs (concat ws) = 1" using Cons.IH Cons.prems by auto
    ultimately show ?r by blast
  qed
  finally show ?case .
qed

theorem format_exact_witness:
  "\<exists>ws. [0x69, 0x34, 0x2c, 0x6e, 0x35, 0x2c] = concat ws
     \<and> list_all2 (\<lambda>f w. matches (desc f) True w \<and> within (limit f) w) formatIf ws"
proof -
  have "list_all operand_format formatIf" by (simp add: formatIf_def operand_format_def)
  moreover have "formatParser formatIf [0x69, 0x34, 0x2c, 0x6e, 0x35, 0x2c] = 1" by code_simp
  ultimately show ?thesis using format_exact [of formatIf "[0x69, 0x34, 0x2c, 0x6e, 0x35, 0x2c]"] by blast
qed

subsection \<open>The table\<close>

lemma format_range: "format_loop fs param \<in> {rejected, 1}"
proof (induction fs arbitrary: param)
  case (Cons f fs)
  then show ?case by (auto split: option.split)
qed simp

lemma validate_range: "validate_loop enough num chr n param \<in> {rejected, 1}"
  by (induction enough num chr n param rule: validate_loop.induct) (auto split: option.split prod.split)

lemma total_validator_no_panic: "total_validator v = Some w \<Longrightarrow> w p \<noteq> Panic"
  by (auto simp: total_validator_def)

text \<open>Three validators look at the first or the last character of the parameter without a test.\<close>

lemma validators_panic:
  assumes "validators op = Some v"
  shows "v p = Panic \<longleftrightarrow> op \<in> {0x46, 0x50, 0x66} \<and> p = []"
proof (cases "op \<in> {0x46, 0x50, 0x66}")
  case True
  then show ?thesis
    using assms by (auto simp: validators_def opConvValidator_def opDelValidator_def opAddDefValidator_def split: list.splits if_splits)
next
  case False
  then have "\<exists>w. total_validator w = Some v"
    using assms unfolding validators_def by (auto split: if_splits)
  then show ?thesis using False total_validator_no_panic by blast
qed

lemma split_Cons:
  "(\<exists>pre x post. c # code = pre @ x # post \<and> P pre x) \<longleftrightarrow> P [] c \<or> (\<exists>pre x post. code = pre @ x # post \<and> P (c # pre) x)"
  by (auto simp: Cons_eq_append_conv)

lemma validate_panics:
  "validate_from i n code = Panic \<longleftrightarrow>
   (\<exists>pre c post. code = pre @ c # post \<and> validate_from i n pre = Ok () \<and> i_op c \<in> {0x46, 0x50, 0x66} \<and> i_param c = [])"
proof (induction code arbitrary: i)
  case (Cons c code)
  show ?case
  proof (cases "validators (i_op c)")
    case None
    then have "i_op c \<notin> {0x46, 0x50, 0x66}" by (auto simp: validators_def)
    then show ?thesis unfolding split_Cons using None by simp
  next
    case (Some v)
    then show ?thesis
      unfolding split_Cons using validators_panic [OF Some, of "i_param c"] Cons.IH
      by (cases "v (i_param c)") auto
  qed
qed simp

text \<open>
  C28: When the validator panics. Validation of a contract panics exactly when some instruction that
  converts data, deletes a record or adds a definition has an empty parameter and all
  instructions before it are accepted; this crashes the node that checks a new contract whose
  code is the single letter \<^verbatim>\<open>F\<close>.
\<close>

theorem validator_panics:
  "(ByteCodeValidator code = Panic \<longleftrightarrow>
      (\<exists>pre c post. code = pre @ c # post \<and> validate_from 0 (int (length code)) pre = Ok ()
         \<and> i_op c \<in> {0x46, 0x50, 0x66} \<and> i_param c = []))
   \<and> ByteCodeValidator (ByteCodeParser [0x46]) = Panic"
proof
  show "ByteCodeValidator code = Panic \<longleftrightarrow>
      (\<exists>pre c post. code = pre @ c # post \<and> validate_from 0 (int (length code)) pre = Ok ()
         \<and> i_op c \<in> {0x46, 0x50, 0x66} \<and> i_param c = [])"
    unfolding ByteCodeValidator_def by (rule validate_panics)
  show "ByteCodeValidator (ByteCodeParser [0x46]) = Panic" by code_simp
qed

subsection \<open>The ledger instruction\<close>

text \<open>A number found at the start of a text, and one found after a comma.\<close>

definition hex_text :: "bytes \<Rightarrow> bool" where
  "hex_text w \<longleftrightarrow> w \<noteq> [] \<and> set w \<subseteq> set (digits @ hex_letters)"

lemma ends_ledgerNum:
  assumes "hex_text w" "c \<notin> set (digits @ hex_letters)"
  shows "\<exists>ns. ends ledgerNum b (w @ c # v) = length w # ns"
proof -
  obtain d ds where d: "w = d # ds" "d \<in> set (digits @ hex_letters)" "set ds \<subseteq> set (digits @ hex_letters)"
    using assms(1) by (cases w) (auto simp: hex_text_def)
  have "takeWhile (\<lambda>c. c \<in> set (digits @ hex_letters)) (ds @ c # v) = ds"
    using d(3) assms(2) by (simp add: takeWhile_append subset_iff)
  moreover have "d \<noteq> 0x78" using d(2) by (auto simp: digits_def hex_letters_def)
  ultimately show ?thesis using d by (simp add: ledgerNum_def Many1_def)
qed

lemma Find_ledgerNum:
  assumes "hex_text w"
  shows "Find ledgerNum (w @ 0x2c # v) = Some w" "Find ledgerNum (0x2c # w @ 0x2c # v) = Some w"
proof -
  have c: "0x2c \<notin> set (digits @ hex_letters)" by (simp add: digits_def hex_letters_def)
  obtain ns ms where e: "ends ledgerNum True (w @ 0x2c # v) = length w # ns" "ends ledgerNum False (w @ 0x2c # v) = length w # ms"
    using ends_ledgerNum [OF assms c] by meson
  then show "Find ledgerNum (w @ 0x2c # v) = Some w" by (simp add: Find_def find_from.simps)
  have "ends ledgerNum True (0x2c # w @ 0x2c # v) = []"
    by (simp add: ledgerNum_def Many1_def digits_def hex_letters_def)
  then show "Find ledgerNum (0x2c # w @ 0x2c # v) = Some w"
    using e(2) by (simp add: Find_def find_from.simps)
qed



end
