(* ===== verification/Token_Defs.thy ===== *)
theory Token_Defs
  imports Wire_Common Go_Regexp "HOL-Library.List_Lexorder" "HOL-Library.Multiset"
begin

text \<open>
  Definitions and token values, \<^verbatim>\<open>omega/token/token.go\<close>: vertices, borders, polygons, rights
  and right sets that a transaction defines, and the token of an output. The interface
  \<open>Definition\<close> is a datatype with one constructor per implementing type, a method with a
  switch on the type is a function by cases. A hash is its 32 bytes; the hash function of the
  package \<^verbatim>\<open>chainhash\<close>, which is not part of the sources, is the argument \<open>HashH\<close>. The cached
  hash of a definition is a field; \<open>Hash\<close> returns the value and the definition with its cache.
  Readers that drop the error of \<open>io.ReadFull\<close> keep what was in the buffer: \<open>read_into\<close>.
  Allocating a slice panics when the size exceeds the address space of the allocator, 48 bits on
  the 64 bit platforms; smaller allocations are taken to succeed. Signed integers are words.
\<close>

unbundle bit_operations_syntax

subsection \<open>Buffers and allocation\<close>

definition read_into :: "bytes \<Rightarrow> bytes \<Rightarrow> bytes \<times> bytes" where
  "read_into buf bs = (take (length buf) bs @ drop (length bs) buf, drop (length buf) bs)"

definition fill_reader :: "nat \<Rightarrow> bytes reader" where
  "fill_reader n bs = (case read_into (replicate n 0) bs of (b, r) \<Rightarrow> (Inr b, r))"

text \<open>A single \<open>Read\<close> of an in-memory stream: an error only when nothing is left.\<close>

definition raw_reader :: "nat \<Rightarrow> bytes reader" where
  "raw_reader n bs = (if bs = [] then (Inl ErrEOF, []) else fill_reader n bs)"

definition uint8_or_0 :: "u8 reader" where
  "uint8_or_0 bs = (case Uint8 bs of (Inr a, r) \<Rightarrow> (Inr a, r) | (Inl _, r) \<Rightarrow> (Inr 0, r))"

definition go_make :: "nat \<Rightarrow> u64 \<Rightarrow> unit reader" where
  "go_make sz n = (if unat n * sz > 2 ^ 48 then rfail GoPanic else rreturn ())"

subsection \<open>Definitions\<close>

record VertexDef =
  lat :: u32
  lng :: u32
  alt :: u32

record BorderDef =
  b_hash :: "bytes option"
  b_Father :: bytes
  b_Begin :: VertexDef
  b_End :: VertexDef

record PolygonDef =
  p_hash :: "bytes option"
  Loops :: "bytes list list"

record RightDef =
  r_hash :: "bytes option"
  r_Father :: bytes
  Desc :: bytes
  Attrib :: u8

record RightSetDef =
  rs_hash :: "bytes option"
  Rights :: "bytes list"
  rs_sorted :: nat

datatype Definition =
    Vertex VertexDef
  | Border BorderDef
  | Polygon PolygonDef
  | Right RightDef
  | RightSet RightSetDef
  | Separator

fun DefType :: "Definition \<Rightarrow> u8" where
  "DefType (Vertex _) = 0"
| "DefType (Border _) = 1"
| "DefType (Polygon _) = 2"
| "DefType (Right _) = 4"
| "DefType (RightSet _) = 5"
| "DefType Separator = 0xFC"

fun IsSeparator :: "Definition \<Rightarrow> bool" where
  "IsSeparator Separator = True"
| "IsSeparator _ = False"

subsection \<open>Vertices\<close>

definition Vertex_Serialize :: "VertexDef \<Rightarrow> bytes" where
  "Vertex_Serialize s = le_bytes 4 (lat s) @ le_bytes 4 (lng s) @ le_bytes 4 (alt s)"

definition Vertex_Deserialize :: "bytes \<Rightarrow> VertexDef" where
  "Vertex_Deserialize r =
     \<lparr> lat = le_word (take 4 r), lng = le_word (take 4 (drop 4 r)), alt = le_word (take 4 (drop 8 r)) \<rparr>"

definition Vertex_IsEqual :: "VertexDef \<Rightarrow> VertexDef \<Rightarrow> bool" where
  "Vertex_IsEqual s t \<longleftrightarrow> lng s = lng t \<and> lat s = lat t"

definition NewVertexDef :: "u32 \<Rightarrow> u32 \<Rightarrow> u32 \<Rightarrow> VertexDef" where
  "NewVertexDef la ln al = \<lparr> lat = la, lng = ln, alt = al \<rparr>"

definition NewBorderDef :: "VertexDef \<Rightarrow> VertexDef \<Rightarrow> bytes \<Rightarrow> BorderDef option" where
  "NewBorderDef bgn fin father =
     (if Vertex_IsEqual bgn fin then None
      else Some \<lparr> b_hash = None, b_Father = father, b_Begin = bgn, b_End = fin \<rparr>)"

definition NewPolygonDef :: "bytes list list \<Rightarrow> PolygonDef" where
  "NewPolygonDef loops = \<lparr> p_hash = None, Loops = loops \<rparr>"

definition NewRightDef :: "bytes \<Rightarrow> bytes \<Rightarrow> u8 \<Rightarrow> RightDef" where
  "NewRightDef father dsc attrib = \<lparr> r_hash = None, r_Father = father, Desc = dsc, Attrib = attrib OR 0x80 \<rparr>"

definition NewRightSetDef :: "bytes list \<Rightarrow> RightSetDef" where
  "NewRightSetDef rights = \<lparr> rs_hash = None, Rights = rights, rs_sorted = 0 \<rparr>"

text \<open>The order of \<open>less\<close> is the lexicographic order of the bytes; equal hashes are
  indistinguishable, so every sorted permutation is the same.\<close>

definition RightSet_sort :: "RightSetDef \<Rightarrow> RightSetDef" where
  "RightSet_sort s = (if rs_sorted s = length (Rights s) then s else s\<lparr> Rights := sort (Rights s) \<rparr>)"

subsection \<open>Hashes\<close>

definition border_bytes :: "BorderDef \<Rightarrow> bytes" where
  "border_bytes t = b_Father t @ Vertex_Serialize (b_Begin t) @ Vertex_Serialize (b_End t)"

definition Vertex_Hash :: "VertexDef \<Rightarrow> bytes" where
  "Vertex_Hash t = take 8 (Vertex_Serialize t) @ replicate 24 0"

definition Border_Hash :: "(bytes \<Rightarrow> bytes) \<Rightarrow> BorderDef \<Rightarrow> bytes \<times> BorderDef" where
  "Border_Hash HashH t =
     (case b_hash t of
        Some h \<Rightarrow> (h, t)
      | None \<Rightarrow> let h = HashH (border_bytes t); h = h[0 := h ! 0 AND 0xFE] in (h, t\<lparr> b_hash := Some h \<rparr>))"

definition Polygon_Hash :: "(bytes \<Rightarrow> bytes) \<Rightarrow> PolygonDef \<Rightarrow> bytes \<times> PolygonDef" where
  "Polygon_Hash HashH t =
     (case p_hash t of
        Some h \<Rightarrow> (h, t)
      | None \<Rightarrow> let h = HashH (concat (concat (Loops t))) in (h, t\<lparr> p_hash := Some h \<rparr>))"

definition Right_Hash :: "(bytes \<Rightarrow> bytes) \<Rightarrow> RightDef \<Rightarrow> bytes \<times> RightDef" where
  "Right_Hash HashH t =
     (case r_hash t of
        Some h \<Rightarrow> (h, t)
      | None \<Rightarrow> let h = HashH (r_Father t @ Desc t @ [Attrib t]) in (h, t\<lparr> r_hash := Some h \<rparr>))"

definition RightSet_Hash :: "(bytes \<Rightarrow> bytes) \<Rightarrow> RightSetDef \<Rightarrow> bytes \<times> RightSetDef" where
  "RightSet_Hash HashH t =
     (let t = (if rs_sorted t \<noteq> length (Rights t) then t\<lparr> rs_hash := None \<rparr> else t);
          t = RightSet_sort t
      in case rs_hash t of
           Some h \<Rightarrow> (h, t)
         | None \<Rightarrow> let h = HashH (concat (Rights t)) in (h, t\<lparr> rs_hash := Some h \<rparr>))"

fun Definition_Hash :: "(bytes \<Rightarrow> bytes) \<Rightarrow> Definition \<Rightarrow> bytes \<times> Definition" where
  "Definition_Hash HashH (Vertex t) = (Vertex_Hash t, Vertex t)"
| "Definition_Hash HashH (Border t) = (case Border_Hash HashH t of (h, t') \<Rightarrow> (h, Border t'))"
| "Definition_Hash HashH (Polygon t) = (case Polygon_Hash HashH t of (h, t') \<Rightarrow> (h, Polygon t'))"
| "Definition_Hash HashH (Right t) = (case Right_Hash HashH t of (h, t') \<Rightarrow> (h, Right t'))"
| "Definition_Hash HashH (RightSet t) = (case RightSet_Hash HashH t of (h, t') \<Rightarrow> (h, RightSet t'))"
| "Definition_Hash HashH Separator = (zero_hash, Separator)"

subsection \<open>Sizes\<close>

fun SerializeSize :: "Definition \<Rightarrow> nat" where
  "SerializeSize (Vertex _) = 12"
| "SerializeSize (Border _) = 32 + 24"
| "SerializeSize (Polygon t) =
     1 + VarIntSerializeSize (of_nat (length (Loops t)))
       + sum_list (map (\<lambda>loop. VarIntSerializeSize (of_nat (length loop)) + length loop * 32) (Loops t))"
| "SerializeSize (Right t) = 1 + 32 + 1 + VarIntSerializeSize (of_nat (length (Desc t))) + length (Desc t)"
| "SerializeSize (RightSet t) = VarIntSerializeSize (of_nat (length (Rights t))) + 32 * length (Rights t)"
| "SerializeSize Separator = 1"

fun Definition_Size :: "Definition \<Rightarrow> nat" where
  "Definition_Size (Vertex _) = 12"
| "Definition_Size (Border _) = 32 + 24"
| "Definition_Size (Polygon t) = 1 + 4 + sum_list (map (\<lambda>loop. 4 + length loop * 32) (Loops t))"
| "Definition_Size (Right t) = 1 + 32 + 1 + 4 + length (Desc t)"
| "Definition_Size (RightSet t) = 4 + 32 * length (Rights t)"
| "Definition_Size Separator = 1"

subsection \<open>Comparison and copies\<close>

text \<open>The loops of a polygon are compared border by border of the first one; the index into the
  other one panics when it is shorter.\<close>

fun loop_match :: "hash list \<Rightarrow> hash list \<Rightarrow> bool option" where
  "loop_match [] t = Some True"
| "loop_match (b # l) [] = None"
| "loop_match (b # l) (c # t) = (if b \<noteq> c then Some False else loop_match l t)"

fun loops_match :: "hash list list \<Rightarrow> hash list list \<Rightarrow> bool option" where
  "loops_match [] _ = Some True"
| "loops_match (l # ls) [] = None"
| "loops_match (l # ls) (m # ms) =
     (case loop_match l m of Some True \<Rightarrow> loops_match ls ms | r \<Rightarrow> r)"

fun Definition_Match :: "Definition \<Rightarrow> Definition \<Rightarrow> bool option" where
  "Definition_Match (Vertex s) (Vertex t) = Some (lng s = lng t \<and> alt s = alt t \<and> lat s = lat t)"
| "Definition_Match (Border s) (Border t) =
     Some (b_Father s = b_Father t \<and> Vertex_IsEqual (b_Begin s) (b_Begin t) \<and> Vertex_IsEqual (b_End s) (b_End t))"
| "Definition_Match (Polygon s) (Polygon t) =
     (if length (Loops s) \<noteq> length (Loops t) then Some False else loops_match (Loops s) (Loops t))"
| "Definition_Match (Right s) (Right t) =
     Some (Attrib s = Attrib t \<and> r_Father s = r_Father t \<and> Desc s = Desc t)"
| "Definition_Match (RightSet s) (RightSet t) = Some (Rights s = Rights t)"
| "Definition_Match Separator Separator = Some True"
| "Definition_Match _ _ = Some False"

fun Dup :: "Definition \<Rightarrow> Definition" where
  "Dup (Vertex t) = Vertex t"
| "Dup (Border t) = Border (t\<lparr> b_hash := None \<rparr>)"
| "Dup (Polygon t) = Polygon (t\<lparr> p_hash := None \<rparr>)"
| "Dup (Right t) = Right (t\<lparr> r_hash := None \<rparr>)"
| "Dup (RightSet t) = RightSet (t\<lparr> rs_hash := None, rs_sorted := 0 \<rparr>)"
| "Dup Separator = Separator"

definition CopyDefinitions :: "Definition list \<Rightarrow> Definition list" where
  "CopyDefinitions defs = map Dup defs"

definition LoopDef_CheckSum :: "hash list \<Rightarrow> bytes" where
  "LoopDef_CheckSum s =
     (if length s = 1 then s ! 0 else fold (\<lambda>p r. map2 (XOR) r p) s zero_hash)"

definition LoopDef_Equal :: "hash list \<Rightarrow> hash list \<Rightarrow> bool" where
  "LoopDef_Equal s t \<longleftrightarrow> s = t"

subsection \<open>Reading\<close>

text \<open>The count is a variable length integer on the wire and 32 bits in the memory format.\<close>

definition mem_count :: "u64 reader" where
  "mem_count = rbind (Uint32 LittleEndian) (\<lambda>n. rreturn (ucast n))"

definition Vertex_Read :: "VertexDef reader" where
  "Vertex_Read = rbind (raw_reader 12) (\<lambda>b. rreturn (Vertex_Deserialize b))"

text \<open>The buffer of the first vertex is reused for the second one.\<close>

definition Border_Read :: "BorderDef reader" where
  "Border_Read bs =
     (case read_into (replicate 32 0) bs of (father, bs) \<Rightarrow>
      case read_into (replicate 12 0) bs of (b, bs) \<Rightarrow>
      case read_into b bs of (b', bs) \<Rightarrow>
        (Inr \<lparr> b_hash = None, b_Father = father, b_Begin = Vertex_Deserialize b, b_End = Vertex_Deserialize b' \<rparr>, bs))"

definition loop_read :: "u64 reader \<Rightarrow> hash list reader" where
  "loop_read cnt =
     rbind cnt (\<lambda>borders. rbind (go_make 32 borders) (\<lambda>_. read_many (fill_reader 32) (unat borders)))"

definition polygon_read :: "u64 reader \<Rightarrow> PolygonDef reader" where
  "polygon_read cnt =
     rbind cnt (\<lambda>nloops. rbind (go_make 24 nloops) (\<lambda>_.
     rbind (read_many (loop_read cnt) (unat nloops)) (\<lambda>loops. rreturn \<lparr> p_hash = None, Loops = loops \<rparr>)))"

definition Polygon_Read :: "PolygonDef reader" where
  "Polygon_Read = polygon_read ReadVarInt"

definition Polygon_MemRead :: "PolygonDef reader" where
  "Polygon_MemRead = polygon_read mem_count"

definition right_read :: "u64 reader \<Rightarrow> RightDef reader" where
  "right_read cnt =
     rbind (fill_reader 32) (\<lambda>father. rbind cnt (\<lambda>n. rbind (go_make 1 n) (\<lambda>_.
     rbind (fill_reader (unat n)) (\<lambda>dsc. rbind uint8_or_0 (\<lambda>attrib.
       rreturn \<lparr> r_hash = None, r_Father = father, Desc = dsc, Attrib = attrib \<rparr>)))))"

definition Right_Read :: "RightDef reader" where
  "Right_Read = right_read ReadVarInt"

definition Right_MemRead :: "RightDef reader" where
  "Right_MemRead = right_read mem_count"

definition rightset_read :: "u64 reader \<Rightarrow> RightSetDef reader" where
  "rightset_read cnt =
     rbind cnt (\<lambda>n. rbind (go_make 32 n) (\<lambda>_. rbind (read_many (fill_reader 32) (unat n)) (\<lambda>rights.
       rreturn \<lparr> rs_hash = None, Rights = rights, rs_sorted = 0 \<rparr>)))"

definition RightSet_Read :: "RightSetDef reader" where
  "RightSet_Read = rightset_read ReadVarInt"

definition RightSet_MemRead :: "RightSetDef reader" where
  "RightSet_MemRead = rightset_read mem_count"

definition ReadDefinition :: "Definition reader" where
  "ReadDefinition =
     rbind Uint8 (\<lambda>t.
       if t = 0 then rbind Vertex_Read (\<lambda>c. rreturn (Vertex c))
       else if t = 1 then rbind Border_Read (\<lambda>c. rreturn (Border c))
       else if t = 2 then rbind Polygon_Read (\<lambda>c. rreturn (Polygon c))
       else if t = 4 then rbind Right_Read (\<lambda>c. rreturn (Right c))
       else if t = 5 then rbind RightSet_Read (\<lambda>c. rreturn (RightSet c))
       else if t = 0xFC then rreturn Separator
       else rfail (ErrUnrecognizedDefinition t))"

subsection \<open>Writing\<close>

definition mem_put :: "nat \<Rightarrow> bytes" where
  "mem_put n = PutUint32 LittleEndian (of_nat n)"

definition var_put :: "nat \<Rightarrow> bytes" where
  "var_put n = WriteVarInt (of_nat n)"

definition Vertex_Write :: "VertexDef \<Rightarrow> bytes" where
  "Vertex_Write t = Vertex_Serialize t"

definition Border_Write :: "BorderDef \<Rightarrow> bytes" where
  "Border_Write t = b_Father t @ Vertex_Serialize (b_Begin t) @ Vertex_Serialize (b_End t)"

definition polygon_write :: "(nat \<Rightarrow> bytes) \<Rightarrow> PolygonDef \<Rightarrow> bytes" where
  "polygon_write put t =
     put (length (Loops t)) @ concat (map (\<lambda>loop. put (length loop) @ concat loop) (Loops t))"

definition Polygon_Write :: "PolygonDef \<Rightarrow> bytes" where
  "Polygon_Write = polygon_write var_put"

definition Polygon_MemWrite :: "PolygonDef \<Rightarrow> bytes" where
  "Polygon_MemWrite = polygon_write mem_put"

definition right_write :: "(nat \<Rightarrow> bytes) \<Rightarrow> RightDef \<Rightarrow> bytes" where
  "right_write put t = r_Father t @ put (length (Desc t)) @ Desc t @ PutUint8 (Attrib t)"

definition Right_Write :: "RightDef \<Rightarrow> bytes" where
  "Right_Write = right_write var_put"

definition Right_MemWrite :: "RightDef \<Rightarrow> bytes" where
  "Right_MemWrite = right_write mem_put"

text \<open>Writing a right set sorts it in place: \<open>RightSet_sort\<close> is what the definition is afterwards.\<close>

definition rightset_write :: "(nat \<Rightarrow> bytes) \<Rightarrow> RightSetDef \<Rightarrow> bytes" where
  "rightset_write put t = (let t = RightSet_sort t in put (length (Rights t)) @ concat (Rights t))"

definition RightSet_Write :: "RightSetDef \<Rightarrow> bytes" where
  "RightSet_Write = rightset_write var_put"

definition RightSet_MemWrite :: "RightSetDef \<Rightarrow> bytes" where
  "RightSet_MemWrite = rightset_write mem_put"

definition WriteDefinition :: "Definition \<Rightarrow> bytes" where
  "WriteDefinition ti =
     PutUint8 (DefType ti) @
     (case ti of
        Vertex c \<Rightarrow> Vertex_Write c
      | Border c \<Rightarrow> Border_Write c
      | Polygon c \<Rightarrow> Polygon_Write c
      | Right c \<Rightarrow> Right_Write c
      | RightSet c \<Rightarrow> RightSet_Write c
      | Separator \<Rightarrow> [])"

subsection \<open>References to definitions of the same transaction\<close>

text \<open>A hash that begins with an index in brackets refers to a definition of the transaction. Only
  the definition that is remapped is returned; \<open>None\<close> is the panic of an index out of range.
  The hashes that are cached in the other definitions on the way are left out.\<close>

definition remap_pattern :: regexp where
  "remap_pattern = Seq Begin (Seq (Class [0x5b]) (Seq (Many1 digits) (Class [0x5d])))"

definition NeedRemap :: "bytes \<Rightarrow> bytes option" where
  "NeedRemap h = map_option (\<lambda>m. butlast (List.tl m)) (Find remap_pattern h)"

definition Bytetoint :: "bytes \<Rightarrow> nat" where
  "Bytetoint h = (let n = foldl (\<lambda>n c. n * 10 + unat (c - 0x30)) 0 h in if n < 2 ^ 63 then n else 0)"

definition remap_index :: "(bytes \<Rightarrow> bytes) \<Rightarrow> Definition list \<Rightarrow> bytes \<Rightarrow> hash option" where
  "remap_index HashH txDef r =
     (if Bytetoint r < length txDef then Some (fst (Definition_Hash HashH (txDef ! Bytetoint r))) else None)"

definition remap_hash :: "(bytes \<Rightarrow> bytes) \<Rightarrow> Definition list \<Rightarrow> hash \<Rightarrow> hash option" where
  "remap_hash HashH txDef h = (case NeedRemap h of None \<Rightarrow> Some h | Some r \<Rightarrow> remap_index HashH txDef r)"

definition remap_border :: "(bytes \<Rightarrow> bytes) \<Rightarrow> Definition list \<Rightarrow> hash \<Rightarrow> hash option" where
  "remap_border HashH txDef l =
     (case NeedRemap l of
        None \<Rightarrow> Some l
      | Some r \<Rightarrow>
          map_option (\<lambda>t. if Match (Seq remap_pattern (Class [0x52])) l then t[0 := t ! 0 OR 1] else t)
            (remap_index HashH txDef r))"

fun all_some :: "'a option list \<Rightarrow> 'a list option" where
  "all_some [] = Some []"
| "all_some (None # _) = None"
| "all_some (Some x # xs) = map_option ((#) x) (all_some xs)"

fun RemapDef :: "(bytes \<Rightarrow> bytes) \<Rightarrow> Definition list \<Rightarrow> Definition \<Rightarrow> Definition option" where
  "RemapDef HashH txDef (Border b) =
     map_option (\<lambda>h. Border (b\<lparr> b_Father := h \<rparr>)) (remap_hash HashH txDef (b_Father b))"
| "RemapDef HashH txDef (Polygon p) =
     map_option (\<lambda>ls. Polygon (p\<lparr> Loops := ls \<rparr>))
       (all_some (map (\<lambda>loop. all_some (map (remap_border HashH txDef) loop)) (Loops p)))"
| "RemapDef HashH txDef (Right r) =
     map_option (\<lambda>h. Right (r\<lparr> r_Father := h \<rparr>)) (remap_hash HashH txDef (r_Father r))"
| "RemapDef HashH txDef (RightSet r) =
     map_option (\<lambda>hs. RightSet (r\<lparr> Rights := hs \<rparr>)) (all_some (map (remap_hash HashH txDef) (Rights r)))"
| "RemapDef HashH txDef to = Some to"

subsection \<open>Tokens\<close>

datatype TokenValue = HashToken hash | NumToken u64

record Token =
  TokenType :: u64
  Value :: "TokenValue option"
  t_Rights :: "hash option"

definition DefTypeSeparator :: u64 where
  "DefTypeSeparator = 0xFC"

definition Token_IsNumeric :: "'z Token_scheme \<Rightarrow> bool" where
  "Token_IsNumeric t \<longleftrightarrow> TokenType t AND 1 = 0"

definition HasRight :: "'z Token_scheme \<Rightarrow> bool" where
  "HasRight t \<longleftrightarrow> TokenType t AND 2 \<noteq> 0"

text \<open>The values are compared as what the type says; a value of the other kind panics.\<close>

definition Token_Diff :: "'z Token_scheme \<Rightarrow> 'z Token_scheme \<Rightarrow> bool option" where
  "Token_Diff t s =
     (if TokenType t \<noteq> TokenType s then Some True
      else
        let rest = Some (if HasRight t then t_Rights t \<noteq> t_Rights s else False)
        in case (Value t, Value s) of
             (Some (HashToken h), Some (HashToken h')) \<Rightarrow>
               if Token_IsNumeric t then None else if h \<noteq> h' then Some True else rest
           | (Some (NumToken n), Some (NumToken n')) \<Rightarrow>
               if Token_IsNumeric t then if n \<noteq> n' then Some True else rest else None
           | _ \<Rightarrow> None)"

definition value_size :: "'z Token_scheme \<Rightarrow> nat" where
  "value_size t = (if Token_IsNumeric t then 8 else 32) + (if HasRight t then 32 else 0)"

definition Token_SerializeSize :: "'z Token_scheme \<Rightarrow> nat" where
  "Token_SerializeSize t = VarIntSerializeSize (TokenType t) + value_size t"

definition Token_Size :: "'z Token_scheme \<Rightarrow> nat" where
  "Token_Size t = 8 + value_size t"

text \<open>The readers and writers of the wire and of the storage format differ in how the type is
  encoded, and in what a missing right set is when it is written.\<close>

definition read_token :: "u64 reader \<Rightarrow> Token reader" where
  "read_token cnt =
     rbind cnt (\<lambda>t.
       if t = DefTypeSeparator then rreturn \<lparr> TokenType = t, Value = None, t_Rights = None \<rparr>
       else
         rbind (if t AND 1 = 1 then rbind (read_full 32) (\<lambda>h. rreturn (HashToken h))
                else rbind (Uint64 LittleEndian) (\<lambda>n. rreturn (NumToken n))) (\<lambda>v.
         if t AND 2 \<noteq> 0 then
           rbind (read_full 32) (\<lambda>h. rreturn \<lparr> TokenType = t, Value = Some v, t_Rights = Some h \<rparr>)
         else rreturn \<lparr> TokenType = t, Value = Some v, t_Rights = None \<rparr>))"

definition Token_ReadTxOut :: "Token reader" where
  "Token_ReadTxOut = read_token ReadVarInt"

definition Token_Read :: "Token reader" where
  "Token_Read = read_token (Uint64 LittleEndian)"

fun value_bytes :: "TokenValue \<Rightarrow> bytes" where
  "value_bytes (NumToken v) = PutUint64 LittleEndian v"
| "value_bytes (HashToken h) = h"

definition Token_WriteTxOut :: "'z Token_scheme \<Rightarrow> wire_error + bytes" where
  "Token_WriteTxOut to =
     (if TokenType to = DefTypeSeparator then Inr (WriteVarInt (TokenType to))
      else case Value to of
             None \<Rightarrow> Inl GoPanic
           | Some v \<Rightarrow>
               Inr (WriteVarInt (TokenType to) @ value_bytes v @
                 (if TokenType to AND 2 \<noteq> 0 then case t_Rights to of None \<Rightarrow> zero_hash | Some h \<Rightarrow> h else [])))"

definition Token_Write :: "'z Token_scheme \<Rightarrow> wire_error + bytes" where
  "Token_Write to =
     (if TokenType to = DefTypeSeparator then Inr (PutUint64 LittleEndian (TokenType to))
      else case Value to of
             None \<Rightarrow> Inl GoPanic
           | Some v \<Rightarrow>
               if TokenType to AND 2 = 0 then Inr (PutUint64 LittleEndian (TokenType to) @ value_bytes v)
               else (case t_Rights to of
                       None \<Rightarrow> Inl GoPanic
                     | Some h \<Rightarrow> Inr (PutUint64 LittleEndian (TokenType to) @ value_bytes v @ h)))"

definition Token_Copy :: "'z Token_scheme \<Rightarrow> Token \<Rightarrow> Token" where
  "Token_Copy to s =
     (if TokenType to = DefTypeSeparator then s\<lparr> TokenType := TokenType to \<rparr>
      else s\<lparr> TokenType := TokenType to,
              t_Rights := (case t_Rights to of None \<Rightarrow> t_Rights s | Some h \<Rightarrow> Some h),
              Value := (case Value to of None \<Rightarrow> Value s | Some v \<Rightarrow> Some v) \<rparr>)"

section \<open>Proofs\<close>

lemma read_into_append [simp]: "length buf = length b \<Longrightarrow> read_into buf (b @ r) = (b, r)"
  by (simp add: read_into_def)

lemma fill_reader_append [simp]: "length b = n \<Longrightarrow> fill_reader n (b @ r) = (Inr b, r)"
  by (simp add: fill_reader_def)

lemma raw_reader_append [simp]: "length b = n \<Longrightarrow> 0 < n \<Longrightarrow> raw_reader n (b @ r) = (Inr b, r)"
  by (auto simp: raw_reader_def)

lemma go_make_ok [simp]: "unat n * sz \<le> 2 ^ 48 \<Longrightarrow> go_make sz n bs = (Inr (), bs)"
  by (simp add: go_make_def rreturn_def)

lemma go_make_panic: "2 ^ 48 < unat n * sz \<Longrightarrow> go_make sz n bs = (Inl GoPanic, bs)"
  by (simp add: go_make_def rfail_def)

lemma uint8_or_0_put [simp]: "uint8_or_0 (PutUint8 a @ r) = (Inr a, r)"
  by (simp add: uint8_or_0_def)

definition is_hash :: "bytes \<Rightarrow> bool" where
  "is_hash h \<longleftrightarrow> length h = 32"

interpretation hashes: decoder "\<lambda>h. h" "fill_reader 32" is_hash
  by unfold_locales (simp add: is_hash_def)

lemma length_Vertex_Serialize [simp]: "length (Vertex_Serialize v) = 12"
  by (simp add: Vertex_Serialize_def)

lemma Vertex_Deserialize_Serialize [simp]: "Vertex_Deserialize (Vertex_Serialize v) = v"
  by (cases v) (simp add: Vertex_Deserialize_def Vertex_Serialize_def)

interpretation vertex: decoder Vertex_Write Vertex_Read "\<lambda>_. True"
  by unfold_locales (simp add: Vertex_Read_def Vertex_Write_def rreturn_def)

definition wf_border :: "BorderDef \<Rightarrow> bool" where
  "wf_border t \<longleftrightarrow> b_hash t = None \<and> is_hash (b_Father t)"

interpretation border: decoder Border_Write Border_Read wf_border
proof unfold_locales
  fix t r assume "wf_border t"
  then show "Border_Read (Border_Write t @ r) = (Inr t, r)"
    by (cases t) (simp add: Border_Read_def Border_Write_def wf_border_def is_hash_def)
qed

text \<open>The counts of the two formats: below $2^{64}$ on the wire and below $2^{32}$ in the memory format.\<close>

definition wire_limit :: nat where
  "wire_limit = 2 ^ 64"

definition mem_limit :: nat where
  "mem_limit = 2 ^ 32"

text \<open>What fits: a count below the limit and a slice below the limit of the allocator.\<close>

definition fits :: "nat \<Rightarrow> nat \<Rightarrow> nat \<Rightarrow> bool" where
  "fits lim sz n \<longleftrightarrow> n < lim \<and> n * sz \<le> 2 ^ 48"

definition wf_loop :: "nat \<Rightarrow> hash list \<Rightarrow> bool" where
  "wf_loop lim l \<longleftrightarrow> list_all is_hash l \<and> fits lim 32 (length l)"

definition wf_polygon :: "nat \<Rightarrow> PolygonDef \<Rightarrow> bool" where
  "wf_polygon lim t \<longleftrightarrow> p_hash t = None \<and> list_all (wf_loop lim) (Loops t) \<and> fits lim 24 (length (Loops t))"

definition wf_right :: "nat \<Rightarrow> RightDef \<Rightarrow> bool" where
  "wf_right lim t \<longleftrightarrow> r_hash t = None \<and> is_hash (r_Father t) \<and> fits lim 1 (length (Desc t))"

definition wf_rightset :: "nat \<Rightarrow> RightSetDef \<Rightarrow> bool" where
  "wf_rightset lim t \<longleftrightarrow> rs_hash t = None \<and> rs_sorted t = 0 \<and> sorted (Rights t) \<and> list_all is_hash (Rights t)
     \<and> fits lim 32 (length (Rights t))"

lemma RightSet_sort_sorted: "sorted (Rights t) \<Longrightarrow> RightSet_sort t = t"
  by (simp add: RightSet_sort_def sorted_sort_id)

text \<open>The interface between the definitions and the encoding of their counts.\<close>

locale count_codec =
  fixes put :: "nat \<Rightarrow> bytes" and cnt :: "u64 reader" and lim :: nat
  assumes count_put: "n < lim \<Longrightarrow> cnt (put n @ r) = (Inr (of_nat n), r)" and lim: "lim \<le> 2 ^ 64"
begin

lemma unat_count: "n < lim \<Longrightarrow> unat (of_nat n :: u64) = n"
  using lim by (intro unat_of_nat_small) simp

lemma loop_decoder: "decoder (\<lambda>l. put (length l) @ concat l) (loop_read cnt) (wf_loop lim)"
proof
  fix l r assume l: "wf_loop lim l"
  then have "read_many (fill_reader 32) (length l) (concat (map (\<lambda>h. h) l) @ r) = (Inr l, r)"
    by (intro hashes.read_many_enc) (simp add: wf_loop_def)
  then show "loop_read cnt ((put (length l) @ concat l) @ r) = (Inr l, r)"
    using l by (simp add: loop_read_def wf_loop_def fits_def count_put unat_count)
qed

lemma polygon_decoder: "decoder (polygon_write put) (polygon_read cnt) (wf_polygon lim)"
proof
  fix t r assume t: "wf_polygon lim t"
  then have "read_many (loop_read cnt) (length (Loops t)) (concat (map (\<lambda>l. put (length l) @ concat l) (Loops t)) @ r) = (Inr (Loops t), r)"
    by (intro decoder.read_many_enc [OF loop_decoder]) (simp add: wf_polygon_def)
  then show "polygon_read cnt (polygon_write put t @ r) = (Inr t, r)"
    using t by (cases t) (simp add: polygon_read_def polygon_write_def wf_polygon_def fits_def rreturn_def count_put unat_count)
qed

lemma right_decoder: "decoder (right_write put) (right_read cnt) (wf_right lim)"
proof
  fix t r assume t: "wf_right lim t"
  then show "right_read cnt (right_write put t @ r) = (Inr t, r)"
    by (cases t) (simp add: right_read_def right_write_def wf_right_def fits_def rreturn_def is_hash_def count_put unat_count)
qed

lemma rightset_decoder: "decoder (rightset_write put) (rightset_read cnt) (wf_rightset lim)"
proof
  fix t r assume t: "wf_rightset lim t"
  then have "read_many (fill_reader 32) (length (Rights t)) (concat (map (\<lambda>h. h) (Rights t)) @ r) = (Inr (Rights t), r)"
    by (intro hashes.read_many_enc) (simp add: wf_rightset_def)
  then show "rightset_read cnt (rightset_write put t @ r) = (Inr t, r)"
    using t by (cases t) (simp add: rightset_read_def rightset_write_def wf_rightset_def fits_def rreturn_def
        RightSet_sort_sorted Let_def count_put unat_count)
qed

end

interpretation wire_count: count_codec var_put ReadVarInt wire_limit
  by unfold_locales (simp_all add: var_put_def wire_limit_def)

interpretation mem_count: count_codec mem_put mem_count mem_limit
proof unfold_locales
  fix n :: nat and r assume n: "n < mem_limit"
  have "ucast (of_nat n :: u32) = (of_nat n :: u64)"
    using n by (simp add: mem_limit_def word_unat_eq_iff unat_ucast_up unat_of_nat_small)
  then show "Token_Defs.mem_count (mem_put n @ r) = (Inr (of_nat n), r)"
    by (simp add: mem_count_def mem_put_def rreturn_def)
qed (simp add: mem_limit_def)


text \<open>The definition that is read back: the cached hashes are gone and the rights are sorted.\<close>

fun canonical :: "Definition \<Rightarrow> Definition" where
  "canonical (RightSet t) = RightSet (t\<lparr> rs_hash := None, Rights := sort (Rights t), rs_sorted := 0 \<rparr>)"
| "canonical d = Dup d"

text \<open>The definitions whose hashes have 32 bytes and whose slices can be allocated again.\<close>

fun wf_def :: "Definition \<Rightarrow> bool" where
  "wf_def (Border t) = is_hash (b_Father t)"
| "wf_def (Polygon t) = (list_all (wf_loop wire_limit) (Loops t) \<and> fits wire_limit 24 (length (Loops t)))"
| "wf_def (Right t) = (is_hash (r_Father t) \<and> fits wire_limit 1 (length (Desc t)))"
| "wf_def (RightSet t) = (rs_sorted t = 0 \<and> list_all is_hash (Rights t) \<and> fits wire_limit 32 (length (Rights t)))"
| "wf_def _ = True"

lemma rightset_write_sort: "rs_sorted t = 0 \<Longrightarrow> rightset_write put t = rightset_write put (t\<lparr> rs_hash := None, Rights := sort (Rights t), rs_sorted := 0 \<rparr>)"
  by (simp add: rightset_write_def RightSet_sort_def sorted_sort_id)

lemma ReadDefinition_WriteDefinition:
  assumes "wf_def d"
  shows "ReadDefinition (WriteDefinition d @ r) = (Inr (canonical d), r)"
proof (cases d)
  case (Vertex t)
  then show ?thesis
    by (simp add: ReadDefinition_def WriteDefinition_def rreturn_def vertex.dec_enc)
next
  case (Border t)
  have "Border_Read (Border_Write t @ r) = (Inr (t\<lparr> b_hash := None \<rparr>), r)"
    using border.dec_enc [of "t\<lparr> b_hash := None \<rparr>" r] assms Border by (simp add: wf_border_def Border_Write_def)
  then show ?thesis using Border by (simp add: ReadDefinition_def WriteDefinition_def rreturn_def)
next
  case (Polygon t)
  have "Polygon_Read (Polygon_Write t @ r) = (Inr (t\<lparr> p_hash := None \<rparr>), r)"
    using decoder.dec_enc [OF wire_count.polygon_decoder, of "t\<lparr> p_hash := None \<rparr>" r] assms Polygon
    by (simp add: wf_polygon_def Polygon_Write_def Polygon_Read_def polygon_write_def)
  then show ?thesis using Polygon by (simp add: ReadDefinition_def WriteDefinition_def rreturn_def)
next
  case (Right t)
  have "Right_Read (Right_Write t @ r) = (Inr (t\<lparr> r_hash := None \<rparr>), r)"
    using decoder.dec_enc [OF wire_count.right_decoder, of "t\<lparr> r_hash := None \<rparr>" r] assms Right
    by (simp add: wf_right_def Right_Write_def Right_Read_def right_write_def)
  then show ?thesis using Right by (simp add: ReadDefinition_def WriteDefinition_def rreturn_def)
next
  case (RightSet t)
  let ?t = "t\<lparr> rs_hash := None, Rights := sort (Rights t), rs_sorted := 0 \<rparr>"
  have "wf_rightset wire_limit ?t"
    using assms RightSet by (simp add: wf_rightset_def list_all_iff)
  then have "RightSet_Read (RightSet_Write t @ r) = (Inr ?t, r)"
    using decoder.dec_enc [OF wire_count.rightset_decoder, of ?t r] assms RightSet rightset_write_sort [of t var_put]
    by (simp add: RightSet_Write_def RightSet_Read_def)
  then show ?thesis using RightSet by (simp add: ReadDefinition_def WriteDefinition_def rreturn_def)
next
  case Separator
  then show ?thesis by (simp add: ReadDefinition_def WriteDefinition_def rreturn_def)
qed

text \<open>The size in bytes that \<open>SerializeSize\<close> announces counts the byte of the type for polygons, rights
  and separators only.\<close>

fun type_counted :: "Definition \<Rightarrow> bool" where
  "type_counted (Vertex _) = False" | "type_counted (Border _) = False" | "type_counted (RightSet _) = False"
| "type_counted _ = True"

lemma length_hashes: "list_all is_hash l \<Longrightarrow> length (concat l) = 32 * length l"
  by (induction l) (auto simp: is_hash_def)

lemma length_var_put [simp]: "length (var_put n) = VarIntSerializeSize (of_nat n)"
  by (simp add: var_put_def length_WriteVarInt)

lemma length_polygon:
  "list_all (wf_loop wire_limit) ls \<Longrightarrow> length (concat (map (\<lambda>loop. var_put (length loop) @ concat loop) ls))
     = sum_list (map (\<lambda>loop. VarIntSerializeSize (of_nat (length loop)) + length loop * 32) ls)"
  by (induction ls) (simp_all add: wf_loop_def length_hashes)

lemma length_WriteDefinition:
  assumes "wf_def d"
  shows "length (WriteDefinition d) = SerializeSize d + (if type_counted d then 0 else 1)"
proof (cases d)
  case (RightSet t)
  then show ?thesis
    using assms by (simp add: WriteDefinition_def RightSet_Write_def rightset_write_def RightSet_sort_def Let_def length_hashes list_all_iff)
next
  case (Polygon t)
  then show ?thesis using assms by (simp add: WriteDefinition_def Polygon_Write_def polygon_write_def length_polygon)
qed (use assms in \<open>simp_all add: WriteDefinition_def Vertex_Write_def Border_Write_def Right_Write_def right_write_def is_hash_def\<close>)

text \<open>
  C10: Definitions survive the wire. Reading what \<open>WriteDefinition\<close> wrote for a definition with
  proper hashes and slices of a size that can be allocated gives the definition without its cached
  hash and with the rights of a right set sorted, and leaves the rest of the stream. The number of
  bytes is the one \<open>SerializeSize\<close> announces for polygons, rights and separators, and one more, the
  type, for vertices, borders and right sets.
\<close>

theorem definitions_roundtrip:
  assumes "wf_def d"
  shows "ReadDefinition (WriteDefinition d @ r) = (Inr (canonical d), r)
    \<and> length (WriteDefinition d) = SerializeSize d + (case d of Vertex _ \<Rightarrow> 1 | Border _ \<Rightarrow> 1 | RightSet _ \<Rightarrow> 1 | _ \<Rightarrow> 0)"
  using ReadDefinition_WriteDefinition [OF assms] length_WriteDefinition [OF assms] by (cases d) simp_all

theorem definitions_roundtrip_witness:
  "ReadDefinition (WriteDefinition (RightSet (NewRightSetDef [replicate 32 2, replicate 32 1])) @ [7])
     = (Inr (RightSet (NewRightSetDef [replicate 32 1, replicate 32 2])), [7])"
proof -
  have "\<not> (replicate 32 2 :: bytes) \<le> replicate 32 1" "(replicate 32 1 :: bytes) \<le> replicate 32 2" by code_simp+
  then show ?thesis
  using definitions_roundtrip [of "RightSet (NewRightSetDef [replicate 32 2, replicate 32 1])" "[7]"]
  by (simp add: NewRightSetDef_def is_hash_def fits_def wire_limit_def)
qed

subsection \<open>Hazards of the readers\<close>

lemma Border_Read_total: "\<exists>t r. Border_Read bs = (Inr t, r)"
  by (simp add: Border_Read_def split: prod.split)

lemma make_too_large:
  assumes "2 ^ 48 < unat n * sz"
  shows "rbind ReadVarInt (\<lambda>c. rbind (go_make sz c) (f c)) (WriteVarInt n @ r) = (Inl GoPanic, r)"
  using assms by (simp add: rbind_def go_make_panic)



subsection \<open>Identity of definitions\<close>

text \<open>The hash of a right set that is not empty does not depend on the order of its rights.\<close>

lemma RightSet_Hash_permutation:
  assumes "mset (Rights s) = mset (Rights t)" "rs_sorted s = 0" "rs_sorted t = 0" "Rights s \<noteq> []"
  shows "fst (RightSet_Hash HashH s) = fst (RightSet_Hash HashH t)"
proof -
  have "sort (Rights s) = sort (Rights t)" using assms(1) by (metis properties_for_sort sorted_sort mset_sort)
  moreover have "Rights t \<noteq> []" using assms(1,4) by auto
  ultimately show ?thesis using assms(2-4) by (simp add: RightSet_Hash_def RightSet_sort_def Let_def)
qed

lemma loop_match_prefix: "loop_match l (l @ m) = Some True" "m \<noteq> [] \<Longrightarrow> loop_match (l @ m) l = None"
  by (induction l) (auto simp: neq_Nil_conv)

lemma RemapDef_stale:
  assumes "b_hash b = Some h" "RemapDef HashH txDef (Border b) = Some d"
  shows "fst (Definition_Hash HashH d) = h"
  using assms by (auto simp: Border_Hash_def)

text \<open>
  When two definitions are the same. The hash of a right set that is not empty depends only on the
  multiset of its rights. The comparison of polygons is not an equality: a polygon matches one
  whose loop has more borders, and comparing them the other way round panics. A border whose
  hash has been computed keeps it when its father is remapped.
\<close>

theorem definition_identity:
  "(mset (Rights s) = mset (Rights t) \<longrightarrow> rs_sorted s = 0 \<longrightarrow> rs_sorted t = 0 \<longrightarrow> Rights s \<noteq> [] \<longrightarrow>
      fst (Definition_Hash HashH (RightSet s)) = fst (Definition_Hash HashH (RightSet t)))
   \<and> Definition_Match (Polygon (NewPolygonDef [l])) (Polygon (NewPolygonDef [l @ [h]])) = Some True
   \<and> Definition_Match (Polygon (NewPolygonDef [l @ [h]])) (Polygon (NewPolygonDef [l])) = None
   \<and> (b_hash b = Some h' \<longrightarrow> RemapDef HashH txDef (Border b) = Some d \<longrightarrow> fst (Definition_Hash HashH d) = h')"
  using RightSet_Hash_permutation [of s t HashH] RemapDef_stale [of b h' HashH txDef d]
  by (auto simp: NewPolygonDef_def loop_match_prefix split: prod.split)

theorem definition_identity_witness:
  "fst (Definition_Hash (\<lambda>bs. take 32 bs) (RightSet (NewRightSetDef [replicate 32 1, replicate 32 2])))
   = fst (Definition_Hash (\<lambda>bs. take 32 bs) (RightSet (NewRightSetDef [replicate 32 2, replicate 32 1])))"
  using definition_identity [of "NewRightSetDef [replicate 32 1, replicate 32 2]" "NewRightSetDef [replicate 32 2, replicate 32 1]"
      "\<lambda>bs. take 32 bs"]
  by (simp add: NewRightSetDef_def)

subsection \<open>Tokens\<close>

text \<open>A token whose value is of the kind its type says and that has rights when its type says so; a
  separator has neither.\<close>

definition wf_token :: "'z Token_scheme \<Rightarrow> bool" where
  "wf_token t \<longleftrightarrow>
     (if TokenType t = DefTypeSeparator then Value t = None \<and> t_Rights t = None
      else (case Value t of
              None \<Rightarrow> False
            | Some (HashToken h) \<Rightarrow> is_hash h \<and> \<not> Token_IsNumeric t
            | Some (NumToken n) \<Rightarrow> Token_IsNumeric t)
           \<and> (case t_Rights t of None \<Rightarrow> \<not> HasRight t | Some h \<Rightarrow> is_hash h \<and> HasRight t))"

lemma and_1: "(w AND 1 = 1) = (w AND 1 \<noteq> (0 :: u64))"
  by (simp add: and_one_eq odd_iff_mod_2_eq_one even_iff_mod_2_eq_zero)

definition token_bytes :: "(u64 \<Rightarrow> bytes) \<Rightarrow> 'z Token_scheme \<Rightarrow> bytes" where
  "token_bytes put t = put (TokenType t) @ (case Value t of None \<Rightarrow> [] | Some v \<Rightarrow> value_bytes v)
     @ (case t_Rights t of None \<Rightarrow> [] | Some h \<Rightarrow> h)"

definition read_value :: "bool \<Rightarrow> TokenValue reader" where
  "read_value hashed = (if hashed then rbind (read_full 32) (\<lambda>h. rreturn (HashToken h))
     else rbind (Uint64 LittleEndian) (\<lambda>n. rreturn (NumToken n)))"

lemma read_value_Inr:
  "read_value hashed bs = (Inr v, r) \<longleftrightarrow> bs = value_bytes v @ r
     \<and> (case v of HashToken h \<Rightarrow> hashed \<and> is_hash h | NumToken n \<Rightarrow> \<not> hashed)"
  by (cases v) (auto simp: read_value_def zent_io is_hash_def)

lemma token_codec:
  assumes "codec put cnt (\<lambda>_. True)"
  shows "read_token cnt bs = (Inr t, r) \<longleftrightarrow> wf_token t \<and> bs = token_bytes put t @ r" (is "?l \<longleftrightarrow> ?r")
proof
  note dec = codec.dec_iff [OF assms]
  assume ?l
  then obtain ty s where ty: "bs = put ty @ s"
    and rest: "(if ty = DefTypeSeparator then rreturn \<lparr> TokenType = ty, Value = None, t_Rights = None \<rparr>
       else rbind (read_value (ty AND 1 = 1)) (\<lambda>v.
         if ty AND 2 \<noteq> 0 then rbind (read_full 32) (\<lambda>h. rreturn \<lparr> TokenType = ty, Value = Some v, t_Rights = Some h \<rparr>)
         else rreturn \<lparr> TokenType = ty, Value = Some v, t_Rights = None \<rparr>)) s = (Inr t, r)"
    unfolding read_token_def rbind_Inr dec read_value_def by auto
  show ?r
  proof (cases "ty = DefTypeSeparator")
    case True
    then show ?thesis using rest ty by (auto simp: rreturn_Inr wf_token_def token_bytes_def)
  next
    case False
    obtain v s' where v: "s = value_bytes v @ s'" "case v of HashToken h \<Rightarrow> ty AND 1 = 1 \<and> is_hash h | NumToken n \<Rightarrow> ty AND 1 \<noteq> 1"
      and rest': "(if ty AND 2 \<noteq> 0 then rbind (read_full 32) (\<lambda>h. rreturn \<lparr> TokenType = ty, Value = Some v, t_Rights = Some h \<rparr>)
         else rreturn \<lparr> TokenType = ty, Value = Some v, t_Rights = None \<rparr>) s' = (Inr t, r)"
      using rest False by (auto simp: rbind_Inr read_value_Inr)
    show ?thesis
    proof (cases "ty AND 2 = 0")
      case True
      then have "t = \<lparr> TokenType = ty, Value = Some v, t_Rights = None \<rparr>" "s' = r" using rest' by (simp_all add: rreturn_Inr)
      then show ?thesis using ty v False True
        by (cases v) (simp_all add: wf_token_def token_bytes_def Token_IsNumeric_def HasRight_def and_1)
    next
      case F2: False
      then obtain h where "s' = h @ r" "is_hash h" "t = \<lparr> TokenType = ty, Value = Some v, t_Rights = Some h \<rparr>"
        using rest' by (auto simp: rbind_Inr read_full_Inr rreturn_Inr is_hash_def)
      then show ?thesis using ty v False F2
        by (cases v) (simp_all add: wf_token_def token_bytes_def Token_IsNumeric_def HasRight_def and_1)
    qed
  qed
next
  assume r: ?r
  have val: "read_value hashed (value_bytes v @ s) = (Inr v, s)"
    if "case v of HashToken h \<Rightarrow> hashed \<and> is_hash h | NumToken n \<Rightarrow> \<not> hashed" for v hashed s
    using that read_value_Inr by blast
  show ?l
  proof (cases "TokenType t = DefTypeSeparator")
    case True
    then show ?thesis using r codec.axioms(1) [OF assms, THEN decoder.dec_enc, OF TrueI]
      by (cases t) (simp add: wf_token_def token_bytes_def read_token_def rreturn_def)
  next
    case False
    then obtain v where v: "Value t = Some v" "case v of HashToken h \<Rightarrow> \<not> Token_IsNumeric t \<and> is_hash h | NumToken n \<Rightarrow> Token_IsNumeric t"
      using r by (auto simp: wf_token_def split: option.splits TokenValue.splits)
    have "read_value (TokenType t AND 1 = 1) (value_bytes v @ s) = (Inr v, s)" for s
      using v(2) by (intro val) (auto simp: Token_IsNumeric_def and_1 split: TokenValue.splits)
    then show ?thesis
      using r False v(1) codec.axioms(1) [OF assms, THEN decoder.dec_enc, OF TrueI]
      by (cases t; cases "t_Rights t")
        (simp_all add: wf_token_def token_bytes_def read_token_def read_value_def [symmetric] rreturn_def HasRight_def is_hash_def)
  qed
qed

lemma Token_writes:
  assumes "wf_token t"
  shows "Token_WriteTxOut t = Inr (token_bytes WriteVarInt t)" "Token_Write t = Inr (token_bytes (PutUint64 LittleEndian) t)"
  using assms
  by (cases "TokenType t = DefTypeSeparator"; cases "Value t"; cases "t_Rights t";
      simp add: wf_token_def Token_WriteTxOut_def Token_Write_def token_bytes_def HasRight_def)+

interpretation token_wire: codec "token_bytes WriteVarInt" Token_ReadTxOut wf_token
  using token_codec [OF varint.codec_axioms] by unfold_locales (simp_all add: Token_ReadTxOut_def)

interpretation token_store: codec "token_bytes (PutUint64 LittleEndian)" Token_Read wf_token
  using token_codec [OF u64c.codec_axioms] by unfold_locales (simp_all add: Token_Read_def)

end
