(* ===== verification/Wire_Tx.thy ===== *)
theory Wire_Tx
  imports Token_Defs
begin

text \<open>
  Transactions, \<^verbatim>\<open>btcd/wire/msgtx.go\<close>: outpoints, inputs, outputs and the transaction message with
  its wire encoding, sizes, copies and classifications. Indexing a script outside of its bounds
  panics: functions that do so return \<open>None\<close>, and \<open>GoPanic\<close> inside of readers and writers. A
  script is allocated with its exact length. The pool of script buffers has no effect on the
  bytes and is left out. The hash functions are arguments, as in the theory of definitions.
\<close>

unbundle bit_operations_syntax

subsection \<open>Constants\<close>

definition TxNoLock :: u32 where "TxNoLock = 0x10"
definition TxNoDefine :: u32 where "TxNoDefine = 0x20"
definition TxTypeMask :: u32 where "TxTypeMask = 0xF"
definition ForfeitTxVersion :: u32 where "ForfeitTxVersion = 2"
definition CrossChainFalg :: u32 where "CrossChainFalg = 0x800000"
definition MaxTxInSequenceNum :: u32 where "MaxTxInSequenceNum = 0xffffffff"
definition wire_MaxMessagePayload :: nat where "wire_MaxMessagePayload = 1024 * 1024 * 64"
definition minTxInPayload :: nat where "minTxInPayload = 9 + 32"
definition MinTxOutPayload :: nat where "MinTxOutPayload = 9"
definition MaxTxInPerMessage :: nat where "MaxTxInPerMessage = wire_MaxMessagePayload div minTxInPayload + 1"
definition MaxTxOutPerMessage :: nat where "MaxTxOutPerMessage = wire_MaxMessagePayload div MinTxOutPayload + 1"
definition MinDefinitionPayload :: nat where "MinDefinitionPayload = 68"
definition MaxDefinitionPerMessage :: nat where
  "MaxDefinitionPerMessage = 1024 * 1024 * 400 div MinDefinitionPayload + 1"
definition CommitteeSize :: nat where "CommitteeSize = 3"
definition BTCCHAINID :: u32 where "BTCCHAINID = 0x400003"

definition BaseEncoding :: u32 where "BaseEncoding = 1"
definition SignatureEncoding :: u32 where "SignatureEncoding = 2"
definition FullEncoding :: u32 where "FullEncoding = 4"

subsection \<open>Inputs\<close>

record OutPoint =
  op_Hash :: hash
  Index :: u32

record TxIn =
  PreviousOutPoint :: OutPoint
  Sequence :: u32
  SignatureIndex :: u32

definition NewOutPoint :: "hash \<Rightarrow> u32 \<Rightarrow> OutPoint" where
  "NewOutPoint h i = \<lparr> op_Hash = h, Index = i \<rparr>"

definition OutPoint_Equal :: "OutPoint \<Rightarrow> OutPoint \<Rightarrow> bool" where
  "OutPoint_Equal p s \<longleftrightarrow> op_Hash p = op_Hash s \<and> Index p = Index s"

definition OutPoint_ToBytes :: "OutPoint \<Rightarrow> bytes" where
  "OutPoint_ToBytes p = op_Hash p @ le_bytes 4 (Index p)"

definition TxIn_Match :: "TxIn \<Rightarrow> TxIn \<Rightarrow> bool" where
  "TxIn_Match s t \<longleftrightarrow>
     (if Index (PreviousOutPoint s) \<noteq> Index (PreviousOutPoint t) \<or> Sequence s \<noteq> Sequence t
         \<or> SignatureIndex s \<noteq> SignatureIndex t then False
      else op_Hash (PreviousOutPoint s) = op_Hash (PreviousOutPoint t))"

definition TxIn_SerializeSize :: "TxIn \<Rightarrow> nat" where
  "TxIn_SerializeSize t = 44"

definition TxIn_IsSeparator :: "TxIn \<Rightarrow> bool" where
  "TxIn_IsSeparator t \<longleftrightarrow> op_Hash (PreviousOutPoint t) = zero_hash \<and> Index (PreviousOutPoint t) = 0
     \<and> SignatureIndex t = 0 \<and> Sequence t = 0"

definition IsPadding :: "TxIn \<Rightarrow> bool" where
  "IsPadding t \<longleftrightarrow> op_Hash (PreviousOutPoint t) = zero_hash \<and> Index (PreviousOutPoint t) = 0
     \<and> SignatureIndex t = 0xFFFFFFFF \<and> Sequence t = 0"

definition IsSepadding :: "TxIn \<Rightarrow> bool" where
  "IsSepadding t \<longleftrightarrow> op_Hash (PreviousOutPoint t) = zero_hash \<and> Index (PreviousOutPoint t) = 0"

definition NewTxIn :: "OutPoint \<Rightarrow> u32 \<Rightarrow> TxIn" where
  "NewTxIn prevOut signatureIndex =
     \<lparr> PreviousOutPoint = prevOut, Sequence = MaxTxInSequenceNum, SignatureIndex = signatureIndex \<rparr>"

definition readOutPoint :: "OutPoint reader" where
  "readOutPoint = rbind (read_full 32) (\<lambda>h. rbind (Uint32 LittleEndian) (\<lambda>i. rreturn \<lparr> op_Hash = h, Index = i \<rparr>))"

definition writeOutPoint :: "OutPoint \<Rightarrow> bytes" where
  "writeOutPoint p = op_Hash p @ PutUint32 LittleEndian (Index p)"

definition readTxIn :: "TxIn reader" where
  "readTxIn =
     rbind readOutPoint (\<lambda>p. rbind (Uint32 LittleEndian) (\<lambda>si. rbind (Uint32 LittleEndian) (\<lambda>sq.
       rreturn \<lparr> PreviousOutPoint = p, Sequence = sq, SignatureIndex = si \<rparr>)))"

definition writeTxIn :: "TxIn \<Rightarrow> bytes" where
  "writeTxIn ti =
     writeOutPoint (PreviousOutPoint ti) @ PutUint32 LittleEndian (SignatureIndex ti) @ PutUint32 LittleEndian (Sequence ti)"

subsection \<open>Outputs\<close>

record TxOut = Token +
  PkScript :: bytes

definition script_at :: "TxOut \<Rightarrow> nat \<Rightarrow> byte option" where
  "script_at t i = (if i < length (PkScript t) then Some (PkScript t ! i) else None)"

definition TxOut_IsSeparator :: "TxOut \<Rightarrow> bool" where
  "TxOut_IsSeparator t \<longleftrightarrow> TokenType t = DefTypeSeparator"

text \<open>The values are compared as what the type says; a value of the other kind panics.\<close>

definition TxOut_Match :: "TxOut \<Rightarrow> TxOut \<Rightarrow> bool option" where
  "TxOut_Match s t =
     (if TokenType s \<noteq> TokenType t then Some False
      else if PkScript s \<noteq> PkScript t then Some False
      else if t_Rights s \<noteq> t_Rights t then Some False
      else case (Value s, Value t) of
             (Some (NumToken n), Some (NumToken n')) \<Rightarrow> if Token_IsNumeric s then Some (n = n') else None
           | (Some (HashToken h), Some (HashToken h')) \<Rightarrow> if Token_IsNumeric s then None else Some (h = h')
           | _ \<Rightarrow> None)"

definition TxOut_SerializeSize :: "TxOut \<Rightarrow> nat" where
  "TxOut_SerializeSize t =
     Token_SerializeSize t + (length (PkScript t) + VarIntSerializeSize (of_nat (length (PkScript t))))"

definition OP_PAYMINER :: byte where "OP_PAYMINER = 0x44"
definition OP_PAY2NONE :: byte where "OP_PAY2NONE = 0x45"
definition OP_PAYCROSSCHAIN :: byte where "OP_PAYCROSSCHAIN = 0x66"

definition no_chain :: "TxOut \<Rightarrow> bool option" where
  "no_chain t =
     (if length (PkScript t) = 22 then Some True
      else if length (PkScript t) < 25 then None
      else Some (take 3 (drop 22 (PkScript t)) = [0, 0, 0]))"

definition IsNopaying :: "TxOut \<Rightarrow> bool option" where
  "IsNopaying t =
     (let rest =
        (if PkScript t = [] then None
         else if PkScript t ! 0 = 0x88 then Some False
         else if PkScript t ! 0 = OP_PAYCROSSCHAIN then Some True
         else if length (PkScript t) < 22 then Some True
         else if PkScript t ! 21 = OP_PAY2NONE then no_chain t
         else if PkScript t ! 21 = OP_PAYMINER then no_chain t
         else Some False)
      in if Token_IsNumeric t
         then (case Value t of Some (NumToken n) \<Rightarrow> if n = 0 then Some True else rest | _ \<Rightarrow> None)
         else rest)"

definition IsContractCall :: "TxOut \<Rightarrow> bool option" where
  "IsContractCall t = map_option (\<lambda>c. c = 0x88) (script_at t 0)"

definition TxOut_IsCrossChain :: "TxOut \<Rightarrow> bool option" where
  "TxOut_IsCrossChain t =
     (case script_at t 0 of
        None \<Rightarrow> None
      | Some c \<Rightarrow> if c = 0x88 then Some False else map_option (\<lambda>x. x = OP_PAYCROSSCHAIN) (script_at t 21))"

definition Crossing :: "TxOut \<Rightarrow> bool option" where
  "Crossing t =
     (case script_at t 0 of
        None \<Rightarrow> None
      | Some c \<Rightarrow>
          if c = 0x88 then Some False
          else map_option (\<lambda>x. x = OP_PAYCROSSCHAIN \<or> x = OP_PAYMINER) (script_at t 21))"

definition DestChain :: "TxOut \<Rightarrow> u32 option" where
  "DestChain t =
     (case script_at t 0 of
        None \<Rightarrow> None
      | Some c \<Rightarrow>
          if c = 0x88 then Some 0
          else case script_at t 21 of
                 None \<Rightarrow> None
               | Some x \<Rightarrow>
                   if x \<noteq> OP_PAYCROSSCHAIN \<and> x \<noteq> OP_PAYMINER then Some 0
                   else if length (PkScript t) < 25 then None
                   else Some (drop_bit 8 (le_word (take 4 (drop 21 (PkScript t))))))"

definition TxOut_Diff :: "TxOut \<Rightarrow> TxOut \<Rightarrow> bool option" where
  "TxOut_Diff t s = (case Token_Diff t s of Some False \<Rightarrow> Some (PkScript t \<noteq> PkScript s) | r \<Rightarrow> r)"

definition NewTxOut :: "u64 \<Rightarrow> TokenValue \<Rightarrow> hash option \<Rightarrow> bytes \<Rightarrow> TxOut" where
  "NewTxOut tokenType val rights pkScript =
     \<lparr> TokenType = tokenType, Value = Some val, t_Rights = rights, PkScript = pkScript \<rparr>"

definition readScript :: "nat \<Rightarrow> bytes reader" where
  "readScript maxAllowed =
     rbind ReadVarInt (\<lambda>cnt.
       if unat cnt > maxAllowed then rfail (ErrMessage ''readScript'') else read_full (unat cnt))"

definition ReadTxOut :: "TxOut reader" where
  "ReadTxOut =
     rbind Token_ReadTxOut (\<lambda>t. rbind (readScript wire_MaxMessagePayload) (\<lambda>s.
       rreturn \<lparr> TokenType = TokenType t, Value = Value t, t_Rights = t_Rights t, PkScript = s \<rparr>))"

definition wappend :: "wire_error + bytes \<Rightarrow> wire_error + bytes \<Rightarrow> wire_error + bytes" where
  "wappend a b = (case a of Inl e \<Rightarrow> Inl e | Inr x \<Rightarrow> (case b of Inl e \<Rightarrow> Inl e | Inr y \<Rightarrow> Inr (x @ y)))"

definition wconcat :: "(wire_error + bytes) list \<Rightarrow> wire_error + bytes" where
  "wconcat ws = foldr wappend ws (Inr [])"

definition WriteTxOut :: "TxOut \<Rightarrow> wire_error + bytes" where
  "WriteTxOut to = wappend (Token_WriteTxOut to) (Inr (WriteVarBytes (PkScript to)))"

text \<open>The storage format of an output. The script is read by a single \<open>Read\<close> of a \<open>bytes.Reader\<close>,
  the stream of the only caller: it fails at the end of the stream, also when no byte is asked
  for, and otherwise fills what it can of the zeroed buffer.\<close>

definition TxOut_Write :: "TxOut \<Rightarrow> wire_error + bytes" where
  "TxOut_Write to = wappend (Token_Write to) (Inr (PutUint32 LittleEndian (of_nat (length (PkScript to))) @ PkScript to))"

definition TxOut_Read :: "TxOut reader" where
  "TxOut_Read =
     rbind Token_Read (\<lambda>t. rbind (Uint32 LittleEndian) (\<lambda>ln. rbind (raw_reader (unat ln)) (\<lambda>s.
       rreturn \<lparr> TokenType = TokenType t, Value = Value t, t_Rights = t_Rights t, PkScript = s \<rparr>)))"

text \<open>Writing an output whose type has a right set but which has none gives it the zero hash.\<close>

definition WriteTxOut_effect :: "TxOut \<Rightarrow> TxOut" where
  "WriteTxOut_effect to =
     (if TokenType to \<noteq> DefTypeSeparator \<and> TokenType to AND 2 \<noteq> 0 \<and> t_Rights to = None
      then to\<lparr> t_Rights := Some zero_hash \<rparr> else to)"

text \<open>The format of cross-chain records. A value of the other kind and a missing right set panic.\<close>

definition TxOut_Serialize :: "TxOut \<Rightarrow> bytes option" where
  "TxOut_Serialize t =
     (case Value t of
        Some v \<Rightarrow>
          if (case v of NumToken _ \<Rightarrow> True | HashToken _ \<Rightarrow> False) \<noteq> Token_IsNumeric t then None
          else if TokenType t AND 2 \<noteq> 0 \<and> t_Rights t = None then None
          else Some (PutUint64 LittleEndian (TokenType t) @ value_bytes v @
                 (if TokenType t AND 2 \<noteq> 0 then the (t_Rights t) else []) @
                 WriteVarInt (of_nat (length (PkScript t))) @ PkScript t)
      | None \<Rightarrow> None)"

text \<open>Its reader drops every error: what was not read keeps its zero value, the type and the right
  set the receiver's. The result is the number of bytes consumed, \<open>None\<close> the \<open>-1\<close> for a long script.\<close>

definition get_or :: "'a \<Rightarrow> 'a reader \<Rightarrow> bytes \<Rightarrow> 'a \<times> bytes" where
  "get_or d m bs = (case m bs of (Inr a, r) \<Rightarrow> (a, r) | (Inl _, r) \<Rightarrow> (d, r))"

definition TxOut_DeSerialize :: "TxOut \<Rightarrow> bytes \<Rightarrow> nat option \<times> TxOut" where
  "TxOut_DeSerialize t r =
     (let (ty, r1) = get_or (TokenType t) (Uint64 LittleEndian) r;
          (v, r2) = (if ty AND 1 = 0
                     then (case get_or 0 (Uint64 LittleEndian) r1 of (n, x) \<Rightarrow> (NumToken n, x))
                     else (case read_fill 32 r1 of (h, x) \<Rightarrow> (HashToken h, x)));
          (rights, r3) = (if ty AND 2 \<noteq> 0
                          then (case read_fill 32 r2 of (h, x) \<Rightarrow> (Some h, x))
                          else (t_Rights t, r2));
          (ln, r4) = get_or 0 ReadVarInt r3;
          t' = t\<lparr> TokenType := ty, Value := Some v, t_Rights := rights \<rparr>
      in if ln > 1000 then (None, t')
         else case read_fill (unat ln) r4 of (script, r5) \<Rightarrow>
                (Some (length r - length r5), t'\<lparr> PkScript := script \<rparr>))"

subsection \<open>Transactions\<close>

record MsgTx =
  Version :: u32
  TxDef :: "Definition list"
  tx_In :: "TxIn list"
  tx_Out :: "TxOut list"
  LockTime :: u32
  SignatureScripts :: "bytes list"

definition NewMsgTx :: "u32 \<Rightarrow> MsgTx" where
  "NewMsgTx version =
     \<lparr> Version = version, TxDef = [], tx_In = [], tx_Out = [], LockTime = 0, SignatureScripts = [] \<rparr>"

definition IsForfeit :: "MsgTx \<Rightarrow> bool" where
  "IsForfeit s \<longleftrightarrow> Version s AND TxTypeMask = ForfeitTxVersion"

definition MsgTx_IsCrossChain :: "MsgTx \<Rightarrow> bool" where
  "MsgTx_IsCrossChain s \<longleftrightarrow>
     (case tx_In s of
        [t] \<Rightarrow> op_Hash (PreviousOutPoint t) \<noteq> zero_hash \<and> Index (PreviousOutPoint t) AND CrossChainFalg \<noteq> 0
      | _ \<Rightarrow> False)"

definition IsBtcL2 :: "MsgTx \<Rightarrow> bool" where
  "IsBtcL2 msg \<longleftrightarrow>
     (case tx_In msg of
        [t] \<Rightarrow> op_Hash (PreviousOutPoint t) \<noteq> zero_hash \<and> Index (PreviousOutPoint t) = BTCCHAINID OR CrossChainFalg
      | _ \<Rightarrow> False)"

text \<open>The loops of \<open>Match\<close>: \<open>cmp\<close> decides one pair, \<open>None\<close> a panic.\<close>

fun match_all :: "('a \<Rightarrow> 'a \<Rightarrow> bool option) \<Rightarrow> 'a list \<Rightarrow> 'a list \<Rightarrow> bool option" where
  "match_all cmp (a # as) (b # bs) =
     (case cmp a b of Some True \<Rightarrow> match_all cmp as bs | r \<Rightarrow> r)"
| "match_all cmp _ _ = Some True"

definition match_def :: "Definition \<Rightarrow> Definition \<Rightarrow> bool option" where
  "match_def d t =
     (if DefType d \<noteq> DefType t then Some False else if IsSeparator d then Some True else Definition_Match d t)"

definition match_in :: "TxIn \<Rightarrow> TxIn \<Rightarrow> bool option" where
  "match_in d t =
     (if TxIn_IsSeparator d \<noteq> TxIn_IsSeparator t then Some False
      else if TxIn_IsSeparator d then Some True else Some (TxIn_Match d t))"

definition match_out :: "TxOut \<Rightarrow> TxOut \<Rightarrow> bool option" where
  "match_out d t =
     (if TxOut_IsSeparator d \<noteq> TxOut_IsSeparator t then Some False
      else if TxOut_IsSeparator d then Some True else TxOut_Match d t)"

definition MsgTx_Match :: "MsgTx \<Rightarrow> MsgTx \<Rightarrow> bool option" where
  "MsgTx_Match s t =
     (if length (tx_In s) \<noteq> length (tx_In t) \<or> length (TxDef s) \<noteq> length (TxDef t)
         \<or> length (tx_Out s) \<noteq> length (tx_Out t) then Some False
      else case match_all match_def (TxDef s) (TxDef t) of
             Some True \<Rightarrow>
               (case match_all match_in (tx_In s) (tx_In t) of
                  Some True \<Rightarrow> match_all match_out (tx_Out s) (tx_Out t)
                | r \<Rightarrow> r)
           | r \<Rightarrow> r)"

definition AddTxIn :: "TxIn \<Rightarrow> MsgTx \<Rightarrow> nat \<times> MsgTx" where
  "AddTxIn ti msg = (length (tx_In msg), msg\<lparr> tx_In := tx_In msg @ [ti] \<rparr>)"

definition AddTxOut :: "TxOut \<Rightarrow> MsgTx \<Rightarrow> nat \<times> MsgTx" where
  "AddTxOut to msg = (length (tx_Out msg), msg\<lparr> tx_Out := tx_Out msg @ [to] \<rparr>)"

definition AddSignature :: "bytes \<Rightarrow> MsgTx \<Rightarrow> nat \<times> MsgTx" where
  "AddSignature sig msg = (length (SignatureScripts msg), msg\<lparr> SignatureScripts := SignatureScripts msg @ [sig] \<rparr>)"

definition add_def :: "Definition \<Rightarrow> MsgTx \<Rightarrow> nat \<times> MsgTx" where
  "add_def d msg = (length (TxDef msg), msg\<lparr> TxDef := TxDef msg @ [d] \<rparr>)"

definition AddVertex :: "VertexDef \<Rightarrow> MsgTx \<Rightarrow> nat \<times> MsgTx" where
  "AddVertex to = add_def (Vertex to)"

definition AddBorder :: "BorderDef \<Rightarrow> MsgTx \<Rightarrow> nat \<times> MsgTx" where
  "AddBorder to = add_def (Border to)"

definition AddPolygon :: "PolygonDef \<Rightarrow> MsgTx \<Rightarrow> nat \<times> MsgTx" where
  "AddPolygon to = add_def (Polygon to)"

definition AddRight :: "RightDef \<Rightarrow> MsgTx \<Rightarrow> nat \<times> MsgTx" where
  "AddRight to = add_def (Right to)"

text \<open>The hash is computed on the definition in the list, which keeps it.\<close>

definition AddDef :: "(bytes \<Rightarrow> bytes) \<Rightarrow> Definition \<Rightarrow> MsgTx \<Rightarrow> hash \<times> MsgTx" where
  "AddDef HashH to msg =
     (case Definition_Hash HashH to of (h, to') \<Rightarrow> (h, msg\<lparr> TxDef := TxDef msg @ [to'] \<rparr>))"

text \<open>\<open>None\<close>: an index without a definition, or a value that is no hash although the type says so.\<close>

definition RemapTxout :: "(bytes \<Rightarrow> bytes) \<Rightarrow> MsgTx \<Rightarrow> TxOut \<Rightarrow> TxOut option" where
  "RemapTxout HashH msg to =
     (case (if TokenType to AND 1 = 1 then
              (case Value to of
                 Some (HashToken h) \<Rightarrow>
                   map_option (\<lambda>h'. to\<lparr> Value := Some (HashToken h') \<rparr>) (remap_hash HashH (TxDef msg) h)
               | _ \<Rightarrow> None)
            else Some to) of
        None \<Rightarrow> None
      | Some to1 \<Rightarrow>
          (case t_Rights to1 of
             None \<Rightarrow> Some to1
           | Some h \<Rightarrow> map_option (\<lambda>h'. to1\<lparr> t_Rights := Some h' \<rparr>) (remap_hash HashH (TxDef msg) h)))"

definition MsgTx_RemapDef :: "(bytes \<Rightarrow> bytes) \<Rightarrow> MsgTx \<Rightarrow> Definition \<Rightarrow> Definition option" where
  "MsgTx_RemapDef HashH msg to = RemapDef HashH (TxDef msg) to"

subsubsection \<open>Copies\<close>

text \<open>The copy of an output asks its value what it is, which panics without a value; an empty
  script becomes nil, the same list of bytes.\<close>

definition copy_out :: "TxOut \<Rightarrow> TxOut option" where
  "copy_out oldTxOut =
     (case Value oldTxOut of
        None \<Rightarrow> None
      | Some v \<Rightarrow> Some \<lparr> TokenType = TokenType oldTxOut, Value = Some v,
                        t_Rights = t_Rights oldTxOut, PkScript = PkScript oldTxOut \<rparr>)"

definition MsgTx_Copy :: "MsgTx \<Rightarrow> MsgTx option" where
  "MsgTx_Copy msg =
     map_option (\<lambda>outs.
         \<lparr> Version = Version msg, TxDef = map Dup (TxDef msg), tx_In = tx_In msg, tx_Out = outs,
           LockTime = LockTime msg, SignatureScripts = SignatureScripts msg \<rparr>)
       (all_some (map (\<lambda>t. if TxOut_IsSeparator t then Some t else copy_out t) (tx_Out msg)))"

definition before_sep :: "('a \<Rightarrow> bool) \<Rightarrow> 'a list \<Rightarrow> 'a list" where
  "before_sep sep xs = takeWhile (\<lambda>x. \<not> sep x) xs"

definition Strip :: "MsgTx \<Rightarrow> MsgTx" where
  "Strip msg =
     msg\<lparr> tx_Out := before_sep TxOut_IsSeparator (tx_Out msg),
          tx_In := before_sep TxIn_IsSeparator (tx_In msg),
          TxDef := before_sep IsSeparator (TxDef msg) \<rparr>"

definition Stripped :: "MsgTx \<Rightarrow> MsgTx option" where
  "Stripped msg =
     map_option (\<lambda>outs.
         \<lparr> Version = Version msg, TxDef = map Dup (before_sep IsSeparator (TxDef msg)),
           tx_In = before_sep TxIn_IsSeparator (tx_In msg), tx_Out = outs,
           LockTime = LockTime msg, SignatureScripts = SignatureScripts msg \<rparr>)
       (all_some (map copy_out (before_sep TxOut_IsSeparator (tx_Out msg))))"

subsubsection \<open>Coin bases\<close>

definition zeroaddr :: "bytes \<Rightarrow> bool" where
  "zeroaddr addr \<longleftrightarrow> list_all (\<lambda>t. t = 0) addr"

fun coinbase_outs :: "TxOut list \<Rightarrow> bool option" where
  "coinbase_outs [] = Some True"
| "coinbase_outs (to # tos) =
     (if TxOut_IsSeparator to then Some True
      else case IsContractCall to of
             None \<Rightarrow> None
           | Some True \<Rightarrow> Some False
           | Some False \<Rightarrow>
               (case Crossing to of
                  None \<Rightarrow> None
                | Some True \<Rightarrow> Some False
                | Some False \<Rightarrow> coinbase_outs tos))"

definition IsCoinBase :: "MsgTx \<Rightarrow> bool option" where
  "IsCoinBase msgTx =
     (case tx_In msgTx of
        [t] \<Rightarrow> if op_Hash (PreviousOutPoint t) \<noteq> zero_hash then Some False else coinbase_outs (tx_Out msgTx)
      | _ \<Rightarrow> Some False)"

subsubsection \<open>Encoding\<close>

text \<open>
  A writer gives the bytes that reached the stream and the error it ended with: the callers that
  hash a transaction drop the error and hash those bytes.
\<close>

type_synonym written = "bytes \<times> wire_error option"

definition wthen :: "written \<Rightarrow> written \<Rightarrow> written" where
  "wthen a b = (case a of (x, Some e) \<Rightarrow> (x, Some e) | (x, None) \<Rightarrow> (case b of (y, e) \<Rightarrow> (x @ y, e)))"

definition wput :: "bytes \<Rightarrow> written" where
  "wput x = (x, None)"

definition wtry :: "wire_error + bytes \<Rightarrow> written" where
  "wtry r = (case r of Inl e \<Rightarrow> ([], Some e) | Inr x \<Rightarrow> (x, None))"

definition wlist :: "('a \<Rightarrow> written) \<Rightarrow> 'a list \<Rightarrow> written" where
  "wlist w xs = wthen (wput (WriteVarInt (of_nat (length xs)))) (foldr (\<lambda>x. wthen (w x)) xs (wput []))"

definition WriteSignature :: "MsgTx \<Rightarrow> bytes" where
  "WriteSignature tx =
     WriteVarInt (of_nat (length (SignatureScripts tx))) @ concat (map WriteVarBytes (SignatureScripts tx))"

definition written_part :: "bool \<Rightarrow> ('a \<Rightarrow> bool) \<Rightarrow> 'a list \<Rightarrow> 'a list" where
  "written_part full sep xs = (if full then xs else before_sep sep xs)"

definition OmcEncode :: "u32 \<Rightarrow> MsgTx \<Rightarrow> written" where
  "OmcEncode enc0 msg =
     (let full = (enc0 AND FullEncoding \<noteq> 0);
          enc = (if full then enc0 AND NOT FullEncoding else enc0)
      in wthen (wput (PutUint32 LittleEndian (Version msg)))
        (wthen (if Version msg AND TxNoDefine = 0
                then wlist (\<lambda>d. wput (WriteDefinition d)) (written_part full IsSeparator (TxDef msg))
                else if TxDef msg \<noteq> [] then ([], Some (ErrMessage ''Incorrect tx format''))
                else wput [])
        (wthen (wlist (\<lambda>t. wput (writeTxIn t)) (written_part full TxIn_IsSeparator (tx_In msg)))
        (wthen (wlist (\<lambda>t. wtry (WriteTxOut t)) (written_part full TxOut_IsSeparator (tx_Out msg)))
        (wthen (wput (if Version msg AND TxNoLock = 0 then PutUint32 LittleEndian (LockTime msg) else []))
               (wput (if enc = SignatureEncoding then WriteSignature msg else WriteVarInt 0)))))))"

text \<open>What encoding leaves in the transaction: the right sets it has written are sorted, the outputs
  it has written have a right set when their type says so.\<close>

fun WriteDefinition_effect :: "Definition \<Rightarrow> Definition" where
  "WriteDefinition_effect (RightSet t) = RightSet (RightSet_sort t)"
| "WriteDefinition_effect d = d"

definition map_written :: "('a \<Rightarrow> 'a) \<Rightarrow> 'a list \<Rightarrow> 'a list \<Rightarrow> 'a list" where
  "map_written f part xs = map f (take (length part) xs) @ drop (length part) xs"

definition OmcEncode_effect :: "u32 \<Rightarrow> MsgTx \<Rightarrow> MsgTx" where
  "OmcEncode_effect enc msg =
     (let full = (enc AND FullEncoding \<noteq> 0)
      in if Version msg AND TxNoDefine \<noteq> 0 \<and> TxDef msg \<noteq> [] then msg
         else msg\<lparr> TxDef := map_written WriteDefinition_effect (written_part full IsSeparator (TxDef msg)) (TxDef msg),
                   tx_Out := map_written WriteTxOut_effect (written_part full TxOut_IsSeparator (tx_Out msg)) (tx_Out msg) \<rparr>)"

definition MsgTx_Serialize :: "MsgTx \<Rightarrow> written" where
  "MsgTx_Serialize = OmcEncode (SignatureEncoding OR FullEncoding)"

definition SerializeNoSignature :: "MsgTx \<Rightarrow> written" where
  "SerializeNoSignature = OmcEncode BaseEncoding"

definition SerializeFull :: "MsgTx \<Rightarrow> written" where
  "SerializeFull = OmcEncode (BaseEncoding OR FullEncoding)"

subsubsection \<open>Hashes\<close>

text \<open>\<open>DoubleHashH\<close> is the double SHA-256 of the hash package; \<open>None\<close> is a panic of the encoder.\<close>

definition hash_written :: "(bytes \<Rightarrow> hash) \<Rightarrow> written \<Rightarrow> hash option" where
  "hash_written DoubleHashH w = (if snd w = Some GoPanic then None else Some (DoubleHashH (fst w)))"

definition TxHash :: "(bytes \<Rightarrow> hash) \<Rightarrow> MsgTx \<Rightarrow> hash option" where
  "TxHash DoubleHashH msg = hash_written DoubleHashH (SerializeNoSignature msg)"

definition TxFullHash :: "(bytes \<Rightarrow> hash) \<Rightarrow> MsgTx \<Rightarrow> hash option" where
  "TxFullHash DoubleHashH msg = hash_written DoubleHashH (SerializeFull msg)"

definition TxBaseHash :: "(bytes \<Rightarrow> hash) \<Rightarrow> MsgTx \<Rightarrow> hash option" where
  "TxBaseHash DoubleHashH msg = hash_written DoubleHashH (SerializeFull msg)"

definition SignatureHash :: "(bytes \<Rightarrow> hash) \<Rightarrow> MsgTx \<Rightarrow> hash option" where
  "SignatureHash DoubleHashH msg = hash_written DoubleHashH (OmcEncode SignatureEncoding msg)"

subsubsection \<open>Decoding\<close>

text \<open>The count of signatures is compared as a signed integer, and signatures are appended to the
  ones the receiver has.\<close>

definition ReadSignature :: "MsgTx \<Rightarrow> MsgTx reader" where
  "ReadSignature tx =
     rbind ReadVarInt (\<lambda>cnt.
       case IsCoinBase tx of
         None \<Rightarrow> rfail GoPanic
       | Some cb \<Rightarrow>
           if sint cnt > int (if cb then CommitteeSize + 1 else length (tx_In tx))
           then rfail (ErrMessage ''MsgTx.OmcDecode'')
           else rbind (read_many (readScript wire_MaxMessagePayload) (nat (sint cnt))) (\<lambda>ss.
                  rreturn (tx\<lparr> SignatureScripts := SignatureScripts tx @ ss \<rparr>)))"

definition read_list :: "nat \<Rightarrow> 'a reader \<Rightarrow> 'a list reader" where
  "read_list mx m =
     rbind ReadVarInt (\<lambda>cnt.
       if unat cnt > mx then rfail (ErrMessage ''MsgTx.OmcDecode'') else read_many m (unat cnt))"

definition OmcDecode :: "MsgTx \<Rightarrow> MsgTx reader" where
  "OmcDecode msg =
     rbind (Uint32 LittleEndian) (\<lambda>version.
     rbind (if version AND TxNoDefine = 0 then read_list MaxDefinitionPerMessage ReadDefinition else rreturn []) (\<lambda>defs.
     rbind (read_list MaxTxInPerMessage readTxIn) (\<lambda>ins.
     rbind (read_list MaxTxOutPerMessage ReadTxOut) (\<lambda>outs.
     rbind (if version AND TxNoLock = 0 then Uint32 LittleEndian else rreturn 0) (\<lambda>lock.
       ReadSignature \<lparr> Version = version, TxDef = defs, tx_In = ins, tx_Out = outs, LockTime = lock,
                       SignatureScripts = SignatureScripts msg \<rparr>)))))"

subsubsection \<open>Sizes\<close>

definition part_size :: "('a \<Rightarrow> nat) \<Rightarrow> 'a list \<Rightarrow> nat" where
  "part_size sz xs = sum_list (map sz xs) + VarIntSerializeSize (of_nat (length xs))"

definition baseSize :: "MsgTx \<Rightarrow> bool \<Rightarrow> nat" where
  "baseSize msg full =
     8 + part_size SerializeSize (written_part full IsSeparator (TxDef msg))
       + part_size TxIn_SerializeSize (written_part full TxIn_IsSeparator (tx_In msg))
       + part_size TxOut_SerializeSize (written_part full TxOut_IsSeparator (tx_Out msg))"

definition MsgTx_SerializeSize :: "MsgTx \<Rightarrow> nat" where
  "MsgTx_SerializeSize msg =
     baseSize msg True +
     part_size (\<lambda>s. VarIntSerializeSize (of_nat (length s)) + length s) (SignatureScripts msg)"

definition SerializeSizeStripped :: "MsgTx \<Rightarrow> nat" where
  "SerializeSizeStripped msg = baseSize msg False"

definition SerializeSizeFull :: "MsgTx \<Rightarrow> nat" where
  "SerializeSizeFull msg = baseSize msg True"

section \<open>Proofs\<close>

subsection \<open>Inputs and outputs\<close>

definition wf_in :: "TxIn \<Rightarrow> bool" where
  "wf_in t \<longleftrightarrow> is_hash (op_Hash (PreviousOutPoint t))"

definition wf_out :: "TxOut \<Rightarrow> bool" where
  "wf_out t \<longleftrightarrow> wf_token t \<and> length (PkScript t) \<le> wire_MaxMessagePayload"

lemma payload_u64: "wire_MaxMessagePayload < 2 ^ 64"
  by (simp add: wire_MaxMessagePayload_def)

lemma unat_of_small: "n \<le> mx \<Longrightarrow> mx < 2 ^ 64 \<Longrightarrow> unat (of_nat n :: u64) = n"
  by (simp add: unat_of_nat)

interpretation txin: codec writeTxIn readTxIn wf_in
proof
  fix a r bs
  show "wf_in a \<Longrightarrow> readTxIn (writeTxIn a @ r) = (Inr a, r)"
    by (cases a; cases "PreviousOutPoint a")
      (simp add: wf_in_def is_hash_def readTxIn_def readOutPoint_def writeTxIn_def writeOutPoint_def rreturn_def
        u32c.dec_enc)
  show "readTxIn bs = (Inr a, r) \<Longrightarrow> wf_in a \<and> bs = writeTxIn a @ r"
    by (auto simp: readTxIn_def readOutPoint_def writeTxIn_def writeOutPoint_def zent_io wf_in_def is_hash_def u32c.dec_iff)
qed

interpretation script: codec WriteVarBytes "readScript wire_MaxMessagePayload" "\<lambda>s. length s \<le> wire_MaxMessagePayload"
proof
  fix a r bs
  show "length a \<le> wire_MaxMessagePayload \<Longrightarrow> readScript wire_MaxMessagePayload (WriteVarBytes a @ r) = (Inr a, r)"
    by (simp add: readScript_def WriteVarBytes_def varint.dec_enc unat_of_small [OF _ payload_u64])
  show "readScript wire_MaxMessagePayload bs = (Inr a, r) \<Longrightarrow> length a \<le> wire_MaxMessagePayload \<and> bs = WriteVarBytes a @ r"
    by (auto simp: readScript_def WriteVarBytes_def zent_io varint.dec_iff split: if_splits)
qed

definition out_bytes :: "TxOut \<Rightarrow> bytes" where
  "out_bytes t = token_bytes WriteVarInt t @ WriteVarBytes (PkScript t)"

lemma WriteTxOut_wf: "wf_out t \<Longrightarrow> WriteTxOut t = Inr (out_bytes t)"
  by (simp add: wf_out_def WriteTxOut_def Token_writes wappend_def out_bytes_def)

lemma token_part:
  "wf_token (\<lparr> TokenType = ty, Value = v, t_Rights = rs, PkScript = s \<rparr>) = wf_token \<lparr> TokenType = ty, Value = v, t_Rights = rs \<rparr>"
  "token_bytes put \<lparr> TokenType = ty, Value = v, t_Rights = rs, PkScript = s \<rparr> = token_bytes put \<lparr> TokenType = ty, Value = v, t_Rights = rs \<rparr>"
  by (cases v; cases rs; simp add: wf_token_def token_bytes_def Token_IsNumeric_def HasRight_def split: TokenValue.splits)+

lemma token_surj: "\<lparr> TokenType = TokenType t, Value = Value t, t_Rights = t_Rights t \<rparr> = (t :: Token)"
  by (cases t) simp

interpretation txout: codec out_bytes ReadTxOut wf_out
proof
  fix a r bs
  show "wf_out a \<Longrightarrow> ReadTxOut (out_bytes a @ r) = (Inr a, r)"
    by (cases a) (simp add: wf_out_def out_bytes_def token_part ReadTxOut_def token_wire.dec_enc script.dec_enc rreturn_def)
  show "ReadTxOut bs = (Inr a, r) \<Longrightarrow> wf_out a \<and> bs = out_bytes a @ r"
    by (auto simp: ReadTxOut_def zent_io token_wire.dec_iff script.dec_iff wf_out_def out_bytes_def token_part token_surj)
qed

subsection \<open>Lists\<close>

lemma read_many_map:
  assumes "\<And>x s. x \<in> set xs \<Longrightarrow> m (enc x @ s) = (Inr (c x), s)"
  shows "read_many m (length xs) (concat (map enc xs) @ r) = (Inr (map c xs), r)"
  using assms by (induction xs) (simp_all add: rreturn_def)

lemma read_list_enc:
  assumes "\<And>x s. x \<in> set xs \<Longrightarrow> m (enc x @ s) = (Inr (c x), s)" "length xs \<le> mx" "mx < 2 ^ 64"
  shows "read_list mx m (WriteVarInt (of_nat (length xs)) @ concat (map enc xs) @ r) = (Inr (map c xs), r)"
  using read_many_map [of xs m enc c r] assms
  by (simp add: read_list_def varint.dec_enc unat_of_small)

lemma wlist_enc:
  assumes "\<And>x. x \<in> set xs \<Longrightarrow> w x = (enc x, None)"
  shows "wlist w xs = (WriteVarInt (of_nat (length xs)) @ concat (map enc xs), None)"
proof -
  have "foldr (\<lambda>x. wthen (w x)) xs (wput []) = (concat (map enc xs), None)"
    using assms by (induction xs) (simp_all add: wthen_def wput_def)
  then show ?thesis by (simp add: wlist_def wthen_def wput_def)
qed

subsection \<open>Transactions\<close>

text \<open>What an encoding carries of a transaction.\<close>

definition carried :: "u32 \<Rightarrow> MsgTx \<Rightarrow> MsgTx" where
  "carried enc msg =
     (let full = (enc AND FullEncoding \<noteq> 0)
      in msg\<lparr> TxDef := written_part full IsSeparator (TxDef msg),
              tx_In := written_part full TxIn_IsSeparator (tx_In msg),
              tx_Out := written_part full TxOut_IsSeparator (tx_Out msg),
              SignatureScripts :=
                (if (if full then enc AND NOT FullEncoding else enc) = SignatureEncoding
                 then SignatureScripts msg else []) \<rparr>)"

definition canonical_tx :: "MsgTx \<Rightarrow> MsgTx" where
  "canonical_tx msg = msg\<lparr> TxDef := map canonical (TxDef msg) \<rparr>"

definition wf_parts :: "MsgTx \<Rightarrow> bool" where
  "wf_parts msg \<longleftrightarrow>
     list_all wf_def (TxDef msg) \<and> length (TxDef msg) \<le> MaxDefinitionPerMessage
     \<and> list_all wf_in (tx_In msg) \<and> length (tx_In msg) \<le> MaxTxInPerMessage
     \<and> list_all wf_out (tx_Out msg) \<and> length (tx_Out msg) \<le> MaxTxOutPerMessage
     \<and> (Version msg AND TxNoLock \<noteq> 0 \<longrightarrow> LockTime msg = 0)"

definition wf_tx :: "MsgTx \<Rightarrow> bool" where
  "wf_tx msg \<longleftrightarrow> wf_parts msg
     \<and> list_all (\<lambda>s. length s \<le> wire_MaxMessagePayload) (SignatureScripts msg)
     \<and> (case IsCoinBase msg of
          None \<Rightarrow> False
        | Some cb \<Rightarrow> length (SignatureScripts msg) \<le> (if cb then CommitteeSize + 1 else length (tx_In msg)))"

definition format_ok :: "MsgTx \<Rightarrow> bool" where
  "format_ok msg \<longleftrightarrow> Version msg AND TxNoDefine = 0 \<or> TxDef msg = []"

definition tx_prefix :: "MsgTx \<Rightarrow> bytes" where
  "tx_prefix msg =
     PutUint32 LittleEndian (Version msg)
     @ (if Version msg AND TxNoDefine = 0
        then WriteVarInt (of_nat (length (TxDef msg))) @ concat (map WriteDefinition (TxDef msg)) else [])
     @ (WriteVarInt (of_nat (length (tx_In msg))) @ concat (map writeTxIn (tx_In msg)))
     @ (WriteVarInt (of_nat (length (tx_Out msg))) @ concat (map out_bytes (tx_Out msg)))
     @ (if Version msg AND TxNoLock = 0 then PutUint32 LittleEndian (LockTime msg) else [])"

definition tx_bytes :: "MsgTx \<Rightarrow> bytes" where
  "tx_bytes msg = tx_prefix msg @ WriteSignature msg"

lemma OmcEncode_bytes:
  assumes "format_ok msg" "list_all wf_out (tx_Out (carried enc msg))"
  shows "OmcEncode enc msg = (tx_bytes (carried enc msg), None)"
proof -
  define full where "full = (enc AND FullEncoding \<noteq> 0)"
  have outs: "wlist (\<lambda>t. wtry (WriteTxOut t)) (written_part full TxOut_IsSeparator (tx_Out msg))
      = (WriteVarInt (of_nat (length (written_part full TxOut_IsSeparator (tx_Out msg))))
         @ concat (map out_bytes (written_part full TxOut_IsSeparator (tx_Out msg))), None)"
    using assms(2) by (intro wlist_enc) (auto simp: carried_def Let_def full_def list_all_iff wtry_def WriteTxOut_wf)
  have defs: "wlist (\<lambda>d. (WriteDefinition d, None)) ds = (WriteVarInt (of_nat (length ds)) @ concat (map WriteDefinition ds), None)" for ds
    by (intro wlist_enc) simp
  have ins: "wlist (\<lambda>d. (writeTxIn d, None)) ds = (WriteVarInt (of_nat (length ds)) @ concat (map writeTxIn ds), None)" for ds
    by (intro wlist_enc) simp
  show ?thesis
    using assms(1)
    by (auto simp: OmcEncode_def tx_bytes_def tx_prefix_def carried_def Let_def full_def [symmetric] defs ins outs format_ok_def
        WriteSignature_def wthen_def wput_def)
qed


lemma limits_u64: "MaxDefinitionPerMessage < 2 ^ 64" "MaxTxInPerMessage < 2 ^ 64" "MaxTxOutPerMessage < 2 ^ 64"
  by (simp_all add: MaxDefinitionPerMessage_def MinDefinitionPayload_def MaxTxInPerMessage_def MaxTxOutPerMessage_def
      wire_MaxMessagePayload_def minTxInPayload_def MinTxOutPayload_def)

lemma IsCoinBase_cong: "tx_In a = tx_In b \<Longrightarrow> tx_Out a = tx_Out b \<Longrightarrow> IsCoinBase a = IsCoinBase b"
  unfolding IsCoinBase_def by (rule arg_cong2 [where f = "\<lambda>i x. case i of [t] \<Rightarrow> if op_Hash (PreviousOutPoint t) \<noteq> zero_hash then Some False else coinbase_outs x | _ \<Rightarrow> Some False"])

lemma MaxTxIn_u63: "MaxTxInPerMessage < 2 ^ 63"
  by (simp add: MaxTxInPerMessage_def wire_MaxMessagePayload_def minTxInPayload_def)

lemma sint_of_small: "n < 2 ^ 63 \<Longrightarrow> sint (of_nat n :: u64) = int n"
  by (simp add: signed_of_nat signed_take_bit_int_eq_self)

lemma ReadSignature_enc:
  assumes "wf_tx tx" "tx_In tx = tx_In tx0" "tx_Out tx = tx_Out tx0"
  shows "ReadSignature tx0 (WriteSignature tx @ r)
    = (Inr (tx0\<lparr> SignatureScripts := SignatureScripts tx0 @ SignatureScripts tx \<rparr>), r)"
proof -
  obtain cb where cb: "IsCoinBase tx = Some cb"
    and le: "length (SignatureScripts tx) \<le> (if cb then CommitteeSize + 1 else length (tx_In tx))"
    using assms(1) by (auto simp: wf_tx_def split: option.splits)
  have "length (SignatureScripts tx) < 2 ^ 63"
    using le assms(1) MaxTxIn_u63 by (auto simp: wf_tx_def wf_parts_def CommitteeSize_def split: if_splits)
  then have cnt: "sint (of_nat (length (SignatureScripts tx)) :: u64) = int (length (SignatureScripts tx))"
    by (rule sint_of_small)
  have "list_all (\<lambda>s. length s \<le> wire_MaxMessagePayload) (SignatureScripts tx)"
    using assms(1) by (simp add: wf_tx_def)
  note many = script.read_many_enc [OF this]
  have "IsCoinBase tx0 = Some cb" using cb IsCoinBase_cong [OF assms(2,3)] by simp
  then show ?thesis
    using le assms(2) many by (auto simp: ReadSignature_def WriteSignature_def varint.dec_enc cnt rreturn_def)
qed

lemma canonical_fields:
  "canonical_tx tx\<lparr> SignatureScripts := s \<rparr>
     = \<lparr> Version = Version tx, TxDef = map canonical (TxDef tx), tx_In = tx_In tx, tx_Out = tx_Out tx,
         LockTime = LockTime tx, SignatureScripts = s \<rparr>"
  by (cases tx) (simp add: canonical_tx_def)

lemma OmcDecode_prefix:
  assumes "wf_parts tx" "format_ok tx"
  shows "OmcDecode msg (tx_prefix tx @ r) = ReadSignature (canonical_tx tx\<lparr> SignatureScripts := SignatureScripts msg \<rparr>) r"
proof -
  have defs: "read_list MaxDefinitionPerMessage ReadDefinition
      (WriteVarInt (of_nat (length (TxDef tx))) @ concat (map WriteDefinition (TxDef tx)) @ s) = (Inr (map canonical (TxDef tx)), s)" for s
    using assms(1) by (intro read_list_enc) (auto simp: wf_parts_def list_all_iff ReadDefinition_WriteDefinition limits_u64 [simplified])
  have ins: "read_list MaxTxInPerMessage readTxIn
      (WriteVarInt (of_nat (length (tx_In tx))) @ concat (map writeTxIn (tx_In tx)) @ s) = (Inr (tx_In tx), s)" for s
    using assms(1) read_list_enc [of "tx_In tx" readTxIn writeTxIn "\<lambda>x. x"]
    by (auto simp: wf_parts_def list_all_iff txin.dec_enc limits_u64 [simplified])
  have outs: "read_list MaxTxOutPerMessage ReadTxOut
      (WriteVarInt (of_nat (length (tx_Out tx))) @ concat (map out_bytes (tx_Out tx)) @ s) = (Inr (tx_Out tx), s)" for s
    using assms(1) read_list_enc [of "tx_Out tx" ReadTxOut out_bytes "\<lambda>x. x"]
    by (auto simp: wf_parts_def list_all_iff txout.dec_enc limits_u64 [simplified])
  have lock: "Version tx AND TxNoLock \<noteq> 0 \<Longrightarrow> LockTime tx = 0" using assms(1) by (simp add: wf_parts_def)
  have fmt: "Version tx AND TxNoDefine \<noteq> 0 \<Longrightarrow> TxDef tx = []" using assms(2) by (simp add: format_ok_def)
  show ?thesis
    by (cases "Version tx AND TxNoDefine = 0"; cases "Version tx AND TxNoLock = 0")
      (simp_all add: OmcDecode_def tx_prefix_def u32c.dec_enc defs ins outs rreturn_def canonical_fields lock fmt)
qed

lemma OmcDecode_bytes:
  assumes "wf_tx tx" "format_ok tx" "SignatureScripts msg = []"
  shows "OmcDecode msg (tx_bytes tx @ r) = (Inr (canonical_tx tx), r)"
proof -
  have "wf_parts tx" using assms(1) by (simp add: wf_tx_def)
  then show ?thesis
    using ReadSignature_enc [OF assms(1), of "canonical_tx tx\<lparr> SignatureScripts := [] \<rparr>" r]
    by (simp add: tx_bytes_def OmcDecode_prefix [OF _ assms(2)] assms(3)) (simp add: canonical_tx_def)
qed

lemma encode_decode:
  assumes "format_ok msg" "wf_tx (carried enc msg)"
  shows "snd (OmcEncode enc msg) = None
    \<and> OmcDecode (NewMsgTx v) (fst (OmcEncode enc msg) @ r) = (Inr (canonical_tx (carried enc msg)), r)"
proof -
  have "format_ok (carried enc msg)"
    using assms(1) by (auto simp: format_ok_def carried_def Let_def written_part_def before_sep_def)
  moreover have "OmcEncode enc msg = (tx_bytes (carried enc msg), None)"
    using assms by (intro OmcEncode_bytes) (simp_all add: wf_tx_def wf_parts_def)
  ultimately show ?thesis using OmcDecode_bytes [OF assms(2)] by (simp add: NewMsgTx_def)
qed

text \<open>
  C6: Transactions survive the wire, in every encoding. For a transaction in proper format whose
  transmitted part is well formed, encoding succeeds, and decoding the bytes into a fresh message
  gives exactly what the encoding carries: everything before the separators, or all of it with the
  full encoding; the signatures only with the signature encoding; the definitions without cached
  hashes and with sorted rights. The rest of the stream is left.
\<close>

theorem tx_roundtrip:
  assumes "format_ok msg" "wf_tx (carried enc msg)"
  shows "snd (OmcEncode enc msg) = None
    \<and> OmcDecode (NewMsgTx v) (fst (OmcEncode enc msg) @ r) = (Inr (canonical_tx (carried enc msg)), r)"
  using assms by (rule encode_decode)

definition sample_in :: TxIn where
  "sample_in = NewTxIn (NewOutPoint (replicate 32 7) 1) 0"

definition sample_tx :: MsgTx where
  "sample_tx = \<lparr> Version = 1, TxDef = [Vertex (NewVertexDef 1 2 3), Separator], tx_In = [sample_in],
     tx_Out = [NewTxOut 0 (NumToken 5) None (replicate 22 0x41)], LockTime = 9, SignatureScripts = [[1, 2]] \<rparr>"

lemma sample_format: "format_ok sample_tx"
  by (simp add: format_ok_def sample_tx_def TxNoDefine_def)

lemma sample_carried: "carried (SignatureEncoding OR FullEncoding) sample_tx = sample_tx"
  by (simp add: carried_def written_part_def SignatureEncoding_def FullEncoding_def sample_tx_def)

lemmas limits = MaxDefinitionPerMessage_def MinDefinitionPayload_def MaxTxInPerMessage_def MaxTxOutPerMessage_def
  wire_MaxMessagePayload_def minTxInPayload_def MinTxOutPayload_def TxNoLock_def

lemma sample_wf: "wf_tx sample_tx"
  by (simp add: wf_tx_def wf_parts_def sample_tx_def sample_in_def NewTxIn_def NewOutPoint_def NewTxOut_def wf_in_def wf_out_def wf_token_def
      is_hash_def DefTypeSeparator_def Token_IsNumeric_def HasRight_def IsCoinBase_def limits)

theorem tx_roundtrip_witness:
  "OmcDecode (NewMsgTx 1) (fst (MsgTx_Serialize sample_tx) @ [42]) = (Inr (canonical_tx sample_tx), [42])"
  using tx_roundtrip [of sample_tx "SignatureEncoding OR FullEncoding" 1 "[42]"] sample_format sample_wf
  by (simp add: sample_carried MsgTx_Serialize_def)

text \<open>
  C9: What the hash of a transaction covers. Neither the signatures nor anything after a separator
  changes \<open>TxHash\<close>, and the bytes that are hashed determine everything else. But a transaction that
  is flagged to have no definitions and has some is hashed after its version only, because the error
  of the encoder is dropped: all of them with one version have one hash.
\<close>

theorem txhash_coverage:
  "(format_ok a \<longrightarrow> TxHash H (Strip a\<lparr> SignatureScripts := sigs \<rparr>) = TxHash H a)
   \<and> (format_ok a \<and> format_ok b \<and> wf_tx (carried BaseEncoding a) \<and> wf_tx (carried BaseEncoding b)
      \<and> fst (SerializeNoSignature a) = fst (SerializeNoSignature b)
      \<longrightarrow> canonical_tx (carried BaseEncoding a) = canonical_tx (carried BaseEncoding b))
   \<and> (\<not> format_ok a \<longrightarrow> TxHash H a = Some (H (PutUint32 LittleEndian (Version a))))"
proof (intro conjI impI)
  have base: "BaseEncoding AND FullEncoding = 0" "BaseEncoding \<noteq> SignatureEncoding"
    by (simp_all add: BaseEncoding_def FullEncoding_def SignatureEncoding_def)
  assume "format_ok a"
  then show "TxHash H (Strip a\<lparr> SignatureScripts := sigs \<rparr>) = TxHash H a"
    by (auto simp: TxHash_def SerializeNoSignature_def OmcEncode_def base Strip_def written_part_def before_sep_def format_ok_def)
next
  assume h: "format_ok a \<and> format_ok b \<and> wf_tx (carried BaseEncoding a) \<and> wf_tx (carried BaseEncoding b)
      \<and> fst (SerializeNoSignature a) = fst (SerializeNoSignature b)"
  then have "(Inr (canonical_tx (carried BaseEncoding a)), []) = (Inr (canonical_tx (carried BaseEncoding b)) :: wire_error + MsgTx, [] :: bytes)"
    using encode_decode [of a BaseEncoding 1 "[]"] encode_decode [of b BaseEncoding 1 "[]"] by (simp add: SerializeNoSignature_def)
  then show "canonical_tx (carried BaseEncoding a) = canonical_tx (carried BaseEncoding b)" by simp
next
  assume "\<not> format_ok a"
  then show "TxHash H a = Some (H (PutUint32 LittleEndian (Version a)))"
    by (simp add: TxHash_def SerializeNoSignature_def OmcEncode_def format_ok_def wthen_def wput_def hash_written_def Let_def)
qed

theorem txhash_coverage_witness:
  "TxHash (\<lambda>b. b) (Strip sample_tx\<lparr> SignatureScripts := [] \<rparr>) = TxHash (\<lambda>b. b) sample_tx
   \<and> TxHash (\<lambda>b. b) (sample_tx\<lparr> Version := TxNoDefine \<rparr>) = Some (PutUint32 LittleEndian TxNoDefine)"
  using txhash_coverage [of sample_tx "\<lambda>b. b" "[]" sample_tx] sample_format
    txhash_coverage [of "sample_tx\<lparr> Version := TxNoDefine \<rparr>" "\<lambda>b. b" "[]" sample_tx]
  by (simp add: format_ok_def sample_tx_def TxNoDefine_def)

lemma sint_negative: "sint (c :: u64) < 0" if "2 ^ 63 \<le> unat c"
proof -
  have "int (2 ^ 63) \<le> int (unat c)" using that by (rule zle_int [THEN iffD2])
  then have lo: "2 ^ 63 \<le> uint c" unfolding of_nat_power uint_nat by simp
  have hi: "uint c < 2 ^ 64" using uint_bounded [of c] by simp
  have "uint c div 2 ^ 63 = 1" using lo hi by (simp add: div_pos_geq)
  then have "bit (uint c) 63" by (simp add: bit_iff_odd)
  then show ?thesis by (simp add: sint_uint signed_take_bit_negative_iff)
qed

text \<open>
  C62: Hostile transactions. A transaction with a single input of zero hash, whose first output has
  a script too short for the classification of coin bases, crashes the decoder as soon as the count
  of signatures is read, whatever the rest of the stream is. And a count of signatures from \<open>2 ^ 63\<close>
  on is negative as an \<open>int\<close>: it passes the limit and reads no signature, so the transaction has
  more than one accepted encoding.
\<close>

theorem tx_decode_hazards:
  "(format_ok tx \<and> wf_parts tx \<and> tx_In tx = [t] \<and> op_Hash (PreviousOutPoint t) = zero_hash
      \<and> tx_Out tx = to # tos \<and> \<not> TxOut_IsSeparator to
      \<and> (PkScript to = [] \<or> PkScript to ! 0 \<noteq> 0x88 \<and> length (PkScript to) < 22)
      \<longrightarrow> OmcDecode msg (tx_prefix tx @ WriteVarInt c @ r) = (Inl GoPanic, r))
   \<and> (IsCoinBase tx = Some cb \<and> 2 ^ 63 \<le> unat c \<longrightarrow> ReadSignature tx (WriteVarInt c @ r) = (Inr tx, r))"
proof (intro conjI impI)
  assume h: "format_ok tx \<and> wf_parts tx \<and> tx_In tx = [t] \<and> op_Hash (PreviousOutPoint t) = zero_hash
      \<and> tx_Out tx = to # tos \<and> \<not> TxOut_IsSeparator to
      \<and> (PkScript to = [] \<or> PkScript to ! 0 \<noteq> 0x88 \<and> length (PkScript to) < 22)"
  then have "IsCoinBase (canonical_tx tx\<lparr> SignatureScripts := s \<rparr>) = None" for s
    by (auto simp: IsCoinBase_def canonical_tx_def IsContractCall_def Crossing_def script_at_def)
  then show "OmcDecode msg (tx_prefix tx @ WriteVarInt c @ r) = (Inl GoPanic, r)"
    using h by (simp add: OmcDecode_prefix ReadSignature_def varint.dec_enc rfail_def)
next
  assume h: "IsCoinBase tx = Some cb \<and> 2 ^ 63 \<le> unat c"
  then have neg: "sint c < 0" by (simp add: sint_negative)
  then have "nat (sint c) = 0" "\<not> sint c > int n" for n by simp_all
  then show "ReadSignature tx (WriteVarInt c @ r) = (Inr tx, r)"
    using h by (simp add: ReadSignature_def varint.dec_enc rreturn_def)
qed

definition crash_tx :: MsgTx where
  "crash_tx = \<lparr> Version = 1, TxDef = [], tx_In = [NewTxIn (NewOutPoint zero_hash 0) 0],
     tx_Out = [NewTxOut 0 (NumToken 5) None []], LockTime = 0, SignatureScripts = [] \<rparr>"

lemma crash_parts: "format_ok crash_tx" "wf_parts crash_tx"
  by (simp_all add: format_ok_def wf_parts_def crash_tx_def NewTxIn_def NewOutPoint_def NewTxOut_def wf_in_def wf_out_def wf_token_def
      is_hash_def DefTypeSeparator_def Token_IsNumeric_def HasRight_def limits TxNoDefine_def)

theorem tx_decode_hazards_witness:
  "OmcDecode (NewMsgTx 1) (tx_prefix crash_tx @ WriteVarInt 0 @ []) = (Inl GoPanic, [])
   \<and> ReadSignature sample_tx (WriteVarInt 0x8000000000000000 @ [7]) = (Inr sample_tx, [7])"
proof
  show "OmcDecode (NewMsgTx 1) (tx_prefix crash_tx @ WriteVarInt 0 @ []) = (Inl GoPanic, [])"
    by (rule tx_decode_hazards [where t = "NewTxIn (NewOutPoint zero_hash 0) 0"
            and to = "NewTxOut 0 (NumToken 5) None []" and tos = "[]", THEN conjunct1, THEN mp])
      (use crash_parts in \<open>simp add: crash_tx_def NewTxIn_def NewOutPoint_def NewTxOut_def TxOut_IsSeparator_def DefTypeSeparator_def\<close>)
  show "ReadSignature sample_tx (WriteVarInt 0x8000000000000000 @ [7]) = (Inr sample_tx, [7])"
    by (rule tx_decode_hazards [where cb = False, THEN conjunct2, THEN mp])
      (simp add: IsCoinBase_def sample_tx_def sample_in_def NewTxIn_def NewOutPoint_def)
qed

subsection \<open>Sizes\<close>

lemma length_token:
  "wf_token t \<Longrightarrow> length (token_bytes WriteVarInt t) + (if TokenType t = DefTypeSeparator then 8 else 0) = Token_SerializeSize t"
  by (cases "TokenType t = DefTypeSeparator"; cases "Value t"; cases "t_Rights t")
    (auto simp: wf_token_def token_bytes_def Token_SerializeSize_def value_size_def length_WriteVarInt Token_IsNumeric_def HasRight_def
      is_hash_def DefTypeSeparator_def split: TokenValue.splits)

lemma length_out:
  "wf_out t \<Longrightarrow> length (out_bytes t) + (if TxOut_IsSeparator t then 8 else 0) = TxOut_SerializeSize t"
  using length_token [of t]
  by (simp add: wf_out_def out_bytes_def TxOut_SerializeSize_def WriteVarBytes_def length_WriteVarInt TxOut_IsSeparator_def)

lemma length_outs:
  "list_all wf_out ts \<Longrightarrow> length (concat (map out_bytes ts)) + 8 * length (filter TxOut_IsSeparator ts)
     = sum_list (map TxOut_SerializeSize ts)"
  by (induction ts) (auto dest!: length_out)

lemma length_ins: "list_all wf_in ts \<Longrightarrow> length (concat (map writeTxIn ts)) = sum_list (map TxIn_SerializeSize ts)"
  by (induction ts) (simp_all add: wf_in_def is_hash_def writeTxIn_def writeOutPoint_def TxIn_SerializeSize_def)

lemma length_defs:
  "list_all wf_def ds \<Longrightarrow> length (concat (map WriteDefinition ds)) =
     sum_list (map SerializeSize ds) + length (filter (\<lambda>d. \<not> type_counted d) ds)"
  by (induction ds) (simp_all add: length_WriteDefinition)

lemma length_scripts:
  "length (concat (map WriteVarBytes ss)) = sum_list (map (\<lambda>s. VarIntSerializeSize (of_nat (length s)) + length s) ss)"
  by (induction ss) (simp_all add: WriteVarBytes_def length_WriteVarInt)

text \<open>The bytes that the announced size has too many: the lock time and the count of definitions the
  version leaves out, and a value for every separator.\<close>

definition overcount :: "MsgTx \<Rightarrow> nat" where
  "overcount msg =
     (if Version msg AND TxNoLock = 0 then 0 else 4) + (if Version msg AND TxNoDefine = 0 then 0 else 1)
     + 8 * length (filter TxOut_IsSeparator (tx_Out msg))"

lemma length_prefix:
  assumes "wf_parts tx" "format_ok tx"
  shows "length (tx_prefix tx) + overcount tx = baseSize tx True + length (filter (\<lambda>d. \<not> type_counted d) (TxDef tx))"
  using assms length_outs [of "tx_Out tx"] length_ins [of "tx_In tx"] length_defs [of "TxDef tx"]
  by (auto simp: wf_parts_def format_ok_def tx_prefix_def overcount_def baseSize_def part_size_def written_part_def length_WriteVarInt
      VarIntSerializeSize_def [of 0])

text \<open>
  C38: The announced sizes against the bytes. For a transaction in proper format, \<open>SerializeSize\<close> is
  the length of \<open>Serialize\<close>, and \<open>SerializeSizeFull\<close> with the empty list of signatures the length of
  \<open>SerializeFull\<close>, up to exactly this: one byte less for every vertex, border and right set, and too
  many bytes for a lock time or a count of definitions that the version leaves out and for the value
  of every separator.
\<close>

theorem tx_sizes:
  assumes "format_ok tx" "wf_parts tx"
  shows "length (fst (MsgTx_Serialize tx)) + overcount tx
      = MsgTx_SerializeSize tx + length (filter (\<lambda>d. \<not> type_counted d) (TxDef tx))
    \<and> length (fst (SerializeFull tx)) + overcount tx
      = SerializeSizeFull tx + 1 + length (filter (\<lambda>d. \<not> type_counted d) (TxDef tx))"
proof -
  have enc: "SignatureEncoding OR FullEncoding = 6" "BaseEncoding OR FullEncoding = 5"
    by (simp_all add: SignatureEncoding_def FullEncoding_def BaseEncoding_def)
  have c: "carried 6 tx = tx" "carried 5 tx = tx\<lparr> SignatureScripts := [] \<rparr>"
    by (simp_all add: carried_def written_part_def FullEncoding_def SignatureEncoding_def)
  have p: "tx_prefix (tx\<lparr> SignatureScripts := [] \<rparr>) = tx_prefix tx" by (simp add: tx_prefix_def)
  have "list_all wf_out (tx_Out (carried 6 tx))" "list_all wf_out (tx_Out (carried 5 tx))"
    using assms(2) by (simp_all add: c wf_parts_def)
  then show ?thesis
    using length_prefix [OF assms(2,1)]
    by (simp add: MsgTx_Serialize_def SerializeFull_def enc OmcEncode_bytes [OF assms(1)] c tx_bytes_def p WriteSignature_def
        length_WriteVarInt length_scripts MsgTx_SerializeSize_def SerializeSizeFull_def part_size_def VarIntSerializeSize_def [of 0])
qed

theorem tx_sizes_witness:
  "length (fst (MsgTx_Serialize sample_tx)) = MsgTx_SerializeSize sample_tx + 1"
  using tx_sizes [of sample_tx] sample_format sample_wf
  by (simp add: wf_tx_def overcount_def sample_tx_def TxNoLock_def TxNoDefine_def NewTxOut_def TxOut_IsSeparator_def DefTypeSeparator_def)

lemma read_value_enc:
  assumes "case v of HashToken h \<Rightarrow> \<not> num \<and> is_hash h | NumToken n \<Rightarrow> num"
  shows "(if num then (case get_or 0 (Uint64 LittleEndian) (value_bytes v @ r) of (n, x) \<Rightarrow> (NumToken n, x))
          else (case read_fill 32 (value_bytes v @ r) of (h, x) \<Rightarrow> (HashToken h, x))) = (v, r)"
  using assms by (cases v) (simp_all add: get_or_def u64c.dec_enc is_hash_def)

lemma get_or_enc: "get_or d (Uint64 LittleEndian) (PutUint64 LittleEndian v @ r) = (v, r)"
    "get_or d' ReadVarInt (WriteVarInt v @ r) = (v, r)"
  by (simp_all add: get_or_def u64c.dec_enc varint.dec_enc)

lemma wf_value:
  assumes "wf_token t" "TokenType t \<noteq> DefTypeSeparator"
  obtains v where "Value t = Some v" "case v of HashToken h \<Rightarrow> \<not> Token_IsNumeric t \<and> is_hash h | NumToken n \<Rightarrow> Token_IsNumeric t"
    "case t_Rights t of None \<Rightarrow> TokenType t AND 2 = 0 | Some h \<Rightarrow> is_hash h \<and> TokenType t AND 2 \<noteq> 0"
  using assms by (auto simp: wf_token_def HasRight_def split: option.splits TokenValue.splits)

lemma TxOut_Read_Write:
  assumes "wf_token t" "length (PkScript t) < 2 ^ 32"
  shows "\<exists>w. TxOut_Write t = Inr w \<and>
    TxOut_Read (w @ r) = (if PkScript t = [] \<and> r = [] then (Inl ErrEOF, []) else (Inr t, r))"
proof -
  have n: "unat (of_nat (length (PkScript t)) :: u32) = length (PkScript t)" using assms(2) by (simp add: unat_of_nat)
  have raw: "raw_reader (length b) (b @ s) = (if b = [] \<and> s = [] then (Inl ErrEOF, []) else (Inr b, s))" for b s
    by (simp add: raw_reader_def)
  obtain ty v rs sc where t: "t = \<lparr> TokenType = ty, Value = v, t_Rights = rs, PkScript = sc \<rparr>" by (cases t)
  have "Token_Read (token_bytes (PutUint64 LittleEndian) t @ s) = (Inr \<lparr> TokenType = ty, Value = v, t_Rights = rs \<rparr>, s)" for s
    using assms(1) by (simp add: t token_part token_store.dec_enc)
  then show ?thesis
    using Token_writes(2) [OF assms(1)] raw [of sc r] n
    by (simp add: TxOut_Write_def wappend_def TxOut_Read_def u32c.dec_enc rreturn_def rbind_def t)
qed

lemma DeSerialize_Serialize:
  assumes "wf_token t" "TokenType t \<noteq> DefTypeSeparator" "length (PkScript t) < 2 ^ 32" "t_Rights t0 = None"
  shows "\<exists>s. TxOut_Serialize t = Some s \<and> (if length (PkScript t) \<le> 1000 then TxOut_DeSerialize t0 (s @ r) = (Some (length s), t)
       else fst (TxOut_DeSerialize t0 (s @ r)) = None)"
proof -
  obtain v where v: "Value t = Some v" "case v of HashToken h \<Rightarrow> \<not> Token_IsNumeric t \<and> is_hash h | NumToken n \<Rightarrow> Token_IsNumeric t"
    and rs: "case t_Rights t of None \<Rightarrow> TokenType t AND 2 = 0 | Some h \<Rightarrow> is_hash h \<and> TokenType t AND 2 \<noteq> 0"
    using wf_value [OF assms(1,2)] by blast
  let ?rs = "if TokenType t AND 2 \<noteq> 0 then the (t_Rights t) else []"
  let ?n = "of_nat (length (PkScript t)) :: u64"
  have n: "unat ?n = length (PkScript t)" using assms(3) by (simp add: unat_of_nat)
  have big: "?n > 1000 \<longleftrightarrow> \<not> length (PkScript t) \<le> 1000" by (simp add: word_less_nat_alt n not_le)
  have ser: "TxOut_Serialize t = Some (PutUint64 LittleEndian (TokenType t) @ value_bytes v @ ?rs @ WriteVarInt ?n @ PkScript t)"
    using v rs by (auto simp: TxOut_Serialize_def split: TokenValue.splits option.splits)
  have rights: "(if TokenType t AND 2 \<noteq> 0 then (case read_fill 32 (?rs @ x) of (h, x) \<Rightarrow> (Some h, x)) else (t_Rights t0, ?rs @ x))
      = (t_Rights t, x)" for x
    using rs assms(4) by (auto simp: is_hash_def split: option.splits)
  have fields: "t0\<lparr> TokenType := TokenType t, Value := Some v, t_Rights := t_Rights t, PkScript := PkScript t \<rparr> = t"
    using v(1) by (cases t; cases t0) simp
  show ?thesis
    unfolding ser TxOut_DeSerialize_def
    using read_value_enc [OF v(2)] rights big fields n
    by (simp add: get_or_enc Token_IsNumeric_def Let_def)
qed

text \<open>
  C39: The two storage formats of outputs. An output is read back by \<open>Read\<close> unless its script is
  empty and nothing follows, which is refused as the end of the stream; \<open>DeSerialize\<close> into an output
  without rights reads back what \<open>Serialize\<close> wrote, and the number of bytes, for scripts of up to
  1000 bytes, and gives up on longer ones.
\<close>

theorem output_formats:
  assumes "wf_token t" "TokenType t \<noteq> DefTypeSeparator" "length (PkScript t) < 2 ^ 32" "t_Rights t0 = None"
  shows "(\<exists>w. TxOut_Write t = Inr w \<and>
      TxOut_Read (w @ r) = (if PkScript t = [] \<and> r = [] then (Inl ErrEOF, []) else (Inr t, r)))
    \<and> (\<exists>s. TxOut_Serialize t = Some s \<and>
        (if length (PkScript t) \<le> 1000 then TxOut_DeSerialize t0 (s @ r) = (Some (length s), t)
         else fst (TxOut_DeSerialize t0 (s @ r)) = None))"
  using TxOut_Read_Write [OF assms(1,3)] DeSerialize_Serialize [OF assms] by blast

theorem output_formats_witness:
  "\<exists>w. TxOut_Write (NewTxOut 0 (NumToken 5) None []) = Inr w \<and> TxOut_Read w = (Inl ErrEOF, [])"
  using output_formats [of "NewTxOut 0 (NumToken 5) None []" "NewTxOut 0 (NumToken 5) None []" "[]"]
  by (simp add: NewTxOut_def wf_token_def DefTypeSeparator_def Token_IsNumeric_def HasRight_def)

end
