(* ===== verification/Wire_Inventory.thy ===== *)
theory Wire_Inventory
  imports Wire_Tx
begin

text \<open>
  Inventory and locator messages of \<^verbatim>\<open>btcd/wire\<close>: \<^verbatim>\<open>invvect.go\<close>, the messages inv, getdata and
  notfound, which hold a list of inventory vectors, and getheaders, getminerblocks and getblocks,
  which hold locators. The three messages of each kind have the same fields, and their functions
  differ in the names of the errors only: the shared part has the name as an argument. Decoders
  take the receiver, because getblocks adds to lists of a receiver it has not reset yet; the errors
  of the functions that add an entry are dropped by the decoders, as in the source.
\<close>

subsection \<open>Inventory vectors\<close>

definition MaxInvPerMsg :: nat where "MaxInvPerMsg = 50000"
definition MaxBlockLocatorsPerMsg :: nat where "MaxBlockLocatorsPerMsg = 500"

record InvVect =
  iv_Type :: u32
  iv_Hash :: hash

definition NewInvVect :: "u32 \<Rightarrow> hash \<Rightarrow> InvVect" where
  "NewInvVect typ h = \<lparr> iv_Type = typ, iv_Hash = h \<rparr>"

definition readInvVect :: "InvVect reader" where
  "readInvVect = rbind (Uint32 LittleEndian) (\<lambda>t. rbind (read_full 32) (\<lambda>h. rreturn \<lparr> iv_Type = t, iv_Hash = h \<rparr>))"

definition writeInvVect :: "InvVect \<Rightarrow> bytes" where
  "writeInvVect iv = PutUint32 LittleEndian (iv_Type iv) @ iv_Hash iv"

subsection \<open>Messages with inventory vectors\<close>

type_synonym 'a added = "wire_error option \<times> 'a"

definition add_inv :: "string \<Rightarrow> InvVect \<Rightarrow> InvVect list \<Rightarrow> InvVect list added" where
  "add_inv name iv invList =
     (if length invList + 1 > MaxInvPerMsg then (Some (ErrMessage name), invList) else (None, invList @ [iv]))"

definition decode_inv :: "string \<Rightarrow> string \<Rightarrow> InvVect list reader" where
  "decode_inv name add_name =
     rbind ReadVarInt (\<lambda>cnt.
       if unat cnt > MaxInvPerMsg then rfail (ErrMessage name)
       else rbind (read_many readInvVect (unat cnt)) (\<lambda>ivs.
              rreturn (fold (\<lambda>iv l. snd (add_inv add_name iv l)) ivs [])))"

definition encode_inv :: "string \<Rightarrow> InvVect list \<Rightarrow> written" where
  "encode_inv name invList =
     (if length invList > MaxInvPerMsg then ([], Some (ErrMessage name))
      else wlist (\<lambda>iv. wput (writeInvVect iv)) invList)"

record MsgInv =
  InvList :: "InvVect list"

type_synonym MsgGetData = MsgInv
type_synonym MsgNotFound = MsgInv

definition NewMsgInv :: MsgInv where "NewMsgInv = \<lparr> InvList = [] \<rparr>"
definition NewMsgGetData :: MsgGetData where "NewMsgGetData = \<lparr> InvList = [] \<rparr>"
definition NewMsgNotFound :: MsgNotFound where "NewMsgNotFound = \<lparr> InvList = [] \<rparr>"

definition MsgInv_AddInvVect :: "InvVect \<Rightarrow> MsgInv \<Rightarrow> MsgInv added" where
  "MsgInv_AddInvVect iv msg =
     (case add_inv ''MsgInv.AddInvVect'' iv (InvList msg) of (e, l) \<Rightarrow> (e, msg\<lparr> InvList := l \<rparr>))"

definition MsgInv_OmcDecode :: "MsgInv \<Rightarrow> MsgInv reader" where
  "MsgInv_OmcDecode msg =
     rbind (decode_inv ''MsgInv.OmcDecode'' ''MsgInv.AddInvVect'') (\<lambda>l. rreturn (msg\<lparr> InvList := l \<rparr>))"

definition MsgInv_OmcEncode :: "MsgInv \<Rightarrow> written" where
  "MsgInv_OmcEncode msg = encode_inv ''MsgInv.OmcEncode'' (InvList msg)"

definition MsgGetData_AddInvVect :: "InvVect \<Rightarrow> MsgGetData \<Rightarrow> MsgGetData added" where
  "MsgGetData_AddInvVect iv msg =
     (case add_inv ''MsgGetData.AddInvVect'' iv (InvList msg) of (e, l) \<Rightarrow> (e, msg\<lparr> InvList := l \<rparr>))"

definition MsgGetData_OmcDecode :: "MsgGetData \<Rightarrow> MsgGetData reader" where
  "MsgGetData_OmcDecode msg =
     rbind (decode_inv ''MsgGetData.OmcDecode'' ''MsgGetData.AddInvVect'') (\<lambda>l. rreturn (msg\<lparr> InvList := l \<rparr>))"

definition MsgGetData_OmcEncode :: "MsgGetData \<Rightarrow> written" where
  "MsgGetData_OmcEncode msg = encode_inv ''MsgGetData.OmcEncode'' (InvList msg)"

text \<open>The double hash as bytes is a parameter; the error of the encoder is dropped.\<close>

definition MsgGetData_DoubleHashB :: "(bytes \<Rightarrow> bytes) \<Rightarrow> MsgGetData \<Rightarrow> bytes" where
  "MsgGetData_DoubleHashB DoubleHashB msg = DoubleHashB (fst (MsgGetData_OmcEncode msg))"

definition MsgNotFound_AddInvVect :: "InvVect \<Rightarrow> MsgNotFound \<Rightarrow> MsgNotFound added" where
  "MsgNotFound_AddInvVect iv msg =
     (case add_inv ''MsgNotFound.AddInvVect'' iv (InvList msg) of (e, l) \<Rightarrow> (e, msg\<lparr> InvList := l \<rparr>))"

definition MsgNotFound_OmcDecode :: "MsgNotFound \<Rightarrow> MsgNotFound reader" where
  "MsgNotFound_OmcDecode msg =
     rbind (decode_inv ''MsgNotFound.OmcDecode'' ''MsgNotFound.AddInvVect'') (\<lambda>l. rreturn (msg\<lparr> InvList := l \<rparr>))"

definition MsgNotFound_OmcEncode :: "MsgNotFound \<Rightarrow> written" where
  "MsgNotFound_OmcEncode msg = encode_inv ''MsgNotFound.OmcEncode'' (InvList msg)"

subsection \<open>Locators of both chains\<close>

record MsgGetBlocks =
  gb_ProtocolVersion :: u32
  TxBlockLocatorHashes :: "hash list"
  TxHashStop :: hash
  MinerBlockLocatorHashes :: "hash list"
  MinerHashStop :: hash

definition wire_ProtocolVersion :: u32 where "wire_ProtocolVersion = 70013"

definition NewMsgGetBlocks :: "hash \<Rightarrow> hash \<Rightarrow> MsgGetBlocks" where
  "NewMsgGetBlocks hashStop minerstop =
     \<lparr> gb_ProtocolVersion = wire_ProtocolVersion, TxBlockLocatorHashes = [], TxHashStop = hashStop,
       MinerBlockLocatorHashes = [], MinerHashStop = minerstop \<rparr>"

definition gb_full :: "MsgGetBlocks \<Rightarrow> bool" where
  "gb_full msg \<longleftrightarrow> length (TxBlockLocatorHashes msg) + length (MinerBlockLocatorHashes msg) + 2 > MaxBlockLocatorsPerMsg"

definition AddBlockLocatorHash :: "hash \<Rightarrow> MsgGetBlocks \<Rightarrow> MsgGetBlocks added" where
  "AddBlockLocatorHash h msg =
     (if gb_full msg then (Some (ErrMessage ''MsgGetBlocks.AddBlockLocatorHash''), msg)
      else (None, msg\<lparr> TxBlockLocatorHashes := TxBlockLocatorHashes msg @ [h] \<rparr>))"

definition AddMinerBlockLocatorHash :: "hash \<Rightarrow> MsgGetBlocks \<Rightarrow> MsgGetBlocks added" where
  "AddMinerBlockLocatorHash h msg =
     (if gb_full msg then (Some (ErrMessage ''MsgGetBlocks.AddMinerBlockLocatorHash''), msg)
      else (None, msg\<lparr> MinerBlockLocatorHashes := MinerBlockLocatorHashes msg @ [h] \<rparr>))"

text \<open>The counts are limited after additions of 64 bits, which wrap around.\<close>

definition MsgGetBlocks_OmcDecode :: "MsgGetBlocks \<Rightarrow> MsgGetBlocks reader" where
  "MsgGetBlocks_OmcDecode msg =
     rbind (Uint32 LittleEndian) (\<lambda>pv. rbind ReadVarInt (\<lambda>cnt.
       if cnt + 2 > of_nat MaxBlockLocatorsPerMsg then rfail (ErrMessage ''MsgGetBlocks.OmcDecode'')
       else rbind (go_make 32 cnt) (\<lambda>_. rbind (read_many (read_full 32) (unat cnt)) (\<lambda>hs.
         let msg1 = fold (\<lambda>h m. snd (AddBlockLocatorHash h m)) hs
               (msg\<lparr> gb_ProtocolVersion := pv, TxBlockLocatorHashes := [] \<rparr>)
         in rbind (read_full 32) (\<lambda>stop. rbind ReadVarInt (\<lambda>cnt2.
              if cnt + cnt2 + 2 > of_nat MaxBlockLocatorsPerMsg then rfail (ErrMessage ''MsgGetBlocks.OmcDecode'')
              else rbind (go_make 32 cnt2) (\<lambda>_. rbind (read_many (read_full 32) (unat cnt2)) (\<lambda>hs2.
                let msg2 = fold (\<lambda>h m. snd (AddMinerBlockLocatorHash h m)) hs2
                      (msg1\<lparr> TxHashStop := stop, MinerBlockLocatorHashes := [] \<rparr>)
                in rbind (read_full 32) (\<lambda>stop2. rreturn (msg2\<lparr> MinerHashStop := stop2 \<rparr>))))))))))"

definition MsgGetBlocks_OmcEncode :: "MsgGetBlocks \<Rightarrow> written" where
  "MsgGetBlocks_OmcEncode msg =
     (let count1 = length (TxBlockLocatorHashes msg); count2 = length (MinerBlockLocatorHashes msg)
      in if count1 + 2 > MaxBlockLocatorsPerMsg then ([], Some (ErrMessage ''MsgGetBlocks.OmcEncode''))
         else wthen (wput (PutUint32 LittleEndian (gb_ProtocolVersion msg)))
             (wthen (wlist wput (TxBlockLocatorHashes msg))
             (wthen (wput (TxHashStop msg))
             (if count1 + count2 + 2 > MaxBlockLocatorsPerMsg then ([], Some (ErrMessage ''MsgGetBlocks.OmcEncode''))
              else wthen (wlist wput (MinerBlockLocatorHashes msg)) (wput (MinerHashStop msg))))))"

subsection \<open>Locators of one chain\<close>

record MsgGetHeaders =
  ProtocolVersion :: u32
  BlockLocatorHashes :: "hash list"
  HashStop :: hash

type_synonym MsgGetMinerBlocks = MsgGetHeaders

definition add_locator :: "string \<Rightarrow> hash \<Rightarrow> MsgGetHeaders \<Rightarrow> MsgGetHeaders added" where
  "add_locator name h msg =
     (if length (BlockLocatorHashes msg) + 1 > MaxBlockLocatorsPerMsg then (Some (ErrMessage name), msg)
      else (None, msg\<lparr> BlockLocatorHashes := BlockLocatorHashes msg @ [h] \<rparr>))"

definition decode_locators :: "string \<Rightarrow> string \<Rightarrow> MsgGetHeaders \<Rightarrow> MsgGetHeaders reader" where
  "decode_locators name add_name msg =
     rbind (Uint32 LittleEndian) (\<lambda>pv. rbind ReadVarInt (\<lambda>cnt.
       if unat cnt > MaxBlockLocatorsPerMsg then rfail (ErrMessage name)
       else rbind (read_many (read_full 32) (unat cnt)) (\<lambda>hs.
         let msg1 = fold (\<lambda>h m. snd (add_locator add_name h m)) hs
               (msg\<lparr> ProtocolVersion := pv, BlockLocatorHashes := [] \<rparr>)
         in rbind (read_full 32) (\<lambda>stop. rreturn (msg1\<lparr> HashStop := stop \<rparr>)))))"

definition encode_locators :: "string \<Rightarrow> MsgGetHeaders \<Rightarrow> written" where
  "encode_locators name msg =
     (if length (BlockLocatorHashes msg) > MaxBlockLocatorsPerMsg then ([], Some (ErrMessage name))
      else wthen (wput (PutUint32 LittleEndian (ProtocolVersion msg)))
          (wthen (wlist wput (BlockLocatorHashes msg)) (wput (HashStop msg))))"

definition MsgGetHeaders_AddBlockLocatorHash :: "hash \<Rightarrow> MsgGetHeaders \<Rightarrow> MsgGetHeaders added" where
  "MsgGetHeaders_AddBlockLocatorHash = add_locator ''MsgGetHeaders.AddBlockLocatorHash''"

definition MsgGetHeaders_OmcDecode :: "MsgGetHeaders \<Rightarrow> MsgGetHeaders reader" where
  "MsgGetHeaders_OmcDecode = decode_locators ''MsgGetHeaders.OmcDecode'' ''MsgGetHeaders.AddBlockLocatorHash''"

definition MsgGetHeaders_OmcEncode :: "MsgGetHeaders \<Rightarrow> written" where
  "MsgGetHeaders_OmcEncode = encode_locators ''MsgGetHeaders.OmcEncode''"

definition MsgGetMinerBlocks_AddBlockLocatorHash :: "hash \<Rightarrow> MsgGetMinerBlocks \<Rightarrow> MsgGetMinerBlocks added" where
  "MsgGetMinerBlocks_AddBlockLocatorHash = add_locator ''MsgGetMinerBlocks.AddBlockLocatorHash''"

definition MsgGetMinerBlocks_OmcDecode :: "MsgGetMinerBlocks \<Rightarrow> MsgGetMinerBlocks reader" where
  "MsgGetMinerBlocks_OmcDecode = decode_locators ''MsgGetBlocks.OmcDecode'' ''MsgGetMinerBlocks.AddBlockLocatorHash''"

definition MsgGetMinerBlocks_OmcEncode :: "MsgGetMinerBlocks \<Rightarrow> written" where
  "MsgGetMinerBlocks_OmcEncode = encode_locators ''MsgGetMinerBlocks.OmcEncode''"

definition NewMsgGetHeaders :: MsgGetHeaders where
  "NewMsgGetHeaders = \<lparr> ProtocolVersion = 0, BlockLocatorHashes = [], HashStop = zero_hash \<rparr>"

definition NewMsgGetMinerBlocks :: "hash \<Rightarrow> MsgGetMinerBlocks" where
  "NewMsgGetMinerBlocks hashStop =
     \<lparr> ProtocolVersion = wire_ProtocolVersion, BlockLocatorHashes = [], HashStop = hashStop \<rparr>"

subsection \<open>Limits of the payload\<close>

definition MaxVarIntPayload :: nat where "MaxVarIntPayload = 9"
definition maxInvVectPayload :: nat where "maxInvVectPayload = 4 + 32"

definition MsgInv_MaxPayloadLength :: nat where
  "MsgInv_MaxPayloadLength = MaxVarIntPayload + MaxInvPerMsg * maxInvVectPayload"

definition MsgGetHeaders_MaxPayloadLength :: nat where
  "MsgGetHeaders_MaxPayloadLength = 4 + MaxVarIntPayload + MaxBlockLocatorsPerMsg * 32 + 32"

definition MsgGetBlocks_MaxPayloadLength :: nat where
  "MsgGetBlocks_MaxPayloadLength = 4 + 2 * MaxVarIntPayload + MaxBlockLocatorsPerMsg * 32 + 2 * 32"

section \<open>Proofs\<close>

text \<open>
  What a message promises: a valid message is encoded without an error and within the limit of its
  payload; and a decoder with a fresh receiver accepts exactly the encodings of valid messages.
\<close>

locale message =
  fixes valid :: "'a \<Rightarrow> bool" and enc :: "'a \<Rightarrow> written" and dec :: "'a reader" and limit :: nat
  assumes enc_ok: "valid m \<Longrightarrow> snd (enc m) = None"
    and size_ok: "valid m \<Longrightarrow> length (fst (enc m)) \<le> limit"
    and dec_iff: "dec bs = (Inr m, r) \<longleftrightarrow> valid m \<and> bs = fst (enc m) @ r"
begin

lemma payload: "dec bs = (Inr m, r) \<Longrightarrow> length bs - length r \<le> limit"
  using dec_iff size_ok by fastforce

lemma exact: "valid m \<Longrightarrow> snd (enc m) = None \<and> length (fst (enc m)) \<le> limit \<and> dec (fst (enc m) @ r) = (Inr m, r)"
  using enc_ok size_ok dec_iff by blast

end

context codec
begin

lemma read_many_iff:
  "read_many dec n bs = (Inr as, r) \<longleftrightarrow> length as = n \<and> list_all valid as \<and> bs = concat (map enc as) @ r"
proof (induction n arbitrary: bs as)
  case 0
  then show ?case by (auto simp: rreturn_def)
next
  case (Suc n)
  show ?case by (cases as) (auto simp: rbind_Inr rreturn_Inr Suc dec_iff)
qed

end

definition wf_inv :: "InvVect \<Rightarrow> bool" where
  "wf_inv iv \<longleftrightarrow> is_hash (iv_Hash iv)"

interpretation invvect: codec writeInvVect readInvVect wf_inv
proof
  fix a r bs
  show "wf_inv a \<Longrightarrow> readInvVect (writeInvVect a @ r) = (Inr a, r)"
    by (cases a) (simp add: wf_inv_def is_hash_def readInvVect_def writeInvVect_def u32c.dec_enc rreturn_def)
  show "readInvVect bs = (Inr a, r) \<Longrightarrow> wf_inv a \<and> bs = writeInvVect a @ r"
    by (auto simp: readInvVect_def writeInvVect_def zent_io u32c.dec_iff wf_inv_def is_hash_def)
qed

interpretation hash_field: codec "\<lambda>h. h" "read_full 32" is_hash
  by unfold_locales (auto simp: read_full_Inr is_hash_def)

lemma wlist_put: "wlist (\<lambda>x. wput (f x)) xs = (WriteVarInt (of_nat (length xs)) @ concat (map f xs), None)"
  by (intro wlist_enc) (simp add: wput_def)

lemma varint_count: "c = of_nat (length xs)" if "length xs = unat c" for c :: u64
  by (simp add: that)

lemma length_concat_const: "list_all (\<lambda>x. length (f x) = k) xs \<Longrightarrow> length (concat (map f xs)) = k * length xs"
  by (induction xs) auto

lemma varint_le: "VarIntSerializeSize v \<le> MaxVarIntPayload"
  by (simp add: VarIntSerializeSize_def MaxVarIntPayload_def)

subsection \<open>Inventories\<close>

lemma fold_add_inv: "length l + length ivs \<le> MaxInvPerMsg \<Longrightarrow> fold (\<lambda>iv l. snd (add_inv name iv l)) ivs l = l @ ivs"
  by (induction ivs arbitrary: l) (simp_all add: add_inv_def)

definition valid_inv :: "MsgInv \<Rightarrow> bool" where
  "valid_inv msg \<longleftrightarrow> length (InvList msg) \<le> MaxInvPerMsg \<and> list_all wf_inv (InvList msg)"

lemma max_inv_u64: "n \<le> MaxInvPerMsg \<Longrightarrow> unat (of_nat n :: u64) = n"
  by (rule unat_of_small [where mx = MaxInvPerMsg]) (simp_all add: MaxInvPerMsg_def)

lemma decode_inv_iff:
  "decode_inv name add_name bs = (Inr l, r) \<longleftrightarrow>
     length l \<le> MaxInvPerMsg \<and> list_all wf_inv l \<and> bs = fst (encode_inv ename l) @ r"
proof
  assume "decode_inv name add_name bs = (Inr l, r)"
  then obtain c ivs where c: "unat c \<le> MaxInvPerMsg" "length ivs = unat c" "list_all wf_inv ivs"
    "bs = WriteVarInt c @ concat (map writeInvVect ivs) @ r" "l = fold (\<lambda>iv l. snd (add_inv add_name iv l)) ivs []"
    by (auto simp: decode_inv_def zent_io varint.dec_iff invvect.read_many_iff not_less split: if_splits intro: that)
  moreover have "l = ivs" using c by (simp add: fold_add_inv)
  ultimately show "length l \<le> MaxInvPerMsg \<and> list_all wf_inv l \<and> bs = fst (encode_inv ename l) @ r"
    using varint_count [of ivs c] by (simp add: encode_inv_def wlist_put)
next
  assume h: "length l \<le> MaxInvPerMsg \<and> list_all wf_inv l \<and> bs = fst (encode_inv ename l) @ r"
  then show "decode_inv name add_name bs = (Inr l, r)"
    by (simp add: decode_inv_def encode_inv_def wlist_put varint.dec_enc max_inv_u64 invvect.read_many_enc fold_add_inv rreturn_def)
qed

lemma encode_inv_ok:
  assumes "length l \<le> MaxInvPerMsg" "list_all wf_inv l"
  shows "snd (encode_inv name l) = None" "length (fst (encode_inv name l)) \<le> MsgInv_MaxPayloadLength"
proof -
  have "length (concat (map writeInvVect l)) = 36 * length l"
    using assms(2) by (intro length_concat_const) (auto simp: list_all_iff wf_inv_def is_hash_def writeInvVect_def)
  then show "snd (encode_inv name l) = None" "length (fst (encode_inv name l)) \<le> MsgInv_MaxPayloadLength"
    using assms(1) varint_le [of "of_nat (length l)"]
    by (simp_all add: encode_inv_def wlist_put length_WriteVarInt MsgInv_MaxPayloadLength_def maxInvVectPayload_def)
qed

lemma inv_message:
  "message valid_inv (\<lambda>m. encode_inv ename (InvList m))
     (rbind (decode_inv name add_name) (\<lambda>l. rreturn (msg\<lparr> InvList := l \<rparr>))) MsgInv_MaxPayloadLength"
proof
  fix m :: MsgInv and bs r
  show "valid_inv m \<Longrightarrow> snd (encode_inv ename (InvList m)) = None"
    "valid_inv m \<Longrightarrow> length (fst (encode_inv ename (InvList m))) \<le> MsgInv_MaxPayloadLength"
    by (simp_all add: valid_inv_def encode_inv_ok)
  have "msg\<lparr> InvList := l \<rparr> = m \<longleftrightarrow> InvList m = l" for l by (cases m; cases msg) auto
  then show "rbind (decode_inv name add_name) (\<lambda>l. rreturn (msg\<lparr> InvList := l \<rparr>)) bs = (Inr m, r)
      \<longleftrightarrow> valid_inv m \<and> bs = fst (encode_inv ename (InvList m)) @ r"
    by (auto simp: rbind_Inr rreturn_Inr decode_inv_iff [where ename = ename] valid_inv_def)
qed

interpretation inv: message valid_inv MsgInv_OmcEncode "MsgInv_OmcDecode msg" MsgInv_MaxPayloadLength for msg
  using inv_message by (simp add: MsgInv_OmcEncode_def [abs_def] MsgInv_OmcDecode_def)

interpretation getdata: message valid_inv MsgGetData_OmcEncode "MsgGetData_OmcDecode msg" MsgInv_MaxPayloadLength for msg
  using inv_message by (simp add: MsgGetData_OmcEncode_def [abs_def] MsgGetData_OmcDecode_def)

interpretation notfound: message valid_inv MsgNotFound_OmcEncode "MsgNotFound_OmcDecode msg" MsgInv_MaxPayloadLength for msg
  using inv_message by (simp add: MsgNotFound_OmcEncode_def [abs_def] MsgNotFound_OmcDecode_def)

subsection \<open>Locators\<close>

lemma fold_add_locator:
  "length (BlockLocatorHashes m) + length hs \<le> MaxBlockLocatorsPerMsg \<Longrightarrow>
     fold (\<lambda>h m. snd (add_locator name h m)) hs m = m\<lparr> BlockLocatorHashes := BlockLocatorHashes m @ hs \<rparr>"
  by (induction hs arbitrary: m) (simp_all add: add_locator_def)

definition valid_locators :: "MsgGetHeaders \<Rightarrow> bool" where
  "valid_locators msg \<longleftrightarrow> length (BlockLocatorHashes msg) \<le> MaxBlockLocatorsPerMsg
     \<and> list_all is_hash (BlockLocatorHashes msg) \<and> is_hash (HashStop msg)"

lemma max_loc_u64: "n \<le> MaxBlockLocatorsPerMsg \<Longrightarrow> unat (of_nat n :: u64) = n"
  by (rule unat_of_small [where mx = MaxBlockLocatorsPerMsg]) (simp_all add: MaxBlockLocatorsPerMsg_def)

lemma wlist_hashes: "wlist wput hs = (WriteVarInt (of_nat (length hs)) @ concat hs, None)"
  using wlist_put [of "\<lambda>h. h" hs] by simp

lemma encode_locators_bytes:
  "length (BlockLocatorHashes m) \<le> MaxBlockLocatorsPerMsg \<Longrightarrow> encode_locators name m =
     (PutUint32 LittleEndian (ProtocolVersion m) @ WriteVarInt (of_nat (length (BlockLocatorHashes m)))
      @ concat (BlockLocatorHashes m) @ HashStop m, None)"
  by (simp add: encode_locators_def wlist_hashes wthen_def wput_def)

lemma decode_locators_iff:
  "decode_locators name add_name msg bs = (Inr m, r) \<longleftrightarrow> valid_locators m \<and> bs = fst (encode_locators ename m) @ r"
proof
  assume "decode_locators name add_name msg bs = (Inr m, r)"
  then obtain pv c hs stop where c: "unat c \<le> MaxBlockLocatorsPerMsg" "length hs = unat c" "list_all is_hash hs" "is_hash stop"
    "bs = PutUint32 LittleEndian pv @ WriteVarInt c @ concat hs @ stop @ r"
    "m = (fold (\<lambda>h m. snd (add_locator add_name h m)) hs (msg\<lparr> ProtocolVersion := pv, BlockLocatorHashes := [] \<rparr>))\<lparr> HashStop := stop \<rparr>"
    by (auto simp: decode_locators_def Let_def zent_io u32c.dec_iff varint.dec_iff hash_field.read_many_iff is_hash_def not_less
        split: if_splits intro: that)
  then have "m = \<lparr> ProtocolVersion = pv, BlockLocatorHashes = hs, HashStop = stop \<rparr>"
    by (cases msg) (simp add: fold_add_locator)
  then show "valid_locators m \<and> bs = fst (encode_locators ename m) @ r"
    using c varint_count [of hs c] by (simp add: valid_locators_def encode_locators_bytes)
next
  assume h: "valid_locators m \<and> bs = fst (encode_locators ename m) @ r"
  have many: "list_all is_hash hs \<Longrightarrow> read_many (read_full 32) (length hs) (concat hs @ s) = (Inr hs, s)" for hs s
    using hash_field.read_many_enc [of hs s] by simp
  show "decode_locators name add_name msg bs = (Inr m, r)"
    using h by (cases m; cases msg)
      (simp add: valid_locators_def encode_locators_bytes decode_locators_def u32c.dec_enc varint.dec_enc max_loc_u64 many
        fold_add_locator is_hash_def rreturn_def)
qed

lemma locator_message:
  "message valid_locators (encode_locators ename) (decode_locators name add_name msg) MsgGetHeaders_MaxPayloadLength"
proof
  fix m :: MsgGetHeaders and bs r
  show "decode_locators name add_name msg bs = (Inr m, r) \<longleftrightarrow> valid_locators m \<and> bs = fst (encode_locators ename m) @ r"
    by (rule decode_locators_iff)
  show "valid_locators m \<Longrightarrow> snd (encode_locators ename m) = None"
    by (simp add: valid_locators_def encode_locators_bytes)
  show "valid_locators m \<Longrightarrow> length (fst (encode_locators ename m)) \<le> MsgGetHeaders_MaxPayloadLength"
    using varint_le [of "of_nat (length (BlockLocatorHashes m))"] length_hashes [of "BlockLocatorHashes m"]
    by (simp add: valid_locators_def encode_locators_bytes length_WriteVarInt MsgGetHeaders_MaxPayloadLength_def is_hash_def)
qed

interpretation getheaders: message valid_locators MsgGetHeaders_OmcEncode "MsgGetHeaders_OmcDecode msg" MsgGetHeaders_MaxPayloadLength for msg
  unfolding MsgGetHeaders_OmcEncode_def MsgGetHeaders_OmcDecode_def by (rule locator_message)

interpretation getminerblocks: message valid_locators MsgGetMinerBlocks_OmcEncode "MsgGetMinerBlocks_OmcDecode msg" MsgGetHeaders_MaxPayloadLength for msg
  unfolding MsgGetMinerBlocks_OmcEncode_def MsgGetMinerBlocks_OmcDecode_def by (rule locator_message)

subsection \<open>Locators of both chains\<close>

definition valid_getblocks :: "MsgGetBlocks \<Rightarrow> bool" where
  "valid_getblocks m \<longleftrightarrow>
     length (TxBlockLocatorHashes m) + length (MinerBlockLocatorHashes m) + 2 \<le> MaxBlockLocatorsPerMsg
     \<and> list_all is_hash (TxBlockLocatorHashes m) \<and> is_hash (TxHashStop m)
     \<and> list_all is_hash (MinerBlockLocatorHashes m) \<and> is_hash (MinerHashStop m)"

definition make_limit :: nat where
  "make_limit = 2 ^ 43"

lemma go_make_hashes: "go_make 32 n bs = (Inr u, s) \<longleftrightarrow> unat n \<le> make_limit \<and> s = bs"
  by (auto simp: go_make_def rreturn_def rfail_def make_limit_def)

lemma count1_ok:
  fixes c :: u64
  assumes "unat c \<le> make_limit"
  shows "c + 2 > of_nat MaxBlockLocatorsPerMsg \<longleftrightarrow> unat c + 2 > MaxBlockLocatorsPerMsg"
proof -
  have "unat (c + 2) = unat c + 2" using assms by (simp add: unat_word_ariths make_limit_def)
  then show ?thesis by (simp add: word_less_nat_alt MaxBlockLocatorsPerMsg_def)
qed

lemma count2_ok:
  fixes c d :: u64
  assumes "unat c \<le> make_limit" "unat d \<le> make_limit"
  shows "c + d + 2 > of_nat MaxBlockLocatorsPerMsg \<longleftrightarrow> unat c + unat d + 2 > MaxBlockLocatorsPerMsg"
proof -
  have "unat (c + d + 2) = unat c + unat d + 2" using assms by (simp add: unat_word_ariths make_limit_def)
  then show ?thesis by (simp add: word_less_nat_alt MaxBlockLocatorsPerMsg_def)
qed

lemma fold_add_tx:
  "length (TxBlockLocatorHashes m) + length (MinerBlockLocatorHashes m) + length hs + 2 \<le> MaxBlockLocatorsPerMsg \<Longrightarrow>
     fold (\<lambda>h m. snd (AddBlockLocatorHash h m)) hs m = m\<lparr> TxBlockLocatorHashes := TxBlockLocatorHashes m @ hs \<rparr>"
  by (induction hs arbitrary: m) (simp_all add: AddBlockLocatorHash_def gb_full_def)

lemma fold_add_miner:
  "length (TxBlockLocatorHashes m) + length (MinerBlockLocatorHashes m) + length hs + 2 \<le> MaxBlockLocatorsPerMsg \<Longrightarrow>
     fold (\<lambda>h m. snd (AddMinerBlockLocatorHash h m)) hs m = m\<lparr> MinerBlockLocatorHashes := MinerBlockLocatorHashes m @ hs \<rparr>"
  by (induction hs arbitrary: m) (simp_all add: AddMinerBlockLocatorHash_def gb_full_def)

definition getblocks_bytes :: "MsgGetBlocks \<Rightarrow> bytes" where
  "getblocks_bytes m =
     PutUint32 LittleEndian (gb_ProtocolVersion m) @ WriteVarInt (of_nat (length (TxBlockLocatorHashes m)))
     @ concat (TxBlockLocatorHashes m) @ TxHashStop m @ WriteVarInt (of_nat (length (MinerBlockLocatorHashes m)))
     @ concat (MinerBlockLocatorHashes m) @ MinerHashStop m"

lemma getblocks_encode: "valid_getblocks m \<Longrightarrow> MsgGetBlocks_OmcEncode m = (getblocks_bytes m, None)"
  by (simp add: valid_getblocks_def MsgGetBlocks_OmcEncode_def getblocks_bytes_def Let_def wlist_hashes wthen_def wput_def)

lemma hashes_read: "list_all is_hash hs \<Longrightarrow> read_many (read_full 32) (length hs) (concat hs @ s) = (Inr hs, s)"
  using hash_field.read_many_enc [of hs s] by simp

lemma small_make: "n + 2 \<le> MaxBlockLocatorsPerMsg \<Longrightarrow> n \<le> make_limit"
  by (simp add: MaxBlockLocatorsPerMsg_def make_limit_def)

lemma getblocks_decode_sound:
  assumes "MsgGetBlocks_OmcDecode msg bs = (Inr m, r)" "MinerBlockLocatorHashes msg = []"
  shows "valid_getblocks m \<and> bs = getblocks_bytes m @ r"
proof -
  obtain pv c hs stop d hs2 stop2 where c: "unat c \<le> make_limit" "\<not> c + 2 > of_nat MaxBlockLocatorsPerMsg"
      "length hs = unat c" "list_all is_hash hs" "is_hash stop"
    and d: "unat d \<le> make_limit" "\<not> c + d + 2 > of_nat MaxBlockLocatorsPerMsg"
      "length hs2 = unat d" "list_all is_hash hs2" "is_hash stop2"
    and bs: "bs = PutUint32 LittleEndian pv @ WriteVarInt c @ concat hs @ stop @ WriteVarInt d @ concat hs2 @ stop2 @ r"
    and m: "m = (fold (\<lambda>h m. snd (AddMinerBlockLocatorHash h m)) hs2
        ((fold (\<lambda>h m. snd (AddBlockLocatorHash h m)) hs (msg\<lparr> gb_ProtocolVersion := pv, TxBlockLocatorHashes := [] \<rparr>))
          \<lparr> TxHashStop := stop, MinerBlockLocatorHashes := [] \<rparr>))\<lparr> MinerHashStop := stop2 \<rparr>"
    using assms(1)
    by (auto simp: MsgGetBlocks_OmcDecode_def Let_def zent_io u32c.dec_iff varint.dec_iff hash_field.read_many_iff go_make_hashes is_hash_def
        split: if_splits intro: that)
  have len: "length hs + length hs2 + 2 \<le> MaxBlockLocatorsPerMsg"
    using c d count2_ok [OF c(1) d(1)] by simp
  then have "m = \<lparr> gb_ProtocolVersion = pv, TxBlockLocatorHashes = hs, TxHashStop = stop, MinerBlockLocatorHashes = hs2, MinerHashStop = stop2 \<rparr>"
    using assms(2) m by (cases msg) (simp add: fold_add_tx fold_add_miner)
  then show ?thesis
    using len c d bs varint_count [of hs c] varint_count [of hs2 d] by (simp add: valid_getblocks_def getblocks_bytes_def)
qed

lemma getblocks_decode_complete:
  assumes "valid_getblocks m" "MinerBlockLocatorHashes msg = []"
  shows "MsgGetBlocks_OmcDecode msg (getblocks_bytes m @ r) = (Inr m, r)"
proof -
  let ?c = "of_nat (length (TxBlockLocatorHashes m)) :: u64" and ?d = "of_nat (length (MinerBlockLocatorHashes m)) :: u64"
  have len: "length (TxBlockLocatorHashes m) + length (MinerBlockLocatorHashes m) + 2 \<le> MaxBlockLocatorsPerMsg"
    using assms(1) by (simp add: valid_getblocks_def)
  have u: "unat ?c = length (TxBlockLocatorHashes m)" "unat ?d = length (MinerBlockLocatorHashes m)"
    using len by (simp_all add: max_loc_u64)
  have mk: "unat ?c \<le> make_limit" "unat ?d \<le> make_limit" using len by (simp_all add: u small_make)
  have guards: "\<not> ?c + 2 > of_nat MaxBlockLocatorsPerMsg" "\<not> ?c + ?d + 2 > of_nat MaxBlockLocatorsPerMsg"
    unfolding count1_ok [OF mk(1)] count2_ok [OF mk] u using len by simp_all
  have makes: "go_make 32 ?c s = (Inr (), s)" "go_make 32 ?d s = (Inr (), s)" for s
    using mk by (simp_all add: go_make_hashes)
  have fields: "msg\<lparr> gb_ProtocolVersion := gb_ProtocolVersion m, TxBlockLocatorHashes := TxBlockLocatorHashes m, TxHashStop := TxHashStop m,
      MinerBlockLocatorHashes := MinerBlockLocatorHashes m, MinerHashStop := MinerHashStop m \<rparr> = m"
    by (cases m; cases msg) simp
  show ?thesis
    using assms len guards fields
    by (simp add: MsgGetBlocks_OmcDecode_def getblocks_bytes_def valid_getblocks_def u32c.dec_enc varint.dec_enc
        makes u hashes_read fold_add_tx fold_add_miner is_hash_def rreturn_def Let_def)
qed

lemma getblocks_length: "valid_getblocks m \<Longrightarrow> length (getblocks_bytes m) \<le> MsgGetBlocks_MaxPayloadLength"
  using varint_le [of "of_nat (length (TxBlockLocatorHashes m))"] varint_le [of "of_nat (length (MinerBlockLocatorHashes m))"]
    length_hashes [of "TxBlockLocatorHashes m"] length_hashes [of "MinerBlockLocatorHashes m"]
  by (simp add: valid_getblocks_def getblocks_bytes_def length_WriteVarInt MsgGetBlocks_MaxPayloadLength_def is_hash_def)

interpretation getblocks: message valid_getblocks MsgGetBlocks_OmcEncode "MsgGetBlocks_OmcDecode (NewMsgGetBlocks a b)"
  MsgGetBlocks_MaxPayloadLength for a b
proof
  fix m bs r
  have fresh: "MinerBlockLocatorHashes (NewMsgGetBlocks a b) = []" by (simp add: NewMsgGetBlocks_def)
  show "valid_getblocks m \<Longrightarrow> snd (MsgGetBlocks_OmcEncode m) = None"
    "valid_getblocks m \<Longrightarrow> length (fst (MsgGetBlocks_OmcEncode m)) \<le> MsgGetBlocks_MaxPayloadLength"
    by (simp_all add: getblocks_encode getblocks_length)
  show "MsgGetBlocks_OmcDecode (NewMsgGetBlocks a b) bs = (Inr m, r) \<longleftrightarrow> valid_getblocks m \<and> bs = fst (MsgGetBlocks_OmcEncode m) @ r"
    using getblocks_decode_sound [OF _ fresh] getblocks_decode_complete [OF _ fresh] by (auto simp: getblocks_encode)
qed

text \<open>
  C12: The six messages with inventories and locators accept exactly what they write. Each decoder
  succeeds with a message if and only if the message is valid, that is within the limit of its
  entries and with hashes of 32 bytes, and the bytes consumed are its encoding; getblocks with a
  fresh receiver.
\<close>

theorem messages_exact:
  "(MsgInv_OmcDecode m0 bs = (Inr m, r) \<longleftrightarrow> valid_inv m \<and> bs = fst (MsgInv_OmcEncode m) @ r)
   \<and> (MsgGetData_OmcDecode m0 bs = (Inr m, r) \<longleftrightarrow> valid_inv m \<and> bs = fst (MsgGetData_OmcEncode m) @ r)
   \<and> (MsgNotFound_OmcDecode m0 bs = (Inr m, r) \<longleftrightarrow> valid_inv m \<and> bs = fst (MsgNotFound_OmcEncode m) @ r)
   \<and> (MsgGetHeaders_OmcDecode l0 bs = (Inr l, r) \<longleftrightarrow> valid_locators l \<and> bs = fst (MsgGetHeaders_OmcEncode l) @ r)
   \<and> (MsgGetMinerBlocks_OmcDecode l0 bs = (Inr l, r) \<longleftrightarrow> valid_locators l \<and> bs = fst (MsgGetMinerBlocks_OmcEncode l) @ r)
   \<and> (MsgGetBlocks_OmcDecode (NewMsgGetBlocks a b) bs = (Inr g, r)
        \<longleftrightarrow> valid_getblocks g \<and> bs = fst (MsgGetBlocks_OmcEncode g) @ r)"
  by (intro conjI inv.dec_iff getdata.dec_iff notfound.dec_iff getheaders.dec_iff getminerblocks.dec_iff getblocks.dec_iff)

lemma count_wraps:
  fixes c :: u64
  assumes "2 ^ 64 - 2 \<le> unat c"
  shows "\<not> c + 2 > of_nat MaxBlockLocatorsPerMsg" "\<not> unat c \<le> make_limit"
proof -
  have lt: "unat c < 2 ^ 64" using unsigned_less [of c] by simp
  have "unat (c + 2) = (unat c + 2) mod 2 ^ 64" by (simp add: unat_word_ariths)
  moreover have "(unat c + 2) mod 2 ^ 64 = unat c + 2 - 2 ^ 64"
    using assms lt by (simp add: le_mod_geq)
  ultimately have "unat (c + 2) \<le> 1" using lt by simp
  then show "\<not> c + 2 > of_nat MaxBlockLocatorsPerMsg" by (simp add: word_less_nat_alt MaxBlockLocatorsPerMsg_def)
  show "\<not> unat c \<le> make_limit" using assms by (simp add: make_limit_def)
qed

text \<open>
  C13: The limit of getblocks. A count of locators just below \<open>2 ^ 64\<close> wraps around in the limit,
  passes it, and panics when the hashes are allocated: thirteen bytes of a peer suffice. And the
  functions that add a hash test the length before they add: they accept one hash more than a
  message may have, which the encoder then refuses.
\<close>

theorem getblocks_limits:
  "(2 ^ 64 - 2 \<le> unat c \<longrightarrow>
      MsgGetBlocks_OmcDecode m0 (PutUint32 LittleEndian pv @ WriteVarInt c @ r) = (Inl GoPanic, r))
   \<and> (length (TxBlockLocatorHashes m) + length (MinerBlockLocatorHashes m) + 2 = MaxBlockLocatorsPerMsg \<longrightarrow>
      fst (AddBlockLocatorHash h m) = None \<and> snd (MsgGetBlocks_OmcEncode (snd (AddBlockLocatorHash h m))) \<noteq> None)"
proof (intro conjI impI)
  assume "2 ^ 64 - 2 \<le> unat c"
  note w = count_wraps [OF this]
  have "go_make 32 c r = (Inl GoPanic, r)" using w(2) by (intro go_make_panic) (simp add: make_limit_def)
  then show "MsgGetBlocks_OmcDecode m0 (PutUint32 LittleEndian pv @ WriteVarInt c @ r) = (Inl GoPanic, r)"
    using w(1) by (simp add: MsgGetBlocks_OmcDecode_def u32c.dec_enc varint.dec_enc) (simp add: rbind_def)
next
  assume h: "length (TxBlockLocatorHashes m) + length (MinerBlockLocatorHashes m) + 2 = MaxBlockLocatorsPerMsg"
  then show "fst (AddBlockLocatorHash h m) = None" by (simp add: AddBlockLocatorHash_def gb_full_def)
  show "snd (MsgGetBlocks_OmcEncode (snd (AddBlockLocatorHash h m))) \<noteq> None"
    using h by (simp add: AddBlockLocatorHash_def gb_full_def MsgGetBlocks_OmcEncode_def Let_def wlist_hashes wthen_def wput_def)
qed

theorem getblocks_limits_witness:
  "MsgGetBlocks_OmcDecode (NewMsgGetBlocks zero_hash zero_hash) (PutUint32 LittleEndian 1 @ WriteVarInt 0xffffffffffffffff @ [])
     = (Inl GoPanic, [])
   \<and> snd (MsgGetBlocks_OmcEncode (snd (AddBlockLocatorHash zero_hash
        (NewMsgGetBlocks zero_hash zero_hash\<lparr> MinerBlockLocatorHashes := replicate 498 zero_hash \<rparr>)))) \<noteq> None"
proof
  show "MsgGetBlocks_OmcDecode (NewMsgGetBlocks zero_hash zero_hash) (PutUint32 LittleEndian 1 @ WriteVarInt 0xffffffffffffffff @ [])
     = (Inl GoPanic, [])"
    by (rule getblocks_limits [where c = "0xffffffffffffffff", THEN conjunct1, THEN mp]) simp
  show "snd (MsgGetBlocks_OmcEncode (snd (AddBlockLocatorHash zero_hash
        (NewMsgGetBlocks zero_hash zero_hash\<lparr> MinerBlockLocatorHashes := replicate 498 zero_hash \<rparr>)))) \<noteq> None"
    by (rule getblocks_limits [where m = "NewMsgGetBlocks zero_hash zero_hash\<lparr> MinerBlockLocatorHashes := replicate 498 zero_hash \<rparr>",
          THEN conjunct2, THEN mp, THEN conjunct2]) (simp add: NewMsgGetBlocks_def MaxBlockLocatorsPerMsg_def)
qed

end
