(* ===== verification/Spec2Isabelle.thy ===== *)
theory Spec2Isabelle
  imports Wire_Common BC_Compress Chain_View Retarget Treap_Iter OVM_Validate Wire_Inventory
begin

text \<open>
  A verification library for a block chain node with a contract virtual machine. Paths are relative
  to \<^verbatim>\<open>src/\<close>. Definitions carry the names of the Go functions and types; where a method name is
  shared by several receivers, the receiver is a prefix (\<open>TxOut_Match\<close>, \<open>MsgTx_Match\<close>).

  \<^bold>\<open>The program and its model.\<close>

  \<^item> Wire format. \<open>Wire_Common\<close> models \<^verbatim>\<open>btcd/wire/common/common.go\<close>: a reader consumes a list of
    bytes and gives an error or a value with the rest. \<open>Token_Defs\<close> models \<^verbatim>\<open>omega/token/token.go\<close>,
    the definitions of vertices, borders, polygons and rights and the tokens that refer to them.
    \<open>Wire_Tx\<close> models \<^verbatim>\<open>btcd/wire/msgtx.go\<close>, the transactions built from both: it calls the readers
    and writers of the other two in the order of \<open>OmcEncode\<close> and \<open>OmcDecode\<close>. \<open>Wire_Inventory\<close> models
    the messages inv, getdata, notfound, getblocks, getheaders and getminerblocks.
  \<^item> Chain. \<open>Block_Index\<close> and \<open>Chain_View\<close> model \<^verbatim>\<open>btcd/blockchain/chainutil\<close>, the tree of block
    nodes and the flat view of one branch over it. \<open>Difficulty\<close> and \<open>Retarget\<close> model
    \<^verbatim>\<open>omega/minerchain/difficulty.go\<close>, compact targets and the next required difficulty.
    \<open>BC_Compress\<close> models \<^verbatim>\<open>btcd/blockchain/bccompress/compress.go\<close>, the numbers in storage.
  \<^item> Storage. \<open>Treap\<close> models \<^verbatim>\<open>btcd/database/internal/treap\<close>, the immutable and the mutable map and
    their parent stack; \<open>Treap_Iter\<close> the iterators of \<^verbatim>\<open>treapiter.go\<close> over both.
  \<^item> Virtual machine, \<^verbatim>\<open>omega/ovm\<close>. \<open>OVM_Stack\<close> models the memory of \<^verbatim>\<open>stack.go\<close>; \<open>OVM_Operand\<close> the
    operands, \<open>OVM_Eval\<close> the arithmetic and \<open>OVM_Instr\<close> the control and memory instructions of
    \<^verbatim>\<open>instructions.go\<close>, with the parser of \<^verbatim>\<open>contract.go\<close>; \<open>OVM_Machine\<close> the loop of
    \<^verbatim>\<open>interpreter.go\<close> over the table of \<^verbatim>\<open>jump_table.go\<close>; \<open>OVM_Validate\<close> the checks of
    \<^verbatim>\<open>codevalidators.go\<close> made before a contract runs, over the regular expressions of \<open>Go_Regexp\<close>.
  \<^item> \<open>Zent_Prelude\<close> has the machine types, little endian byte strings and shared lemmas.

  \<^bold>\<open>Conventions.\<close> A struct is a record, a union a datatype, an integer of \<open>w\<close> bits a word; signed
  comparisons read it with \<open>sint\<close>. A Go error is a value of a sum type, a panic is a value of its own
  (\<open>Panic\<close>, \<open>GoPanic\<close> or \<open>None\<close>), so that absence of panics can be stated. Mutation is the updated
  record in the result; what encoding a transaction changes in it is \<open>OmcEncode_effect\<close>. An encoder
  gives the bytes written and the error it ended with, because the functions that hash a transaction
  drop the error. A single \<open>Read\<close> of a stream is that of \<open>bytes.Reader\<close>, which fails at the end of the
  stream also when no byte is asked for. A slice is allocated with its exact length, and \<open>make\<close> panics
  beyond \<open>2 ^ 48\<close> bytes. The hash functions of the package \<^verbatim>\<open>chainhash\<close>, floating point powers, the
  source of random numbers and the instructions that are not modelled are parameters.

  \<^bold>\<open>What is proved.\<close>

  \<^item> Round trips with exact acceptance: variable length integers, elements, definitions, transactions
    in every encoding, inventory and locator messages, the storage formats of outputs, compressed
    numbers, compact targets, contract code. The locales \<open>decoder\<close> and \<open>codec\<close> state the contract of a reader and a writer once; each
    format interprets one of them, and \<open>message\<close> for a whole message with the limit of its payload.
  \<^item> Refinement: both treaps implement a finite map (\<open>byte_map\<close>), the parent stack a stack (\<open>lifo\<close>),
    memory cells of each width the same laws (\<open>memory_cell\<close>), and the four evaluators the meaning of
    the expression whose postfix text they are given (\<open>evaluator\<close>).
    The iterators visit the entries of their range in order (\<open>iterator_visits_range\<close>), also while
    entries are deleted and the iterator reseeks.
  \<^item> Invariants and safety: the tips of the block index, the view after \<open>setTip\<close>, the reachable states
    of the interpreter, operands and evaluations that never panic, evaluations after validation.
  \<^item> Bounds: retargeting stays within its limits; the sizes a transaction announces, exactly.
  \<^item> Termination and its failure: code without jumps ends; the limit on steps has no effect.
  \<^item> Errors: the inputs on which decoders, validators and the interpreter panic or accept too much.

  \<^bold>\<open>Fuel.\<close> Two loops take fuel. The loop of the interpreter: code without jumps is proved to end within
  the number of its instructions and one more, and a contract that jumps to itself to end with no
  fuel. The walk to the last rotation block at a retarget: its fuel is the height of the block and
  two, which is proved to be enough on a complete chain. All other loops are total functions.

  \<^bold>\<open>Not modelled.\<close> Input and output, locks and goroutines: the database, peers and synchronization,
  mining workers, remote procedure calls, the node program and the consensus between committee members.
  Not yet translated: the other messages of \<^verbatim>\<open>btcd/wire\<close>, validation of blocks, the memory pool, scripts,
  the miner chain besides its difficulty, the views of the ledger, the utilities of \<^verbatim>\<open>btcutil\<close>,
  and the instructions of the virtual machine that compute with 256 bits, hash, or read and
  change the ledger. Of the modelled files the printed forms, the pool of script buffers, the debugger
  and the address conversions of contracts are left out.
\<close>

end
